(* ===== verification/Prelude.thy ===== *)
theory Prelude
  imports Main "HOL-Library.Word"
begin

text \<open>
  Shared vocabulary and lemmas of the development.

  The C programs are compiled for RV32 (ILP32): \<open>int\<close>, \<open>long\<close>, \<open>size_t\<close> and pointers are
  all 32 bits wide, so one type \<open>u32\<close> carries them; a signed reading is \<open>sint\<close>. \<open>char\<close> is
  unsigned on RISC-V and is \<open>byte\<close>. Arithmetic wraps, as the compiled code does.

  The counting loops of the C sources, \<open>for (size_t i = a; i < n; i++)\<close>, are \<open>for_up\<close>, with
  one invariant rule. Address ranges are kept modulo \<open>2^32\<close>: \<open>span p n a\<close> is "\<open>a\<close> is one of
  the \<open>n\<close> bytes from \<open>p\<close> on".
\<close>

type_synonym byte = "8 word"
type_synonym u32 = "32 word"

named_theorems mem_simps \<open>rewriting of byte memory, ranges and loads\<close>

section \<open>Words\<close>

lemma unat_add1_lt: "i < (n::u32) \<Longrightarrow> unat (i + 1) = Suc (unat i)"
  by unat_arith

lemma add1_le_iff: "i < (n::u32) \<Longrightarrow> i + 1 \<le> x \<longleftrightarrow> i < x"
  by unat_arith

lemma add1_le: "i < (n::u32) \<Longrightarrow> i + 1 \<le> n"
  by (rule inc_le)

lemma less_add1_iff: "i < (n::u32) \<Longrightarrow> x < i + 1 \<longleftrightarrow> x \<le> i"
  by unat_arith

lemma sub1_le: "0 < i \<Longrightarrow> (i::u32) - 1 \<le> i"
  by unat_arith

lemma add_wraps_below: "n \<le> x \<Longrightarrow> (x::u32) + k < n \<Longrightarrow> x + k < k"
  by unat_arith

lemma unat_of_nat32: "n < 2 ^ 32 \<Longrightarrow> unat (of_nat n :: u32) = n"
  by (simp add: unat_of_nat take_bit_nat_eq_self)

lemma of_nat32_less_iff:
  "a < 2 ^ 32 \<Longrightarrow> b < 2 ^ 32 \<Longrightarrow> (of_nat a :: u32) < of_nat b \<longleftrightarrow> a < b"
  by (simp add: word_less_nat_alt unat_of_nat32)

lemma of_nat32_inject:
  "a < 2 ^ 32 \<Longrightarrow> b < 2 ^ 32 \<Longrightarrow> (of_nat a :: u32) = of_nat b \<longleftrightarrow> a = b"
  by (metis unat_of_nat32)

lemma unat_u32_bound: "unat (x::u32) < 2 ^ 32"
  using unsigned_less [of x] by simp

lemma sint_of_int32: "- (2 ^ 31) \<le> k \<Longrightarrow> k < 2 ^ 31 \<Longrightarrow> sint (word_of_int k :: u32) = k"
  by (simp add: sint_sbintrunc' signed_take_bit_int_eq_self)

section \<open>Counting loops\<close>

function for_up :: "u32 \<Rightarrow> u32 \<Rightarrow> (u32 \<Rightarrow> 'a \<Rightarrow> 'a) \<Rightarrow> 'a \<Rightarrow> 'a" where
  "for_up i n f s = (if i < n then for_up (i + 1) n f (f i s) else s)"
  by pat_completeness auto
termination
  by (relation "measure (\<lambda>(i, n, f, s). unat n - unat i)")
    (auto simp: unat_add1_lt word_less_nat_alt)

declare for_up.simps [simp del]

lemma for_up_done: "\<not> i < n \<Longrightarrow> for_up i n f s = s"
  by (subst for_up.simps) simp

lemma for_up_step: "i < n \<Longrightarrow> for_up i n f s = for_up (i + 1) n f (f i s)"
  by (subst for_up.simps) simp

text \<open>The invariant rule: it holds at the start, every iteration keeps it.\<close>

lemma for_up_inv:
  assumes "P i s" and "i \<le> n"
    and "\<And>j t. i \<le> j \<Longrightarrow> j < n \<Longrightarrow> P j t \<Longrightarrow> P (j + 1) (f j t)"
  shows "P n (for_up i n f s)"
  using assms
proof (induction i n f s rule: for_up.induct)
  case (1 i n f s)
  show ?case
  proof (cases "i < n")
    case True
    then have "P n (for_up (i + 1) n f (f i s))"
      using "1.prems" by (intro "1.IH") (auto simp: add1_le add1_le_iff)
    with True show ?thesis by (simp add: for_up_step)
  next
    case False
    with "1.prems" show ?thesis by (simp add: for_up_done)
  qed
qed

text \<open>A counting loop is a fold over the indices.\<close>

lemma for_up_fold: "for_up i n f s = fold f (map of_nat [unat i..<unat n]) s"
proof (induction i n f s rule: for_up.induct)
  case (1 i n f s)
  show ?case
  proof (cases "i < n")
    case True
    then have "[unat i..<unat n] = unat i # [unat (i + 1)..<unat n]"
      by (simp add: unat_add1_lt word_less_nat_alt upt_conv_Cons)
    with True "1.IH" show ?thesis by (simp add: for_up_step)
  next
    case False
    then show ?thesis by (simp add: for_up_done word_less_nat_alt)
  qed
qed

text \<open>The downward loop \<open>for (size_t i = n; i > 0; i--)\<close>.\<close>

function for_down :: "u32 \<Rightarrow> (u32 \<Rightarrow> 'a \<Rightarrow> 'a) \<Rightarrow> 'a \<Rightarrow> 'a" where
  "for_down i f s = (if 0 < i then for_down (i - 1) f (f i s) else s)"
  by pat_completeness auto
termination
  by (relation "measure (\<lambda>(i, f, s). unat i)") (auto simp: unat_minus_one word_gt_0
      unat_gt_0)

declare for_down.simps [simp del]

lemma for_down_inv:
  assumes "P i s" and "\<And>j t. j \<le> i \<Longrightarrow> 0 < j \<Longrightarrow> P j t \<Longrightarrow> P (j - 1) (f j t)"
  shows "P 0 (for_down i f s)"
  using assms
proof (induction i f s rule: for_down.induct)
  case (1 i f s)
  show ?case
  proof (cases "0 < i")
    case True
    then have "P 0 (for_down (i - 1) f (f i s))"
      using "1.prems" by (intro "1.IH") (auto intro: order_trans [OF _ sub1_le])
    with True show ?thesis by (subst for_down.simps) simp
  next
    case False
    with "1.prems" show ?thesis by (subst for_down.simps) (simp add: word_gt_0)
  qed
qed

section \<open>Address ranges modulo the word size\<close>

definition span :: "u32 \<Rightarrow> u32 \<Rightarrow> u32 \<Rightarrow> bool" where
  "span p n a \<longleftrightarrow> a - p < n"

definition apart :: "u32 \<Rightarrow> u32 \<Rightarrow> u32 \<Rightarrow> u32 \<Rightarrow> bool" where
  "apart p n q k \<longleftrightarrow> n = 0 \<or> k = 0 \<or> (n \<le> q - p \<and> k \<le> p - q)"

lemma span_offset [simp]: "span p n (p + i) \<longleftrightarrow> i < n"
  by (simp add: span_def)

lemma unat_neg: "(x::u32) \<noteq> 0 \<Longrightarrow> unat (- x) = 2 ^ 32 - unat x"
  using unat_sub_if' [of 0 x] by (auto simp: unat_eq_zero)

lemma span_self [simp]: "span p n p \<longleftrightarrow> 0 < n"
  by (simp add: span_def)

lemma span_0 [simp]: "\<not> span p 0 a"
  by (simp add: span_def)

lemma span_add1: "j < n \<Longrightarrow> span p (j + 1) a \<longleftrightarrow> span p j a \<or> a = p + j"
proof -
  assume "j < n"
  then have "a - p < j + 1 \<longleftrightarrow> a - p < j \<or> a - p = j"
    by (simp only: less_add1_iff order_le_less)
  moreover have "a - p = j \<longleftrightarrow> a = p + j" by (auto simp: algebra_simps)
  ultimately show ?thesis by (simp only: span_def)
qed

lemma span_less: "span p j a \<Longrightarrow> j \<le> n \<Longrightarrow> span p n a"
  by (auto simp: span_def)

lemma spanE: "span p n a \<Longrightarrow> (\<And>i. a = p + i \<Longrightarrow> i < n \<Longrightarrow> P) \<Longrightarrow> P"
  by (metis add.commute diff_add_cancel span_def)

lemma span_sub:
  assumes "span (p + i) k a" and "unat i + unat k \<le> unat n"
  shows "span p n a"
proof -
  from assms(1) obtain j where j: "a = p + i + j" "j < k" by (rule spanE)
  then have "unat i + unat j < unat n" using assms(2) by (simp add: word_less_nat_alt)
  then have "unat (i + j) < unat n"
    using unat_u32_bound [of n] by (simp add: unat_plus_if')
  then show ?thesis by (simp add: j(1) add.assoc word_less_nat_alt)
qed

lemma apart_sym: "apart p n q k \<Longrightarrow> apart q k p n"
  by (auto simp: apart_def)

lemma sub_le_or_sub_le:
  fixes i j :: u32
  shows "(i - j \<le> i) \<or> (j - i \<le> j)"
  by (metis linorder_linear word_sub_le)

lemma apart_spans: "apart p n q k \<longleftrightarrow> (\<forall>a. \<not> (span p n a \<and> span q k a))"
proof
  assume ap: "apart p n q k"
  show "\<forall>a. \<not> (span p n a \<and> span q k a)"
  proof (intro allI notI, elim conjE)
    fix a assume "span p n a" "span q k a"
    then obtain i j where ij: "a = p + i" "i < n" "a = q + j" "j < k"
      by (metis spanE)
    then have pq: "p = q + j - i" by (simp add: algebra_simps)
    have "q - p = i - j" and "p - q = j - i" by (simp_all add: pq)
    with ap ij sub_le_or_sub_le [of i j] show False
      by (auto simp: apart_def)
  qed
next
  assume no: "\<forall>a. \<not> (span p n a \<and> span q k a)"
  show "apart p n q k"
  proof (rule ccontr)
    assume "\<not> apart p n q k"
    then have nk: "n \<noteq> 0" "k \<noteq> 0" and "q - p < n \<or> p - q < k"
      by (auto simp: apart_def)
    then show False
    proof (elim disjE)
      assume "q - p < n"
      then have "span p n q" "span q k q" using nk by (auto simp: span_def word_gt_0)
      with no show False by blast
    next
      assume "p - q < k"
      then have "span q k p" "span p n p" using nk by (auto simp: span_def word_gt_0)
      with no show False by blast
    qed
  qed
qed

lemma apartD: "apart p n q k \<Longrightarrow> span p n a \<Longrightarrow> \<not> span q k a"
  by (auto simp: apart_spans)

lemma apartD2: "apart p n q k \<Longrightarrow> span q k a \<Longrightarrow> \<not> span p n a"
  by (auto simp: apart_spans)

end
