(* ===== verification/Machine.thy ===== *)
theory Machine
  imports Prelude
begin

text \<open>
  The state the C programs run on: the byte memory, the static variables of \<open>mem.c\<close> and
  \<open>standard.c\<close>, and the UART (\<open>debug.h\<close>, macro \<open>UART\<close>): the characters stored to
  \<open>UART(0)\<close> so far, and the input bytes that will become ready, one after the other.
  Reading \<open>UART(0)\<close> after \<open>UART(5) & 1\<close> became set takes the next of them. The program
  image and the static variables live outside the byte memory of the model.

  Words are little endian and any address may be accessed; \<open>load32\<close> and \<open>store32\<close> are the
  four byte accesses of an unaligned word.
\<close>

unbundle bit_operations_syntax

type_synonym memory = "u32 \<Rightarrow> byte"

record machine =
  mem :: memory
  heap_end :: u32
  mem_head :: u32
  str2int_output :: u32
  uart_out :: "byte list"
  uart_in :: "byte list"

text \<open>A machine at rest over a given memory: nothing allocated, nothing printed.\<close>

definition boot :: "memory \<Rightarrow> machine" where
  "boot m = \<lparr>mem = m, heap_end = 0, mem_head = 0, str2int_output = 0, uart_out = [], uart_in = []\<rparr>"

lemma boot_simps [simp]:
  "mem (boot m) = m" "heap_end (boot m) = 0" "mem_head (boot m) = 0"
  "str2int_output (boot m) = 0" "uart_out (boot m) = []" "uart_in (boot m) = []"
  by (simp_all add: boot_def)

definition UART_write :: "byte \<Rightarrow> machine \<Rightarrow> machine" where
  "UART_write c st = st\<lparr>uart_out := uart_out st @ [c]\<rparr>"

text \<open>
  \<open>while ((UART(5) & 1) == 0); c = UART(0);\<close>: wait for a byte and take it. With no byte to
  come the wait does not end, which is \<open>None\<close>.
\<close>

definition UART_read :: "machine \<Rightarrow> (byte \<times> machine) option" where
  "UART_read st = (case uart_in st of [] \<Rightarrow> None | c # cs \<Rightarrow> Some (c, st\<lparr>uart_in := cs\<rparr>))"

section \<open>Word access\<close>

definition load32 :: "memory \<Rightarrow> u32 \<Rightarrow> u32" where
  "load32 m a = ucast (m a) OR push_bit 8 (ucast (m (a + 1)))
     OR push_bit 16 (ucast (m (a + 2))) OR push_bit 24 (ucast (m (a + 3)))"

definition store32 :: "u32 \<Rightarrow> u32 \<Rightarrow> memory \<Rightarrow> memory" where
  "store32 a v m = m(a := ucast v, a + 1 := ucast (drop_bit 8 v),
     a + 2 := ucast (drop_bit 16 v), a + 3 := ucast (drop_bit 24 v))"

lemma word_of_bytes:
  fixes v :: u32
  shows "(ucast (ucast v :: byte) :: u32) OR push_bit 8 (ucast (ucast (drop_bit 8 v) :: byte))
     OR push_bit 16 (ucast (ucast (drop_bit 16 v) :: byte))
     OR push_bit 24 (ucast (ucast (drop_bit 24 v) :: byte)) = v"
proof (rule bit_word_eqI)
  fix n assume "n < LENGTH(32)"
  then consider "n < 8" | "8 \<le> n" "n < 16" | "16 \<le> n" "n < 24" | "24 \<le> n" "n < 32"
    by fastforce
  then show "bit ((ucast (ucast v :: byte) :: u32)
      OR push_bit 8 (ucast (ucast (drop_bit 8 v) :: byte))
      OR push_bit 16 (ucast (ucast (drop_bit 16 v) :: byte))
      OR push_bit 24 (ucast (ucast (drop_bit 24 v) :: byte))) n = bit v n"
    by cases (auto simp: bit_simps)
qed

lemma add_small_neq:
  "(a::u32) + 1 \<noteq> a" "a + 2 \<noteq> a" "a + 3 \<noteq> a" "a + 2 \<noteq> a + 1" "a + 3 \<noteq> a + 1" "a + 3 \<noteq> a + 2"
  by simp_all

lemma load32_store32 [mem_simps]: "load32 (store32 a v m) a = v"
  using word_of_bytes [of v] by (simp add: load32_def store32_def add_small_neq)

lemma span4: "span p 4 a \<longleftrightarrow> a = p \<or> a = p + 1 \<or> a = p + 2 \<or> a = p + 3"
proof -
  have "a - p < 4 \<longleftrightarrow> a - p = 0 \<or> a - p = 1 \<or> a - p = 2 \<or> a - p = 3"
    by (simp add: word_less_nat_alt word_unat_eq_iff) arith
  then show ?thesis by (auto simp: span_def algebra_simps)
qed

lemma store32_outside [mem_simps]: "\<not> span p 4 a \<Longrightarrow> store32 p v m a = m a"
  by (simp add: store32_def span4)

lemma load32_cong:
  "(\<And>i. i < 4 \<Longrightarrow> m (a + i) = m' (a + i)) \<Longrightarrow> load32 m a = load32 m' a"
proof -
  assume *: "\<And>i. i < 4 \<Longrightarrow> m (a + i) = m' (a + i)"
  from * [of 0] * [of 1] * [of 2] * [of 3] show ?thesis by (simp add: load32_def)
qed

lemma load32_eq_span:
  "(\<And>x. span a 4 x \<Longrightarrow> m x = m' x) \<Longrightarrow> load32 m a = load32 m' a"
  by (rule load32_cong) simp

lemma load32_store32_apart [mem_simps]:
  "apart p 4 q 4 \<Longrightarrow> load32 (store32 p v m) q = load32 m q"
  by (rule load32_eq_span) (simp add: store32_outside apartD2)

lemma load32_byte_upd [mem_simps]:
  "\<not> span q 4 a \<Longrightarrow> load32 (m(a := v)) q = load32 m q"
  by (rule load32_eq_span) auto

section \<open>Bytes and C strings in memory\<close>

definition bytes :: "memory \<Rightarrow> u32 \<Rightarrow> nat \<Rightarrow> byte list" where
  "bytes m p n = map (\<lambda>i. m (p + of_nat i)) [0..<n]"

fun cstr :: "memory \<Rightarrow> u32 \<Rightarrow> byte list \<Rightarrow> bool" where
  "cstr m p [] \<longleftrightarrow> m p = 0"
| "cstr m p (c # cs) \<longleftrightarrow> m p = c \<and> c \<noteq> 0 \<and> cstr m (p + 1) cs"

lemma length_bytes [simp]: "length (bytes m p n) = n"
  by (simp add: bytes_def)

lemma bytes_0 [simp]: "bytes m p 0 = []"
  by (simp add: bytes_def)

lemma bytes_nth: "i < n \<Longrightarrow> bytes m p n ! i = m (p + of_nat i)"
  by (simp add: bytes_def)

lemma bytes_Suc: "bytes m p (Suc n) = m p # bytes m (p + 1) n"
  by (simp add: bytes_def upt_conv_Cons map_Suc_upt [symmetric] add.assoc
      del: upt_Suc cong: map_cong)

lemma bytes_add: "bytes m p (a + b) = bytes m p a @ bytes m (p + of_nat a) b"
proof (induction a arbitrary: p)
  case 0
  show ?case by simp
next
  case (Suc a)
  then show ?case by (simp add: bytes_Suc add.assoc)
qed

lemma bytes_cong:
  "(\<And>i. i < n \<Longrightarrow> m (p + of_nat i) = m' (q + of_nat i)) \<Longrightarrow> bytes m p n = bytes m' q n"
  by (simp add: bytes_def)

lemma cstr_iff:
  "cstr m p s \<longleftrightarrow> 0 \<notin> set s \<and> (\<forall>i < length s. m (p + of_nat i) = s ! i)
     \<and> m (p + of_nat (length s)) = 0"
proof (induction s arbitrary: p)
  case Nil
  show ?case by simp
next
  case (Cons c cs)
  show ?case
    by (auto simp: Cons.IH nth_Cons add.assoc less_Suc_eq_0_disj split: nat.splits)
qed

lemma cstr_bytes:
  "cstr m p s \<longleftrightarrow> 0 \<notin> set s \<and> bytes m p (length s) = s \<and> m (p + of_nat (length s)) = 0"
  by (simp add: cstr_iff list_eq_iff_nth_eq bytes_nth)

lemma cstr_of_bytes: "bytes m p (length (s @ [0])) = s @ [0] \<Longrightarrow> 0 \<notin> set s \<Longrightarrow> cstr m p s"
proof -
  assume b: "bytes m p (length (s @ [0])) = s @ [0]" "0 \<notin> set s"
  have "m (p + of_nat i) = (s @ [0]) ! i" if "i < length (s @ [0])" for i
    using bytes_nth [OF that, of m p] b(1) by simp
  then have "m (p + of_nat i) = s ! i" if "i < length s" for i using that by (simp add: nth_append)
  moreover have "m (p + of_nat (length s)) = 0"
    using \<open>\<And>i. i < length (s @ [0]) \<Longrightarrow> m (p + of_nat i) = (s @ [0]) ! i\<close> [of "length s"] by simp
  ultimately show ?thesis using b(2) by (simp add: cstr_iff)
qed

text \<open>A C string is shorter than the address space: its terminator is not one of its bytes.\<close>

lemma cstr_length:
  assumes "cstr m p s"
  shows "length s < 2 ^ 32"
proof (rule ccontr)
  assume "\<not> length s < 2 ^ 32"
  then have "length s mod 2 ^ 32 < length s"
    by (meson mod_less_divisor not_less order_less_le_trans zero_less_numeral zero_less_power)
  with assms have "m (p + of_nat (length s mod 2 ^ 32)) \<noteq> 0"
    by (metis cstr_iff nth_mem)
  moreover have "(of_nat (length s mod 2 ^ 32) :: u32) = of_nat (length s)"
    by (simp add: word_unat_eq_iff unat_of_nat take_bit_eq_mod)
  ultimately show False using assms by (simp add: cstr_iff)
qed

lemma cstr_unique: "cstr m p s \<Longrightarrow> cstr m p t \<Longrightarrow> s = t"
proof (induction s arbitrary: p t)
  case Nil
  then show ?case by (cases t) auto
next
  case (Cons c cs)
  then show ?case by (cases t) auto
qed

lemma cstr_append: "cstr m p (s @ t) \<Longrightarrow> cstr m (p + of_nat (length s)) t"
  by (induction s arbitrary: p) (auto simp: add.assoc [symmetric] simp del: add.assoc)

lemma cstr_cong:
  "(\<And>i. i \<le> length s \<Longrightarrow> m (p + of_nat i) = m' (p + of_nat i)) \<Longrightarrow> cstr m p s = cstr m' p s"
  by (auto simp: cstr_iff)

text \<open>Memory with a byte list laid down at an address.\<close>

definition write_bytes :: "u32 \<Rightarrow> byte list \<Rightarrow> memory \<Rightarrow> memory" where
  "write_bytes p bs m = (\<lambda>a. if unat (a - p) < length bs then bs ! unat (a - p) else m a)"

lemma write_bytes_Nil [simp]: "write_bytes p [] m = m"
  by (simp add: write_bytes_def)

lemma write_bytes_Cons:
  assumes "length bs < 2 ^ 32"
  shows "write_bytes (p + 1) bs (m(p := b)) = write_bytes p (b # bs) m"
proof
  fix a
  show "write_bytes (p + 1) bs (m(p := b)) a = write_bytes p (b # bs) m a"
  proof (cases "a = p")
    case True
    have "unat (p - (p + 1)) = 2 ^ 32 - 1" by (simp add: unsigned_minus_1_eq_mask mask_eq_exp_minus_1)
    with assms True show ?thesis by (auto simp: write_bytes_def)
  next
    case False
    then have "a - p \<noteq> 0" by simp
    then have "unat (a - p) = Suc (unat (a - p - 1))"
      by (simp add: unat_minus_one unat_gt_0)
    with False show ?thesis by (simp add: write_bytes_def diff_diff_add)
  qed
qed

lemma write_bytes_other:
  "length bs \<le> unat (a - p) \<Longrightarrow> write_bytes p bs m a = m a"
  by (simp add: write_bytes_def)

lemma write_bytes_at:
  assumes "i < length bs" and "length bs \<le> 2 ^ 32"
  shows "write_bytes p bs m (p + of_nat i) = bs ! i"
  using assms unat_of_nat32 [of i] by (simp add: write_bytes_def)

lemma write_bytes_append:
  assumes "length xs + length ys \<le> 2 ^ 32"
  shows "write_bytes (p + of_nat (length xs)) ys (write_bytes p xs m) = write_bytes p (xs @ ys) m"
  using assms
proof (induction xs arbitrary: p m)
  case Nil
  show ?case by simp
next
  case (Cons x xs)
  have len: "length xs < 2 ^ 32" "length (xs @ ys) < 2 ^ 32" using Cons.prems by auto
  have p: "p + of_nat (length (x # xs)) = p + 1 + of_nat (length xs)" by (simp add: add.assoc)
  have "write_bytes (p + of_nat (length (x # xs))) ys (write_bytes p (x # xs) m)
      = write_bytes (p + 1 + of_nat (length xs)) ys (write_bytes (p + 1) xs (m(p := x)))"
    by (simp only: p write_bytes_Cons [OF len(1)])
  also have "\<dots> = write_bytes (p + 1) (xs @ ys) (m(p := x))"
    using Cons.prems by (intro Cons.IH) simp
  also have "\<dots> = write_bytes p ((x # xs) @ ys) m"
    using write_bytes_Cons [OF len(2)] by simp
  finally show ?case .
qed

lemma bytes_write_bytes:
  "length bs \<le> 2 ^ 32 \<Longrightarrow> bytes (write_bytes p bs m) p (length bs) = bs"
  by (simp add: list_eq_iff_nth_eq bytes_nth write_bytes_at)

lemma write_bytes_same:
  assumes "bytes m p (length bs) = bs"
  shows "write_bytes p bs m = m"
proof
  fix a
  have "m a = bs ! unat (a - p)" if "unat (a - p) < length bs"
    using bytes_nth [OF that, of m p] assms by simp
  then show "write_bytes p bs m a = m a" by (simp add: write_bytes_def)
qed

lemma cstr_write_bytes:
  assumes "0 \<notin> set s" and "length s < 2 ^ 32"
  shows "cstr (write_bytes p (s @ [0]) m) p s"
  using assms by (auto simp: cstr_iff write_bytes_at nth_append)

end
