(* ===== verification/MemOps.thy ===== *)
theory MemOps
  imports Machine
begin

text \<open>
  The block operations of \<open>c_test/mem.c\<close>: \<open>memset\<close>, \<open>memcpy\<close>, \<open>memmove\<close> and \<open>memcmp\<close>,
  loop for loop. The lemmas give the memory after each call byte by byte, for every pair of
  ranges (overlapping ones included), and read \<open>memcmp\<close> as the lexicographic order.
\<close>

section \<open>The operations\<close>

definition memset :: "u32 \<Rightarrow> u32 \<Rightarrow> u32 \<Rightarrow> machine \<Rightarrow> u32 \<times> machine" where
  "memset ptr value len st =
     (ptr, st\<lparr>mem := for_up 0 len (\<lambda>i m. m(ptr + i := ucast value)) (mem st)\<rparr>)"

definition memcpy :: "u32 \<Rightarrow> u32 \<Rightarrow> u32 \<Rightarrow> machine \<Rightarrow> u32 \<times> machine" where
  "memcpy dest src n st =
     (dest, st\<lparr>mem := for_up 0 n (\<lambda>i m. m(dest + i := m (src + i))) (mem st)\<rparr>)"

definition memmove :: "u32 \<Rightarrow> u32 \<Rightarrow> u32 \<Rightarrow> machine \<Rightarrow> u32 \<times> machine" where
  "memmove dest src n st =
     (dest,
      if dest < src
      then st\<lparr>mem := for_up 0 n (\<lambda>i m. m(dest + i := m (src + i))) (mem st)\<rparr>
      else st\<lparr>mem := for_down n (\<lambda>i m. m(dest + (i - 1) := m (src + (i - 1)))) (mem st)\<rparr>)"

function memcmp_from :: "memory \<Rightarrow> u32 \<Rightarrow> u32 \<Rightarrow> u32 \<Rightarrow> u32 \<Rightarrow> u32" where
  "memcmp_from m c1 c2 n i =
     (if i < n then
        if m (c1 + i) < m (c2 + i) then - 1
        else if m (c1 + i) > m (c2 + i) then 1
        else memcmp_from m c1 c2 n (i + 1)
      else 0)"
  by pat_completeness auto
termination
  by (relation "measure (\<lambda>(m, c1, c2, n, i). unat n - unat i)")
    (auto simp: unat_add1_lt word_less_nat_alt)

declare memcmp_from.simps [simp del]

definition memcmp :: "u32 \<Rightarrow> u32 \<Rightarrow> u32 \<Rightarrow> machine \<Rightarrow> u32" where
  "memcmp s1 s2 n st = memcmp_from (mem st) s1 s2 n 0"

section \<open>What they do to memory\<close>

lemma fill_loop:
  "for_up 0 n (\<lambda>i m. m(p + i := v)) m0 = (\<lambda>a. if span p n a then v else m0 a)"
proof (rule for_up_inv [where P = "\<lambda>j m. m = (\<lambda>a. if span p j a then v else m0 a)"])
  fix j :: u32 and m assume "j < n" "m = (\<lambda>a. if span p j a then v else m0 a)"
  then show "m(p + j := v) = (\<lambda>a. if span p (j + 1) a then v else m0 a)"
    by (auto simp: fun_eq_iff span_add1)
qed auto

text \<open>
  The upward copy loop is right as long as no byte is overwritten before it is read: the
  destination does not start inside the source range.
\<close>

lemma copy_up_loop:
  assumes "d = s \<or> n \<le> d - s"
  shows "for_up 0 n (\<lambda>i m. m(d + i := m (s + i))) m0
    = (\<lambda>a. if span d n a then m0 (s + (a - d)) else m0 a)"
proof (rule for_up_inv [where P = "\<lambda>j m. m = (\<lambda>a. if span d j a then m0 (s + (a - d)) else m0 a)"])
  fix j :: u32 and m
  assume j: "j < n" and m: "m = (\<lambda>a. if span d j a then m0 (s + (a - d)) else m0 a)"
  have "m (s + j) = m0 (s + j)"
  proof (cases "d = s")
    case True
    then show ?thesis by (simp add: m)
  next
    case False
    then have "n \<le> d - s" using assms by simp
    then have "\<not> span d j (s + j)"
      using j unfolding span_def by unat_arith
    then show ?thesis by (simp add: m)
  qed
  then show "m(d + j := m (s + j)) = (\<lambda>a. if span d (j + 1) a then m0 (s + (a - d)) else m0 a)"
    using j by (auto simp: fun_eq_iff span_add1 m)
qed auto

text \<open>The downward loop is right as long as the source does not start inside the destination.\<close>

lemma copy_down_loop:
  assumes "d = s \<or> n \<le> s - d"
  shows "for_down n (\<lambda>i m. m(d + (i - 1) := m (s + (i - 1)))) m0
    = (\<lambda>a. if span d n a then m0 (s + (a - d)) else m0 a)"
proof -
  have "for_down n (\<lambda>i m. m(d + (i - 1) := m (s + (i - 1)))) m0
    = (\<lambda>a. if span d n a \<and> \<not> span d 0 a then m0 (s + (a - d)) else m0 a)"
  proof (rule for_down_inv [where P = "\<lambda>j m. m = (\<lambda>a. if span d n a \<and> \<not> span d j a
        then m0 (s + (a - d)) else m0 a)"])
    fix j :: u32 and m
    assume j: "j \<le> n" "0 < j"
      and m: "m = (\<lambda>a. if span d n a \<and> \<not> span d j a then m0 (s + (a - d)) else m0 a)"
    have "m (s + (j - 1)) = m0 (s + (j - 1))"
    proof (cases "d = s")
      case True
      then show ?thesis by (simp add: m)
    next
      case False
      then have "n \<le> s - d" using assms by simp
      have eq: "s + (j - 1) - d = (s - d) + (j - 1)" by simp
      have "span d n (s + (j - 1)) \<Longrightarrow> span d j (s + (j - 1))"
        unfolding span_def eq
        using add_wraps_below [OF \<open>n \<le> s - d\<close>] sub1_le [OF j(2)] order_less_le_trans by blast
      then show ?thesis unfolding m by auto
    qed
    moreover have "span d n a \<and> \<not> span d (j - 1) a
        \<longleftrightarrow> (span d n a \<and> \<not> span d j a) \<or> a = d + (j - 1)" for a
    proof -
      have "a - d < n \<and> \<not> a - d < j - 1 \<longleftrightarrow> (a - d < n \<and> \<not> a - d < j) \<or> a - d = j - 1"
        using j by unat_arith
      then show ?thesis by (auto simp: span_def algebra_simps)
    qed
    ultimately show "m(d + (j - 1) := m (s + (j - 1)))
        = (\<lambda>a. if span d n a \<and> \<not> span d (j - 1) a then m0 (s + (a - d)) else m0 a)"
      by (auto simp: fun_eq_iff m)
  qed auto
  then show ?thesis by simp
qed

lemma memset_mem [mem_simps]:
  "mem (snd (memset p v n st)) = (\<lambda>a. if span p n a then ucast v else mem st a)"
  by (simp add: memset_def fill_loop)

lemma memcpy_mem:
  "dest = src \<or> n \<le> dest - src \<Longrightarrow>
   mem (snd (memcpy dest src n st))
     = (\<lambda>a. if span dest n a then mem st (src + (a - dest)) else mem st a)"
  by (simp add: memcpy_def copy_up_loop)

lemma memcpy_frame [mem_simps]:
  "\<not> span dest n a \<Longrightarrow> mem (snd (memcpy dest src n st)) a = mem st a"
proof -
  assume a: "\<not> span dest n a"
  have "for_up 0 n (\<lambda>i m. m(dest + i := m (src + i))) (mem st) a = mem st a"
    by (rule for_up_inv [where P = "\<lambda>j m. m a = mem st a"]) (use a in auto)
  then show ?thesis by (simp add: memcpy_def)
qed

lemma memops_other_state [simp]:
  "heap_end (snd (memset p v n st)) = heap_end st" "mem_head (snd (memset p v n st)) = mem_head st"
  "uart_out (snd (memset p v n st)) = uart_out st" "uart_in (snd (memset p v n st)) = uart_in st"
  "heap_end (snd (memcpy p q n st)) = heap_end st" "mem_head (snd (memcpy p q n st)) = mem_head st"
  "uart_out (snd (memcpy p q n st)) = uart_out st" "uart_in (snd (memcpy p q n st)) = uart_in st"
  "fst (memset p v n st) = p" "fst (memcpy p q n st) = p"
  by (simp_all add: memset_def memcpy_def)

text \<open>The bytes of a filled or copied range.\<close>

lemma of_nat_less_of_nat32: "i < k \<Longrightarrow> k < 2 ^ 32 \<Longrightarrow> (of_nat i :: u32) < of_nat k"
  by (simp add: of_nat32_less_iff)

lemma apart_copy_ok: "apart d n s n \<Longrightarrow> d = s \<or> n \<le> d - s"
  by (auto simp: apart_def)

lemma bytes_memcpy:
  assumes "apart d (of_nat n) s (of_nat n)" and "n < 2 ^ 32"
  shows "bytes (mem (snd (memcpy d s (of_nat n) st))) d n = bytes (mem st) s n"
  using assms
  by (intro bytes_cong) (simp add: memcpy_mem [OF apart_copy_ok] of_nat_less_of_nat32)

lemma memcpy_at:
  assumes "apart d n s n" and "i < unat n"
  shows "mem (snd (memcpy d s n st)) (d + of_nat i) = mem st (s + of_nat i)"
  using assms of_nat_less_of_nat32 [of i "unat n"] unat_u32_bound [of n]
  by (simp add: memcpy_mem [OF apart_copy_ok])

text \<open>\<open>memcmp\<close> decides the lexicographic order of the two byte strings.\<close>

lemma memcmp_from_lex:
  assumes "i \<le> n"
  shows "memcmp_from m c1 c2 n i =
     (let xs = bytes m (c1 + i) (unat (n - i)); ys = bytes m (c2 + i) (unat (n - i))
      in if xs = ys then 0 else if ord_class.lexordp xs ys then - 1 else 1)"
  using assms
proof (induction m c1 c2 n i rule: memcmp_from.induct)
  case (1 m c1 c2 n i)
  show ?case
  proof (cases "i < n")
    case True
    have u: "unat (n - i) = Suc (unat (n - (i + 1)))"
      using True by unat_arith
    show ?thesis
      using "1.IH" True by (subst memcmp_from.simps) (auto simp: u bytes_Suc add1_le add.assoc Let_def)
  next
    case False
    with "1.prems" show ?thesis by (subst memcmp_from.simps) simp
  qed
qed

section \<open>Properties\<close>

text \<open>
  \<open>memset\<close> stores the low byte of its value to each of the \<open>n\<close> bytes from \<open>p\<close> on, changes
  no other byte of memory, and returns its pointer.
\<close>

theorem memset_spec:
  "memset p v n st = (p, st\<lparr>mem := (\<lambda>a. if span p n a then ucast v else mem st a)\<rparr>)"
  by (simp add: memset_def fill_loop)

text \<open>
  C38. \<open>memmove\<close> copies correctly between any two ranges that do not wrap around the address
  space, however they overlap: each destination byte gets the value its source byte had
  before the call, and no other byte changes.
\<close>

theorem memmove_spec:
  assumes "unat dest + unat n \<le> 2 ^ 32" and "unat src + unat n \<le> 2 ^ 32"
  shows "memmove dest src n st
    = (dest, st\<lparr>mem := (\<lambda>a. if span dest n a then mem st (src + (a - dest)) else mem st a)\<rparr>)"
proof (cases "dest < src")
  case True
  then have "n \<le> dest - src"
    using assms by (simp add: word_le_nat_alt word_less_nat_alt unat_sub_if')
  with True show ?thesis by (simp add: memmove_def copy_up_loop)
next
  case False
  then have "dest = src \<or> n \<le> src - dest"
    using assms by (auto simp: word_le_nat_alt word_less_nat_alt unat_sub_if' word_unat_eq_iff)
  with False show ?thesis by (simp add: memmove_def copy_down_loop)
qed

theorem memmove_spec_witness:
  "bytes (mem (snd (memmove 11 10 3 (boot (\<lambda>a. ucast a))))) 10 5 = [10, 10, 11, 12, 14]"
  by (subst memmove_spec) (simp_all add: bytes_def upt_rec span_def)

text \<open>
  \<open>memcpy\<close> copies its range exactly whenever the destination does not start inside the
  source (in particular for disjoint ranges), returns \<open>dest\<close> and changes nothing else.
\<close>

theorem memcpy_spec:
  assumes "dest = src \<or> n \<le> dest - src"
  shows "memcpy dest src n st
    = (dest, st\<lparr>mem := (\<lambda>a. if span dest n a then mem st (src + (a - dest)) else mem st a)\<rparr>)"
  using assms by (simp add: memcpy_def copy_up_loop)

theorem memcpy_spec_witness:
  "bytes (mem (snd (memcpy 20 10 3 (boot (\<lambda>a. ucast a))))) 19 5 = [19, 10, 11, 12, 23]"
  by (subst memcpy_spec) (simp_all add: bytes_def upt_rec span_def)

text \<open>
  \<open>memcmp\<close> compares the two ranges as byte strings in lexicographic order: 0 for equal
  ranges, \<open>-1\<close> where the first is smaller, 1 where it is greater.
\<close>

theorem memcmp_spec:
  "memcmp s1 s2 n st =
     (let xs = bytes (mem st) s1 (unat n); ys = bytes (mem st) s2 (unat n)
      in if xs = ys then 0 else if ord_class.lexordp xs ys then - 1 else 1)"
  by (simp add: memcmp_def memcmp_from_lex Let_def)

end
