(* ===== verification/AllocIface.thy ===== *)
theory AllocIface
  imports MemOps
begin

text \<open>
  The interface between the heap of \<open>mem.c\<close> and the code that uses it (\<open>string.c\<close>,
  \<open>standard.c\<close>, the test programs): an allocator with an invariant \<open>owns st L\<close> over the list
  \<open>L\<close> of the pointers handed out and their sizes, newest first. \<open>room L n\<close> says that \<open>n\<close> more
  bytes fit. The laws are what a client relies on; the client's lemmas below are proved once,
  from the laws alone.
\<close>

definition blocks_apart :: "(u32 \<times> u32) list \<Rightarrow> bool" where
  "blocks_apart = sorted_wrt (\<lambda>(p, n) (q, k). apart p n q k)"

definition in_block :: "u32 \<times> u32 \<Rightarrow> u32 \<Rightarrow> bool" where
  "in_block b x \<longleftrightarrow> span (fst b) (snd b) x"

definition keeps :: "(u32 \<times> u32) set \<Rightarrow> memory \<Rightarrow> memory \<Rightarrow> bool" where
  "keeps B m m' \<longleftrightarrow> (\<forall>b x. b \<in> B \<longrightarrow> in_block b x \<longrightarrow> m' x = m x)"

lemma keeps_refl [simp]: "keeps B m m"
  by (simp add: keeps_def)

lemma keepsD: "keeps B m m' \<Longrightarrow> (p, n) \<in> B \<Longrightarrow> span p n x \<Longrightarrow> m' x = m x"
  by (auto simp: keeps_def in_block_def)

lemma keeps_trans: "keeps B m m' \<Longrightarrow> keeps B m' m'' \<Longrightarrow> keeps B m m''"
  by (simp add: keeps_def)

lemma keeps_subset: "keeps B m m' \<Longrightarrow> A \<subseteq> B \<Longrightarrow> keeps A m m'"
  by (auto simp: keeps_def)

lemma keeps_bytes:
  assumes "keeps B m m'" and "(p, n) \<in> B" and "k \<le> unat n"
  shows "bytes m' p k = bytes m p k"
proof (rule bytes_cong)
  fix i assume "i < k"
  with assms(3) have "i < unat n" by simp
  then have "(of_nat i :: u32) < n"
    by (simp add: word_less_nat_alt unat_of_nat order_le_less_trans [OF take_bit_nat_less_eq_self])
  with assms show "m' (p + of_nat i) = m (p + of_nat i)" by (auto intro: keepsD)
qed

locale allocator =
  fixes alloc :: "u32 \<Rightarrow> machine \<Rightarrow> (u32 \<times> machine) option"
    and release :: "u32 \<Rightarrow> machine \<Rightarrow> machine"
    and owns :: "machine \<Rightarrow> (u32 \<times> u32) list \<Rightarrow> bool"
    and room :: "(u32 \<times> u32) list \<Rightarrow> u32 \<Rightarrow> bool"
  assumes alloc_ok: "owns st L \<Longrightarrow> room L n \<Longrightarrow>
      \<exists>p st'. alloc n st = Some (p, st') \<and> p \<noteq> 0 \<and> owns st' ((p, n) # L)
        \<and> keeps (set L) (mem st) (mem st')
        \<and> uart_out st' = uart_out st \<and> uart_in st' = uart_in st"
    and owns_apart: "owns st L \<Longrightarrow> blocks_apart L"
    and store_ok: "owns st L \<Longrightarrow> (p, n) \<in> set L \<Longrightarrow> span p n x \<Longrightarrow>
      owns (st\<lparr>mem := (mem st)(x := v)\<rparr>) L"
    and release_ok: "owns st L \<Longrightarrow> (p, n) \<in> set L \<Longrightarrow>
      owns (release p st) L \<and> keeps (set L) (mem st) (mem (release p st))"
begin

text \<open>A block just handed out shares no byte with an older one.\<close>

lemma fresh: "owns st ((p, n) # L) \<Longrightarrow> (q, k) \<in> set L \<Longrightarrow> apart p n q k"
  using owns_apart [of st "(p, n) # L"] by (auto simp: blocks_apart_def)

text \<open>A store into the newest block leaves the contents of the others.\<close>

lemma store_keeps:
  assumes "owns st ((p, n) # L)" and "span p n x"
  shows "keeps (set L) (mem st) ((mem st)(x := v))"
  unfolding keeps_def in_block_def
  using fresh [OF assms(1)] assms(2) by (auto dest: apartD2)

text \<open>Filling or copying inside one's own block keeps the heap, whatever the source is.\<close>

lemma loop_store_ok:
  assumes "owns st L" and "(p, n) \<in> set L" and "\<And>x. span q k x \<Longrightarrow> span p n x"
  shows "owns (st\<lparr>mem := for_up 0 k (\<lambda>i m. m(q + i := f i m)) (mem st)\<rparr>) L"
proof (rule for_up_inv [where P = "\<lambda>j m. owns (st\<lparr>mem := m\<rparr>) L"])
  show "owns (st\<lparr>mem := mem st\<rparr>) L" using assms(1) by simp
  fix j :: u32 and m assume "j < k" and own: "owns (st\<lparr>mem := m\<rparr>) L"
  then have "span p n (q + j)" using assms(3) by simp
  with store_ok [OF own assms(2)] show "owns (st\<lparr>mem := m(q + j := f j m)\<rparr>) L" by simp
qed simp

lemma fill_ok: "owns st L \<Longrightarrow> (p, n) \<in> set L \<Longrightarrow> k \<le> n \<Longrightarrow> owns (snd (memset p v k st)) L"
  using loop_store_ok [of st L p n p k] span_less [of p k _ n] by (simp add: memset_def)

lemma copy_at_ok: "owns st L \<Longrightarrow> (p, n) \<in> set L \<Longrightarrow> (\<And>x. span q k x \<Longrightarrow> span p n x) \<Longrightarrow>
   owns (snd (memcpy q s k st)) L"
  by (simp add: memcpy_def loop_store_ok)

lemma copy_ok: "owns st L \<Longrightarrow> (p, n) \<in> set L \<Longrightarrow> k \<le> n \<Longrightarrow> owns (snd (memcpy p s k st)) L"
  using copy_at_ok [of st L p n p k] span_less [of p k _ n] by blast

lemma copy_keeps:
  assumes "owns st ((p, n) # L)" and "k \<le> n"
  shows "keeps (set L) (mem st) (mem (snd (memcpy p s k st)))"
  unfolding keeps_def in_block_def
proof (intro allI impI)
  fix b x assume "b \<in> set L" "span (fst b) (snd b) x"
  then have "\<not> span p n x" using fresh [OF assms(1)] by (metis apartD2 prod.collapse)
  then show "mem (snd (memcpy p s k st)) x = mem st x"
    using assms(2) by (auto intro: memcpy_frame dest: span_less)
qed

text \<open>
  The client's usual pattern: take a block and copy bytes of an older object into it. The new
  block then holds the bytes, and every older object is as before.
\<close>

lemma alloc_and_copy:
  assumes own: "owns st L" and room: "room L n" and src: "(s, k) \<in> set L" and k: "j \<le> k" "j \<le> n"
  shows "\<exists>p st'. alloc n st = Some (p, st') \<and> p \<noteq> 0
    \<and> owns (snd (memcpy p s j st')) ((p, n) # L)
    \<and> bytes (mem (snd (memcpy p s j st'))) p (unat j) = bytes (mem st) s (unat j)
    \<and> keeps (set L) (mem st) (mem (snd (memcpy p s j st')))"
proof -
  obtain p st' where a: "alloc n st = Some (p, st')" "p \<noteq> 0" "owns st' ((p, n) # L)"
    "keeps (set L) (mem st) (mem st')"
    using alloc_ok [OF own room] by blast
  have "apart p n s k" using fresh [OF a(3) src] .
  then have "apart p j s j" using k
    by (metis apart_spans span_less)
  then have "bytes (mem (snd (memcpy p s (of_nat (unat j)) st'))) p (unat j) = bytes (mem st') s (unat j)"
    using unat_u32_bound [of j] by (intro bytes_memcpy) simp_all
  moreover have "bytes (mem st') s (unat j) = bytes (mem st) s (unat j)"
    using keeps_bytes [OF a(4) src] k by (simp add: word_le_nat_alt)
  moreover have "owns (snd (memcpy p s j st')) ((p, n) # L)" using a(3) k(2) by (intro copy_ok) auto
  moreover have "keeps (set L) (mem st) (mem (snd (memcpy p s j st')))"
    using keeps_trans [OF a(4) copy_keeps [OF a(3) k(2)]] .
  ultimately show ?thesis using a by auto
qed

end

text \<open>
  An allocator that lives in an arena: outside of it nothing is written. What a client may rely
  on to stay put are the bytes outside the arena and the bytes of the blocks it was given.
\<close>

definition client :: "(u32 \<Rightarrow> bool) \<Rightarrow> (u32 \<times> u32) list \<Rightarrow> u32 \<Rightarrow> bool" where
  "client arena L x \<longleftrightarrow> \<not> arena x \<or> (\<exists>b \<in> set L. in_block b x)"

lemma client_block: "(p, n) \<in> set L \<Longrightarrow> span p n x \<Longrightarrow> client arena L x"
  by (force simp: client_def in_block_def)

lemma client_mono: "client arena L x \<Longrightarrow> client arena (b # L) x"
  by (auto simp: client_def)

locale arena_allocator = allocator +
  fixes arena :: "u32 \<Rightarrow> bool"
  assumes owns_arena: "owns st L \<Longrightarrow> (p, n) \<in> set L \<Longrightarrow> span p n x \<Longrightarrow> arena x"
    and alloc_arena: "owns st L \<Longrightarrow> room L n \<Longrightarrow> alloc n st = Some (p, st') \<Longrightarrow> \<not> arena x \<Longrightarrow>
      mem st' x = mem st x"
    and release_arena: "owns st L \<Longrightarrow> (p, n) \<in> set L \<Longrightarrow> \<not> arena x \<Longrightarrow>
      mem (release p st) x = mem st x"
begin

lemma fresh_client: "owns st ((p, n) # L) \<Longrightarrow> client arena L x \<Longrightarrow> \<not> span p n x"
  using owns_arena [of st "(p, n) # L" p n x] fresh [of st p n L]
  by (fastforce simp: client_def in_block_def dest: apartD)

text \<open>A request leaves every byte of the client alone and returns a block that holds none of them.\<close>

lemma alloc_frame:
  assumes "owns st L" and "room L n"
  shows "\<exists>p st'. alloc n st = Some (p, st') \<and> p \<noteq> 0 \<and> owns st' ((p, n) # L)
    \<and> (\<forall>x. client arena L x \<longrightarrow> mem st' x = mem st x \<and> \<not> span p n x)
    \<and> uart_out st' = uart_out st \<and> uart_in st' = uart_in st"
proof -
  from alloc_ok [OF assms] obtain p st' where a: "alloc n st = Some (p, st')" "p \<noteq> 0"
    "owns st' ((p, n) # L)" "keeps (set L) (mem st) (mem st')"
    "uart_out st' = uart_out st" "uart_in st' = uart_in st" by blast
  have "mem st' x = mem st x" if "client arena L x" for x
    using that alloc_arena [OF assms a(1)] a(4) by (auto simp: client_def keeps_def)
  with a show ?thesis using fresh_client [OF a(3)] by blast
qed

lemma release_frame:
  "owns st L \<Longrightarrow> (p, n) \<in> set L \<Longrightarrow> client arena L x \<Longrightarrow> mem (release p st) x = mem st x"
  using release_ok [of st L p n] release_arena [of st L p n x]
  by (auto simp: client_def keeps_def)

text \<open>Writing a 32-bit field of one's own block keeps the heap.\<close>

lemma store32_ok:
  assumes "owns st L" and "(p, n) \<in> set L" and "\<And>x. span a 4 x \<Longrightarrow> span p n x"
  shows "owns (st\<lparr>mem := store32 a v (mem st)\<rparr>) L"
proof -
  note ok = store_ok [OF _ assms(2)]
  have "span p n a" "span p n (a + 1)" "span p n (a + 2)" "span p n (a + 3)"
    using assms(3) by (simp_all add: span4)
  then show ?thesis
    using ok [OF ok [OF ok [OF ok [OF assms(1)]]]] by (simp add: store32_def)
qed

end

end
