(* ===== verification/Alloc.thy ===== *)
theory Alloc
  imports AllocIface "HOL-Library.Monad_Syntax"
begin

text \<open>
  The heap of \<open>c_test/mem.c\<close>: \<open>sbrk\<close>, \<open>malloc\<close>, \<open>free\<close>, \<open>realloc\<close>, \<open>calloc\<close> and
  \<open>debug_heap\<close>, over the byte layout of \<open>mem_block\<close>: \<open>next\<close> at 0, \<open>prev\<close> at 4, \<open>size\<close> at 8,
  \<open>free\<close> at 12, the flexible array \<open>data\<close> at 13 (a \<open>char\<close> array needs no alignment), while
  \<open>sizeof(mem_block)\<close> is 16.
\<close>

section \<open>The block header\<close>

definition OFF_NEXT :: u32 where "OFF_NEXT = 0"
definition OFF_PREV :: u32 where "OFF_PREV = 4"
definition OFF_SIZE :: u32 where "OFF_SIZE = 8"
definition OFF_FREE :: u32 where "OFF_FREE = 12"
definition OFF_DATA :: u32 where "OFF_DATA = 13"
definition SIZEOF_BLOCK :: u32 where "SIZEOF_BLOCK = 16"

definition HEAP_START :: u32 where "HEAP_START = 0x80000000"
definition HEAP_END :: u32 where "HEAP_END = HEAP_START + (4 * 1024 * 1024)"

lemmas layout = OFF_NEXT_def OFF_PREV_def OFF_SIZE_def OFF_FREE_def OFF_DATA_def SIZEOF_BLOCK_def

definition blk_next :: "machine \<Rightarrow> u32 \<Rightarrow> u32" where
  "blk_next st b = load32 (mem st) (b + OFF_NEXT)"

definition blk_prev :: "machine \<Rightarrow> u32 \<Rightarrow> u32" where
  "blk_prev st b = load32 (mem st) (b + OFF_PREV)"

definition blk_size :: "machine \<Rightarrow> u32 \<Rightarrow> u32" where
  "blk_size st b = load32 (mem st) (b + OFF_SIZE)"

definition blk_free :: "machine \<Rightarrow> u32 \<Rightarrow> bool" where
  "blk_free st b \<longleftrightarrow> mem st (b + OFF_FREE) \<noteq> 0"

definition set_next :: "u32 \<Rightarrow> u32 \<Rightarrow> machine \<Rightarrow> machine" where
  "set_next b v st = st\<lparr>mem := store32 (b + OFF_NEXT) v (mem st)\<rparr>"

definition set_prev :: "u32 \<Rightarrow> u32 \<Rightarrow> machine \<Rightarrow> machine" where
  "set_prev b v st = st\<lparr>mem := store32 (b + OFF_PREV) v (mem st)\<rparr>"

definition set_size :: "u32 \<Rightarrow> u32 \<Rightarrow> machine \<Rightarrow> machine" where
  "set_size b v st = st\<lparr>mem := store32 (b + OFF_SIZE) v (mem st)\<rparr>"

definition set_free :: "u32 \<Rightarrow> bool \<Rightarrow> machine \<Rightarrow> machine" where
  "set_free b v st = st\<lparr>mem := (mem st)(b + OFF_FREE := (if v then 1 else 0))\<rparr>"

section \<open>The operations\<close>

text \<open>
  \<open>heap_end\<close> is 0 until the first call. The bound is compared as \<open>unsigned\<close>, since
  \<open>HEAP_END\<close> is an unsigned constant, and the sum wraps.
\<close>

definition sbrk :: "u32 \<Rightarrow> machine \<Rightarrow> u32 \<times> machine" where
  "sbrk increment st =
     (let st = (if heap_end st = 0 then st\<lparr>heap_end := HEAP_START\<rparr> else st)
      in if heap_end st + increment \<ge> HEAP_END then (- 1, st)
         else (heap_end st, st\<lparr>heap_end := heap_end st + increment\<rparr>))"

text \<open>The fields of a fresh block, in the order they are assigned.\<close>

definition init_block :: "u32 \<Rightarrow> u32 \<Rightarrow> machine \<Rightarrow> machine" where
  "init_block b sz st = set_free b False (set_size b sz (set_prev b 0 (set_next b 0 st)))"

text \<open>The search loop: the first free block that is large enough, 0 at the end of the list.\<close>

partial_function (option) find_block :: "machine \<Rightarrow> u32 \<Rightarrow> u32 \<Rightarrow> u32 option" where
  "find_block st block sz =
     (if block = 0 then Some 0
      else if blk_free st block \<and> blk_size st block \<ge> sz then Some block
      else find_block st (blk_next st block) sz)"

definition split_block :: "u32 \<Rightarrow> u32 \<Rightarrow> machine \<Rightarrow> machine" where
  "split_block block sz st =
     (let new_block = block + SIZEOF_BLOCK + sz;
          st = set_next new_block (blk_next st block) st;
          st = set_prev new_block block st;
          st = set_size new_block (blk_size st block - sz - SIZEOF_BLOCK) st;
          st = set_free new_block True st;
          st = set_next block new_block st
      in set_size block sz st)"

definition malloc :: "u32 \<Rightarrow> machine \<Rightarrow> (u32 \<times> machine) option" where
  "malloc sz st =
     (if mem_head st = 0 then
        (let (p, st) = sbrk (SIZEOF_BLOCK + sz) st;
             st = st\<lparr>mem_head := p\<rparr>
         in if p = - 1 then Some (0, st)
            else Some (p + OFF_DATA, init_block p sz st))
      else do {
        block \<leftarrow> find_block st (mem_head st) sz;
        if block = 0 then
          (let (p, st) = sbrk (SIZEOF_BLOCK + sz) st
           in if p = - 1 then Some (0, st)
              else Some (p + OFF_DATA, init_block p sz st))
        else
          (let st = (if blk_size st block > sz + SIZEOF_BLOCK
                     then split_block block sz st else st)
           in Some (block + OFF_DATA, set_free block False st))
      })"

definition free :: "u32 \<Rightarrow> machine \<Rightarrow> machine" where
  "free ptr st =
     (let block = ptr - SIZEOF_BLOCK
      in if block = 0 then st else set_free block True st)"

definition realloc :: "u32 \<Rightarrow> u32 \<Rightarrow> machine \<Rightarrow> (u32 \<times> machine) option" where
  "realloc ptr sz st =
     (let block = ptr - SIZEOF_BLOCK
      in if block = 0 then malloc sz st
         else if blk_size st block \<ge> sz then Some (ptr, st)
         else do {
           (new_ptr, st) \<leftarrow> malloc sz st;
           let (_, st) = memcpy new_ptr ptr (blk_size st block) st;
           Some (new_ptr, free ptr st)
         })"

definition calloc :: "u32 \<Rightarrow> u32 \<Rightarrow> machine \<Rightarrow> (u32 \<times> machine) option" where
  "calloc nmemb sz st = do {
     (ptr, st) \<leftarrow> malloc (nmemb * sz) st;
     if ptr = 0 then Some (0, st)
     else do {
       let (_, st) = memset ptr 0 (nmemb * sz) st;
       Some (ptr, st)
     }
   }"

text \<open>
  \<open>debug_heap\<close>: \<open>debug\<close> expands to nothing, so what is left is the accounting loop over the
  list (five \<open>int\<close> counters) and four more traversals that change nothing.
\<close>

record heap_totals =
  ht_total :: u32
  ht_free :: u32
  ht_used :: u32
  ht_free_blocks :: u32
  ht_used_blocks :: u32

partial_function (option) heap_loop :: "machine \<Rightarrow> u32 \<Rightarrow> heap_totals \<Rightarrow> heap_totals option" where
  "heap_loop st block t =
     (if block = 0 then Some t
      else
        let t = (if blk_free st block
                 then t\<lparr>ht_free := ht_free t + blk_size st block, ht_free_blocks := ht_free_blocks t + 1\<rparr>
                 else t\<lparr>ht_used := ht_used t + blk_size st block, ht_used_blocks := ht_used_blocks t + 1\<rparr>)
        in heap_loop st (blk_next st block) (t\<lparr>ht_total := ht_total t + blk_size st block\<rparr>))"

partial_function (option) walk_loop :: "machine \<Rightarrow> u32 \<Rightarrow> unit option" where
  "walk_loop st block = (if block = 0 then Some () else walk_loop st (blk_next st block))"

definition debug_heap :: "machine \<Rightarrow> heap_totals option" where
  "debug_heap st = do {
     t \<leftarrow> heap_loop st (mem_head st) \<lparr>ht_total = 0, ht_free = 0, ht_used = 0,
       ht_free_blocks = 0, ht_used_blocks = 0\<rparr>;
     walk_loop st (mem_head st);
     walk_loop st (mem_head st);
     walk_loop st (mem_head st);
     walk_loop st (mem_head st);
     Some t
   }"

section \<open>Headers in memory\<close>

lemma blk_simps [simp]:
  "blk_next (set_next b v st) b = v" "blk_next (set_prev b v st) b = blk_next st b"
  "blk_next (set_size b v st) b = blk_next st b" "blk_next (set_free b f st) b = blk_next st b"
  "blk_prev (set_next b v st) b = blk_prev st b" "blk_prev (set_prev b v st) b = v"
  "blk_prev (set_size b v st) b = blk_prev st b" "blk_prev (set_free b f st) b = blk_prev st b"
  "blk_size (set_next b v st) b = blk_size st b" "blk_size (set_prev b v st) b = blk_size st b"
  "blk_size (set_size b v st) b = v" "blk_size (set_free b f st) b = blk_size st b"
  "blk_free (set_next b v st) b = blk_free st b" "blk_free (set_prev b v st) b = blk_free st b"
  "blk_free (set_size b v st) b = blk_free st b" "blk_free (set_free b f st) b = f"
  by (simp_all add: blk_next_def blk_prev_def blk_size_def blk_free_def set_next_def set_prev_def
      set_size_def set_free_def layout mem_simps apart_def span4)

text \<open>Headers that share no byte do not influence each other.\<close>

lemma set_frame:
  assumes "\<not> span c 16 a"
  shows "mem (set_next c v st) a = mem st a" "mem (set_prev c v st) a = mem st a"
    "mem (set_size c v st) a = mem st a" "mem (set_free c f st) a = mem st a"
proof -
  have out: "\<not> span (c + i) k a" if "unat i + unat k \<le> 16" for i k
    using span_sub [of c i k a 16] assms that by auto
  show "mem (set_next c v st) a = mem st a" "mem (set_prev c v st) a = mem st a"
    "mem (set_size c v st) a = mem st a"
    using out [of 0 4] out [of 4 4] out [of 8 4]
    by (simp_all add: set_next_def set_prev_def set_size_def layout store32_outside)
  show "mem (set_free c f st) a = mem st a"
    using out [of 12 1] by (auto simp: set_free_def layout)
qed

lemma blk_cong:
  assumes "\<And>a. span b 16 a \<Longrightarrow> mem st' a = mem st a"
  shows "blk_next st' b = blk_next st b" "blk_prev st' b = blk_prev st b"
    "blk_size st' b = blk_size st b" "blk_free st' b = blk_free st b"
proof -
  have in16: "span b 16 a" if "span (b + i) k a" "unat i + unat k \<le> 16" for i k a
    using span_sub [of b i k a 16] that by simp
  show "blk_next st' b = blk_next st b" "blk_prev st' b = blk_prev st b"
    "blk_size st' b = blk_size st b"
    using assms in16 [of 0 4] in16 [of 4 4] in16 [of 8 4]
    by (auto simp: blk_next_def blk_prev_def blk_size_def layout intro!: load32_eq_span)
  show "blk_free st' b = blk_free st b" using assms [of "b + 12"] by (simp add: blk_free_def layout)
qed

lemma blk_other:
  assumes "apart c 16 b 16"
  shows "blk_next (set_next c v st) b = blk_next st b" "blk_prev (set_next c v st) b = blk_prev st b"
    "blk_size (set_next c v st) b = blk_size st b" "blk_free (set_next c v st) b = blk_free st b"
    "blk_next (set_prev c v st) b = blk_next st b" "blk_prev (set_prev c v st) b = blk_prev st b"
    "blk_size (set_prev c v st) b = blk_size st b" "blk_free (set_prev c v st) b = blk_free st b"
    "blk_next (set_size c v st) b = blk_next st b" "blk_prev (set_size c v st) b = blk_prev st b"
    "blk_size (set_size c v st) b = blk_size st b" "blk_free (set_size c v st) b = blk_free st b"
    "blk_next (set_free c f st) b = blk_next st b" "blk_prev (set_free c f st) b = blk_prev st b"
    "blk_size (set_free c f st) b = blk_size st b" "blk_free (set_free c f st) b = blk_free st b"
proof -
  have out: "span b 16 a \<Longrightarrow> \<not> span c 16 a" for a using assms by (rule apartD2)
  note frame = set_frame [OF out]
  show "blk_next (set_next c v st) b = blk_next st b" "blk_prev (set_next c v st) b = blk_prev st b"
    "blk_size (set_next c v st) b = blk_size st b" "blk_free (set_next c v st) b = blk_free st b"
    by (rule blk_cong, erule frame(1))+
  show "blk_next (set_prev c v st) b = blk_next st b" "blk_prev (set_prev c v st) b = blk_prev st b"
    "blk_size (set_prev c v st) b = blk_size st b" "blk_free (set_prev c v st) b = blk_free st b"
    by (rule blk_cong, erule frame(2))+
  show "blk_next (set_size c v st) b = blk_next st b" "blk_prev (set_size c v st) b = blk_prev st b"
    "blk_size (set_size c v st) b = blk_size st b" "blk_free (set_size c v st) b = blk_free st b"
    by (rule blk_cong, erule frame(3))+
  show "blk_next (set_free c f st) b = blk_next st b" "blk_prev (set_free c f st) b = blk_prev st b"
    "blk_size (set_free c f st) b = blk_size st b" "blk_free (set_free c f st) b = blk_free st b"
    by (rule blk_cong, erule frame(4))+
qed

text \<open>A fresh header: thirteen bytes, everything else is left alone.\<close>

definition header_bytes :: "u32 \<Rightarrow> byte list" where
  "header_bytes n = [0, 0, 0, 0, 0, 0, 0, 0, ucast n, ucast (drop_bit 8 n), ucast (drop_bit 16 n),
     ucast (drop_bit 24 n), 0]"

lemma length_header_bytes [simp]: "length (header_bytes n) = 13"
  by (simp add: header_bytes_def)

lemma init_block_eq: "init_block b n st = st\<lparr>mem := write_bytes b (header_bytes n) (mem st)\<rparr>"
  by (simp add: init_block_def set_next_def set_prev_def set_size_def set_free_def layout
      header_bytes_def store32_def write_bytes_Cons [symmetric] add.assoc)

text \<open>The heap does no input or output.\<close>

lemma blk_io [simp]:
  "uart_in (set_next b v st) = uart_in st" "uart_in (set_prev b v st) = uart_in st"
  "uart_in (set_size b v st) = uart_in st" "uart_in (set_free b f st) = uart_in st"
  "uart_out (set_next b v st) = uart_out st" "uart_out (set_prev b v st) = uart_out st"
  "uart_out (set_size b v st) = uart_out st" "uart_out (set_free b f st) = uart_out st"
  by (simp_all add: set_next_def set_prev_def set_size_def set_free_def)

lemma free_io: "uart_in (free p st) = uart_in st" "uart_out (free p st) = uart_out st"
  by (simp_all add: free_def Let_def)

lemma malloc_io:
  "malloc n st = Some (p, st') \<Longrightarrow> uart_in st' = uart_in st \<and> uart_out st' = uart_out st"
  by (auto simp: malloc_def sbrk_def init_block_def split_block_def Let_def bind_eq_Some_conv
      split: if_splits)

section \<open>The heap as a sequence of blocks\<close>

text \<open>
  Abstract view: the heap is a list of blocks \<open>(offset, size)\<close> that follow one another from
  offset 0 without gaps; \<open>e\<close> is the offset of its end. \<open>adr\<close> turns offsets into addresses.
\<close>

definition HEAP_SIZE :: nat where "HEAP_SIZE = 4194304"

definition adr :: "nat \<Rightarrow> u32" where "adr k = HEAP_START + of_nat k"

fun chain :: "nat \<Rightarrow> (nat \<times> nat) list \<Rightarrow> nat \<Rightarrow> bool" where
  "chain k [] e \<longleftrightarrow> k = e"
| "chain k ((a, n) # bs) e \<longleftrightarrow> a = k \<and> chain (k + 16 + n) bs e"

definition header_ok :: "memory \<Rightarrow> nat \<times> nat \<Rightarrow> bool" where
  "header_ok m b \<longleftrightarrow> (\<forall>i < 8. m (adr (fst b + i)) = 0)
     \<and> m (adr (fst b + 8)) = of_nat (snd b) \<and> m (adr (fst b + 12)) = 0"

definition heap_inv :: "machine \<Rightarrow> (nat \<times> nat) list \<Rightarrow> nat \<Rightarrow> bool" where
  "heap_inv st bs e \<longleftrightarrow> chain 0 bs e \<and> e < HEAP_SIZE
     \<and> (if bs = [] then mem_head st = 0 \<and> (heap_end st = 0 \<or> heap_end st = HEAP_START)
        else mem_head st = HEAP_START \<and> heap_end st = adr e)
     \<and> (\<forall>b \<in> set bs. header_ok (mem st) b)"

lemma adr_eq_iff: "i < 2 ^ 31 \<Longrightarrow> j < 2 ^ 31 \<Longrightarrow> adr i = adr j \<longleftrightarrow> i = j"
  by (simp add: adr_def of_nat32_inject)

lemma adr_add: "adr i + of_nat k = adr (i + k)"
  by (simp add: adr_def add.assoc)

lemma adr_plus: "adr i + numeral k = adr (i + numeral k)" "adr i + 1 = adr (i + 1)"
  by (simp_all add: adr_def)

lemma adr_0 [simp]: "adr 0 = HEAP_START" "adr 0 \<noteq> 0"
  by (simp_all add: adr_def HEAP_START_def)

lemma unat_adr: "k < 2 ^ 31 \<Longrightarrow> unat (adr k) = 2 ^ 31 + k"
  by (simp add: adr_def HEAP_START_def unat_plus_if' unat_of_nat32)

lemma adr_nonzero: "k < 2 ^ 31 \<Longrightarrow> adr k \<noteq> 0"
  using unat_adr [of k] by auto

lemma unat_adr_diff: "i \<le> k \<Longrightarrow> k < 2 ^ 31 \<Longrightarrow> unat (adr k - adr i) = k - i"
proof -
  assume k: "i \<le> k" "k < 2 ^ 31"
  then have "adr k - adr i = of_nat (k - i)" by (simp add: adr_def of_nat_diff)
  with k show ?thesis by (simp add: unat_of_nat32 del: of_nat_diff)
qed

lemma unat_adr_diff_neg: "k < i \<Longrightarrow> i < 2 ^ 31 \<Longrightarrow> 2 ^ 31 \<le> unat (adr k - adr i)"
  by (simp add: unat_sub_if' unat_adr)

lemma write_bytes_adr:
  assumes "a < 2 ^ 31" "k < 2 ^ 31" "length bs \<le> 2 ^ 31"
  shows "write_bytes (adr a) bs m (adr k)
    = (if a \<le> k \<and> k < a + length bs then bs ! (k - a) else m (adr k))"
proof (cases "a \<le> k")
  case True
  with assms show ?thesis by (auto simp: write_bytes_def unat_adr_diff)
next
  case False
  with assms unat_adr_diff_neg [of k a] show ?thesis by (auto simp: write_bytes_def)
qed

lemma chain_snoc: "chain k bs e \<Longrightarrow> chain k (bs @ [(e, n)]) (e + 16 + n)"
  by (induction k bs e rule: chain.induct) auto

lemma chain_le: "chain k bs e \<Longrightarrow> k \<le> e"
  by (induction k bs e rule: chain.induct) auto

lemma chain_bounds: "chain k bs e \<Longrightarrow> (a, n) \<in> set bs \<Longrightarrow> k \<le> a \<and> a + 16 + n \<le> e"
  by (induction k bs e rule: chain.induct) (auto dest: chain_le)

text \<open>Two blocks of the heap are the same block or do not overlap.\<close>

lemma chain_disjoint:
  "chain k bs e \<Longrightarrow> (a, n) \<in> set bs \<Longrightarrow> (a', n') \<in> set bs \<Longrightarrow>
   (a = a' \<and> n = n') \<or> a + 16 + n \<le> a' \<or> a' + 16 + n' \<le> a"
  by (induction k bs e rule: chain.induct) (auto dest: chain_bounds)

lemma header_ok_cong:
  assumes "header_ok m (a, n)" and "\<And>i. i \<le> 8 \<or> i = 12 \<Longrightarrow> m' (adr (a + i)) = m (adr (a + i))"
  shows "header_ok m' (a, n)"
  using assms by (auto simp: header_ok_def)

lemma header_ok_fresh:
  assumes "a < HEAP_SIZE"
  shows "header_ok (write_bytes (adr a) (header_bytes n) m) (a, unat n)"
proof -
  have "write_bytes (adr a) (header_bytes n) m (adr (a + i)) = header_bytes n ! i" if "i < 13" for i
    using that assms by (subst write_bytes_adr) (auto simp: HEAP_SIZE_def)
  moreover have "(of_nat (unat n) :: byte) = ucast n" by simp
  ultimately show ?thesis by (auto simp: header_ok_def header_bytes_def nth_Cons')
qed

lemma header_ok_next: "header_ok (mem st) (a, n) \<Longrightarrow> blk_next st (adr a) = 0"
proof -
  assume "header_ok (mem st) (a, n)"
  then have "mem st (adr (a + i)) = 0" if "i < 8" for i using that by (simp add: header_ok_def)
  from this [of 0] this [of 1] this [of 2] this [of 3] show ?thesis
    by (simp add: blk_next_def layout load32_def adr_plus)
qed

lemma header_ok_not_free: "header_ok (mem st) (a, n) \<Longrightarrow> \<not> blk_free st (adr a)"
  by (simp add: header_ok_def blk_free_def layout adr_plus)

section \<open>malloc on such a heap\<close>

text \<open>Only the head block is on the list and it is never marked free: the search finds nothing.\<close>

lemma find_block_none:
  assumes "heap_inv st bs e" and "bs \<noteq> []"
  shows "find_block st (mem_head st) n = Some 0"
proof -
  from assms obtain a k bs' where bs: "bs = (a, k) # bs'" by (cases bs) auto
  with assms have a: "a = 0" and hd: "header_ok (mem st) (0, k)" and mh: "mem_head st = adr 0"
    by (auto simp: heap_inv_def)
  show ?thesis
    unfolding mh using header_ok_not_free [OF hd] header_ok_next [OF hd]
    by (simp add: find_block.simps [of st "adr 0"] find_block.simps [of st 0] del: adr_0(1))
qed

lemma heap_end_of:
  "heap_inv st bs e \<Longrightarrow> (if heap_end st = 0 then st\<lparr>heap_end := HEAP_START\<rparr> else st)
     = st\<lparr>heap_end := adr e\<rparr>"
  by (cases bs) (auto simp: heap_inv_def HEAP_SIZE_def adr_nonzero)

lemma sbrk_room:
  assumes "heap_inv st bs e" and "e + k < HEAP_SIZE"
  shows "sbrk (of_nat k) st = (adr e, st\<lparr>heap_end := adr (e + k)\<rparr>)"
proof -
  have "unat (adr (e + k)) < unat HEAP_END"
    using assms(2) by (simp add: unat_adr HEAP_SIZE_def HEAP_END_def HEAP_START_def)
  then have "\<not> HEAP_END \<le> adr e + of_nat k" by (simp add: adr_add word_le_nat_alt)
  then show ?thesis unfolding sbrk_def heap_end_of [OF assms(1)] by (simp add: adr_add)
qed

lemma sbrk_full:
  assumes "heap_inv st bs e" and "HEAP_SIZE \<le> e + k" and "e + k < 2 ^ 31"
  shows "sbrk (of_nat k) st = (- 1, st\<lparr>heap_end := adr e\<rparr>)"
proof -
  have "unat HEAP_END \<le> unat (adr (e + k))"
    using assms(2,3) by (simp add: unat_adr HEAP_SIZE_def HEAP_END_def HEAP_START_def)
  then have "HEAP_END \<le> adr e + of_nat k" by (simp add: adr_add word_le_nat_alt)
  then show ?thesis unfolding sbrk_def heap_end_of [OF assms(1)] by simp
qed

text \<open>The state after a block of \<open>n\<close> bytes was appended at offset \<open>e\<close>.\<close>

definition bumped :: "nat \<Rightarrow> u32 \<Rightarrow> machine \<Rightarrow> machine" where
  "bumped e n st = st\<lparr>heap_end := adr (e + 16 + unat n), mem_head := HEAP_START,
     mem := write_bytes (adr e) (header_bytes n) (mem st)\<rparr>"

lemma block_bytes: "SIZEOF_BLOCK + n = of_nat (16 + unat n)"
  by (simp add: layout)

lemma adr_not_minus1: "k < HEAP_SIZE \<Longrightarrow> adr k \<noteq> - 1"
proof -
  assume "k < HEAP_SIZE"
  then have "unat (adr k) < 2 ^ 32 - 1" by (simp add: unat_adr HEAP_SIZE_def)
  then show ?thesis by (auto simp: unsigned_minus_1_eq_mask mask_eq_exp_minus_1)
qed

lemma malloc_room:
  assumes inv: "heap_inv st bs e" and room: "e + 16 + unat n < HEAP_SIZE"
  shows "malloc n st = Some (adr (e + 13), bumped e n st)"
proof -
  have s: "sbrk (SIZEOF_BLOCK + n) st = (adr e, st\<lparr>heap_end := adr (e + 16 + unat n)\<rparr>)"
    using sbrk_room [OF inv, of "16 + unat n"] room by (simp only: block_bytes) (simp add: add.assoc)
  have e: "adr e \<noteq> - 1" using room by (intro adr_not_minus1) simp
  have d: "adr e + OFF_DATA = adr (e + 13)" by (simp add: layout adr_plus)
  show ?thesis
  proof (cases "bs = []")
    case True
    with inv have "mem_head st = 0" "e = 0" by (auto simp: heap_inv_def)
    then show ?thesis using s e d
      by (simp add: malloc_def init_block_eq bumped_def)
  next
    case False
    with inv have mh: "mem_head st = HEAP_START" by (simp add: heap_inv_def)
    then have "mem_head st \<noteq> 0" by (simp add: HEAP_START_def)
    then show ?thesis
      using s e d mh find_block_none [OF inv False]
      by (simp add: malloc_def init_block_eq bumped_def)
  qed
qed

lemma malloc_full:
  assumes inv: "heap_inv st bs e" and full: "HEAP_SIZE \<le> e + 16 + unat n" "e + 16 + unat n < 2 ^ 31"
  shows "malloc n st = Some (0, st\<lparr>heap_end := adr e,
    mem_head := (if bs = [] then - 1 else mem_head st)\<rparr>)"
proof -
  have s: "sbrk (SIZEOF_BLOCK + n) st = (- 1, st\<lparr>heap_end := adr e\<rparr>)"
    using sbrk_full [OF inv, of "16 + unat n"] full by (simp only: block_bytes)
  show ?thesis
  proof (cases "bs = []")
    case True
    with inv have "mem_head st = 0" by (auto simp: heap_inv_def)
    then show ?thesis using s True by (simp add: malloc_def)
  next
    case False
    with inv have "mem_head st \<noteq> 0" by (simp add: heap_inv_def HEAP_START_def)
    then show ?thesis using s False find_block_none [OF inv False] by (simp add: malloc_def)
  qed
qed

lemma heap_inv_bumped:
  assumes inv: "heap_inv st bs e" and room: "e + 16 + unat n < HEAP_SIZE"
  shows "heap_inv (bumped e n st) (bs @ [(e, unat n)]) (e + 16 + unat n)"
proof -
  have ch: "chain 0 bs e" using inv by (simp add: heap_inv_def)
  have "header_ok (write_bytes (adr e) (header_bytes n) (mem st)) (a, k)" if "(a, k) \<in> set bs" for a k
  proof (rule header_ok_cong)
    show "header_ok (mem st) (a, k)" using inv that by (auto simp: heap_inv_def)
    fix i :: nat assume "i \<le> 8 \<or> i = 12"
    with chain_bounds [OF ch that] room
    show "write_bytes (adr e) (header_bytes n) (mem st) (adr (a + i)) = mem st (adr (a + i))"
      by (subst write_bytes_adr) (auto simp: HEAP_SIZE_def)
  qed
  then show ?thesis
    using ch room header_ok_fresh [of e n "mem st"]
    by (auto simp: heap_inv_def bumped_def chain_snoc)
qed

text \<open>The new block's header is the only memory it touches.\<close>

lemma bumped_frame:
  "k < 2 ^ 31 \<Longrightarrow> e < HEAP_SIZE \<Longrightarrow> k < e \<or> e + 13 \<le> k \<Longrightarrow>
   mem (bumped e n st) (adr k) = mem st (adr k)"
  by (subst bumped_def) (auto simp: write_bytes_adr HEAP_SIZE_def)

section \<open>free and stores on such a heap\<close>

text \<open>A store to any byte that no header needs keeps the heap.\<close>

lemma heap_inv_store:
  assumes inv: "heap_inv st bs e"
    and out: "\<And>a n i. (a, n) \<in> set bs \<Longrightarrow> i \<le> 8 \<or> i = 12 \<Longrightarrow> x \<noteq> adr (a + i)"
  shows "heap_inv (st\<lparr>mem := (mem st)(x := v)\<rparr>) bs e"
proof -
  have "header_ok ((mem st)(x := v)) (a, n)" if "(a, n) \<in> set bs" for a n
  proof (rule header_ok_cong)
    show "header_ok (mem st) (a, n)" using inv that by (auto simp: heap_inv_def)
    show "((mem st)(x := v)) (adr (a + i)) = mem st (adr (a + i))" if "i \<le> 8 \<or> i = 12" for i
      using out [OF \<open>(a, n) \<in> set bs\<close> that] by (metis fun_upd_other)
  qed
  with inv show ?thesis by (auto simp: heap_inv_def)
qed

text \<open>
  \<open>free\<close> takes \<open>sizeof(mem_block)\<close> off the data pointer, three bytes more than \<open>malloc\<close> added:
  its flag lands on the second byte of the block's size.
\<close>

lemma free_block:
  "free (adr (a + 13)) st = (if adr (a + 13) = SIZEOF_BLOCK then st
     else st\<lparr>mem := (mem st)(adr (a + 9) := 1)\<rparr>)"
proof -
  have "adr (a + 13) = adr (a + 9) + 4" using adr_add [of "a + 9" 4] by (simp add: add.commute)
  then have "adr (a + 13) - SIZEOF_BLOCK + OFF_FREE = adr (a + 9)" by (simp add: layout)
  then show ?thesis by (simp add: free_def set_free_def)
qed

section \<open>The heap provides the allocator interface\<close>

definition payload :: "nat \<times> nat \<Rightarrow> u32 \<times> u32" where
  "payload b = (adr (fst b + 13), of_nat (snd b))"

definition heap_owns :: "machine \<Rightarrow> (u32 \<times> u32) list \<Rightarrow> bool" where
  "heap_owns st L \<longleftrightarrow> (\<exists>bs e. heap_inv st bs e \<and> L = map payload (rev bs))"

definition heap_used :: "(u32 \<times> u32) list \<Rightarrow> nat" where
  "heap_used L = sum_list (map (\<lambda>b. 16 + unat (snd b)) L)"

definition heap_room :: "(u32 \<times> u32) list \<Rightarrow> u32 \<Rightarrow> bool" where
  "heap_room L n \<longleftrightarrow> heap_used L + 16 + unat n < HEAP_SIZE"

lemma heap_used_simps [simp]:
  "heap_used [] = 0" "heap_used (b # L) = 16 + unat (snd b) + heap_used L"
  "heap_used (L @ L') = heap_used L + heap_used L'"
  by (simp_all add: heap_used_def)

lemma payload_simps [simp]:
  "fst (payload (a, n)) = adr (a + 13)" "snd (payload (a, n)) = of_nat n"
  by (simp_all add: payload_def)

lemma chain_used:
  "chain k bs e \<Longrightarrow> e < 2 ^ 31 \<Longrightarrow> k + heap_used (map payload (rev bs)) = e"
proof (induction k bs e rule: chain.induct)
  case (2 k a n bs e)
  then have ch: "chain (k + 16 + n) bs e" by simp
  with "2.prems" chain_le [OF ch] have n: "n < 2 ^ 32" by simp
  have "k + 16 + n + heap_used (map payload (rev bs)) = e" by (rule "2.IH" [OF ch "2.prems"(2)])
  then show ?case using n "2.prems"(1) by (simp add: unat_of_nat32)
qed simp

lemma payload_span:
  assumes "span (adr k) (of_nat n) x" and "k + n < 2 ^ 31"
  obtains i where "i < n" "x = adr (k + i)"
proof -
  from assms(1) obtain j where j: "x = adr k + j" "j < of_nat n" by (metis spanE)
  then have "unat j < n" using assms(2) by (simp add: word_less_nat_alt unat_of_nat32)
  moreover have "x = adr (k + unat j)" using j adr_add [of k "unat j"] by simp
  ultimately show ?thesis using that by blast
qed

text \<open>Bytes of a payload are bytes of no header.\<close>

lemma payload_not_header:
  assumes "chain k bs e" and "e < HEAP_SIZE" and "(a, n) \<in> set bs" and "(a', n') \<in> set bs"
    and "span (adr (a + 13)) (of_nat n) x" and "i < 13"
  shows "x \<noteq> adr (a' + i)"
proof -
  have b: "a + 16 + n \<le> e" "a' + 16 + n' \<le> e"
    using chain_bounds [OF assms(1,3)] chain_bounds [OF assms(1,4)] by auto
  then obtain j where j: "j < n" "x = adr (a + 13 + j)"
    using payload_span [OF assms(5)] assms(2) by (auto simp: HEAP_SIZE_def)
  have "a + 13 + j \<noteq> a' + i" using chain_disjoint [OF assms(1,3,4)] j assms(6) by auto
  then show ?thesis using j b assms(2,6) by (simp add: adr_eq_iff HEAP_SIZE_def)
qed

lemma heap_owns_apart: "heap_owns st L \<Longrightarrow> blocks_apart L"
proof -
  assume "heap_owns st L"
  then obtain bs e where inv: "heap_inv st bs e" and L: "L = map payload (rev bs)"
    by (auto simp: heap_owns_def)
  have "chain k bs e \<Longrightarrow> e < HEAP_SIZE \<Longrightarrow>
      sorted_wrt (\<lambda>b c. apart (fst (payload c)) (snd (payload c)) (fst (payload b)) (snd (payload b))) bs" for k
  proof (induction k bs e rule: chain.induct)
    case (2 k a n bs e)
    then have ch: "chain (k + 16 + n) bs e" by simp
    have "apart (adr (a' + 13)) (of_nat n') (adr (k + 13)) (of_nat n)" if "(a', n') \<in> set bs" for a' n'
      unfolding apart_spans
    proof (intro allI notI, elim conjE)
      fix x assume x: "span (adr (a' + 13)) (of_nat n') x" "span (adr (k + 13)) (of_nat n) x"
      from chain_bounds [OF ch that] have b: "k + 16 + n \<le> a'" "a' + 16 + n' \<le> e" by auto
      have "a' + 13 + n' < 2 ^ 31" "k + 13 + n < 2 ^ 31" using b "2.prems"(2) by (auto simp: HEAP_SIZE_def)
      with x obtain i j where "i < n'" "x = adr (a' + 13 + i)" "j < n" "x = adr (k + 13 + j)"
        using payload_span [OF x(1)] payload_span [OF x(2)] by metis
      with b "2.prems" show False by (simp add: adr_eq_iff HEAP_SIZE_def)
    qed
    with "2.IH" [OF ch "2.prems"(2)] "2.prems"(1) show ?case by auto
  qed simp
  with inv have "sorted_wrt (\<lambda>b c. apart (fst (payload c)) (snd (payload c)) (fst (payload b)) (snd (payload b))) bs"
    by (auto simp: heap_inv_def)
  then show ?thesis
    by (simp add: L blocks_apart_def sorted_wrt_map sorted_wrt_rev split_def)
qed

lemma heap_ownsE:
  assumes "heap_owns st L" and "(p, n) \<in> set L"
  obtains bs e a k where "heap_inv st bs e" "L = map payload (rev bs)" "(a, k) \<in> set bs"
    "p = adr (a + 13)" "n = of_nat k" "chain 0 bs e" "e < HEAP_SIZE"
proof -
  from assms(1) obtain bs e where h: "heap_inv st bs e" "L = map payload (rev bs)"
    by (auto simp: heap_owns_def)
  with assms(2) obtain a k where "(a, k) \<in> set bs" "p = adr (a + 13)" "n = of_nat k"
    by (auto simp: payload_def)
  with h that show ?thesis by (auto simp: heap_inv_def)
qed

lemma heap_alloc_ok:
  assumes "heap_owns st L" and "heap_room L n"
  shows "\<exists>p st'. malloc n st = Some (p, st') \<and> p \<noteq> 0 \<and> heap_owns st' ((p, n) # L)
    \<and> keeps (set L) (mem st) (mem st') \<and> uart_out st' = uart_out st \<and> uart_in st' = uart_in st"
proof -
  from assms(1) obtain bs e where inv: "heap_inv st bs e" and L: "L = map payload (rev bs)"
    by (auto simp: heap_owns_def)
  then have ch: "chain 0 bs e" "e < HEAP_SIZE" by (auto simp: heap_inv_def)
  then have "heap_used L = e" using chain_used [of 0 bs e] by (simp add: L HEAP_SIZE_def)
  with assms(2) have room: "e + 16 + unat n < HEAP_SIZE" by (simp add: heap_room_def)
  have "heap_owns (bumped e n st) ((adr (e + 13), n) # L)"
    unfolding heap_owns_def
    using heap_inv_bumped [OF inv room] by (intro exI [of _ "bs @ [(e, unat n)]"]) (auto simp: L payload_def)
  moreover have "keeps (set L) (mem st) (mem (bumped e n st))"
    unfolding keeps_def in_block_def
  proof (intro allI impI)
    fix b x assume "b \<in> set L" "span (fst b) (snd b) x"
    then obtain a k where b: "(a, k) \<in> set bs" "span (adr (a + 13)) (of_nat k) x"
      by (auto simp: L payload_def)
    have "a + 16 + k \<le> e" using chain_bounds [OF ch(1) b(1)] by simp
    with b ch(2) obtain i where "i < k" "x = adr (a + 13 + i)"
      using payload_span [OF b(2)] by (auto simp: HEAP_SIZE_def)
    then show "mem (bumped e n st) x = mem st x"
      using ch(2) \<open>a + 16 + k \<le> e\<close> by (auto intro!: bumped_frame simp: HEAP_SIZE_def)
  qed
  moreover have "adr (e + 13) \<noteq> 0" using ch(2) by (intro adr_nonzero) (simp add: HEAP_SIZE_def)
  ultimately show ?thesis using malloc_room [OF inv room] by (auto simp: bumped_def)
qed

lemma heap_store_ok:
  assumes "heap_owns st L" and "(p, n) \<in> set L" and "span p n x"
  shows "heap_owns (st\<lparr>mem := (mem st)(x := v)\<rparr>) L"
proof -
  from assms(1,2) obtain bs e a k where h: "heap_inv st bs e" "L = map payload (rev bs)" "(a, k) \<in> set bs"
    "p = adr (a + 13)" "n = of_nat k" "chain 0 bs e" "e < HEAP_SIZE" by (rule heap_ownsE)
  have "heap_inv (st\<lparr>mem := (mem st)(x := v)\<rparr>) bs e"
  proof (rule heap_inv_store [OF h(1)])
    fix a' n' and i :: nat assume "(a', n') \<in> set bs" "i \<le> 8 \<or> i = 12"
    then show "x \<noteq> adr (a' + i)"
      using assms(3) unfolding h(4,5) by (intro payload_not_header [OF h(6,7,3)]) auto
  qed
  with h show ?thesis by (auto simp: heap_owns_def)
qed

lemma heap_release_ok:
  assumes "heap_owns st L" and "(p, n) \<in> set L"
  shows "heap_owns (free p st) L \<and> keeps (set L) (mem st) (mem (free p st))"
proof -
  from assms obtain bs e a k where h: "heap_inv st bs e" "L = map payload (rev bs)" "(a, k) \<in> set bs"
    "p = adr (a + 13)" "n = of_nat k" "chain 0 bs e" "e < HEAP_SIZE" by (rule heap_ownsE)
  have b: "a + 16 + k \<le> e" using chain_bounds [OF h(6,3)] by simp
  have "adr (a + 9) \<noteq> adr (a' + i)" if "(a', n') \<in> set bs" "i \<le> 8 \<or> i = 12" for a' n' i
    using chain_disjoint [OF h(6,3) that(1)] chain_bounds [OF h(6) that(1)] b h(7) that(2)
    by (auto simp: adr_eq_iff HEAP_SIZE_def)
  then have "heap_inv (free p st) bs e"
    using h(1) by (simp add: h(4) free_block heap_inv_store)
  then have "heap_owns (free p st) L" using h(2) by (auto simp: heap_owns_def)
  moreover have "keeps (set L) (mem st) (mem (free p st))"
    unfolding keeps_def in_block_def
  proof (intro allI impI)
    fix c x assume "c \<in> set L" "span (fst c) (snd c) x"
    then obtain a' k' where "(a', k') \<in> set bs" "span (adr (a' + 13)) (of_nat k') x"
      by (auto simp: h(2) payload_def)
    then have "x \<noteq> adr (a + 9)" using payload_not_header [OF h(6,7) _ h(3)] by auto
    then show "mem (free p st) x = mem st x" by (simp add: h(4) free_block)
  qed
  ultimately show ?thesis by blast
qed

text \<open>The arena: the 4 MiB from \<open>HEAP_START\<close> on.\<close>

definition in_heap :: "u32 \<Rightarrow> bool" where
  "in_heap x \<longleftrightarrow> HEAP_START \<le> x \<and> x < HEAP_END"

lemma in_heap_adr: "k < HEAP_SIZE \<Longrightarrow> in_heap (adr k)"
  by (simp add: in_heap_def word_le_nat_alt word_less_nat_alt unat_adr HEAP_SIZE_def
      HEAP_END_def HEAP_START_def)

lemma heap_owns_arena:
  assumes "heap_owns st L" and "(p, n) \<in> set L" and "span p n x"
  shows "in_heap x"
proof -
  from assms(1,2) obtain bs e a k where h: "heap_inv st bs e" "L = map payload (rev bs)" "(a, k) \<in> set bs"
    "p = adr (a + 13)" "n = of_nat k" "chain 0 bs e" "e < HEAP_SIZE" by (rule heap_ownsE)
  from chain_bounds [OF h(6,3)] h(7) have b: "a + 16 + k < HEAP_SIZE" by simp
  with assms(3) h(4,5) obtain i where "i < k" "x = adr (a + 13 + i)"
    using payload_span [of "a + 13" k x] by (auto simp: HEAP_SIZE_def)
  with b show ?thesis using in_heap_adr by simp
qed

lemma heap_owns_inv:
  assumes "heap_owns st L"
  obtains bs where "heap_inv st bs (heap_used L)" "L = map payload (rev bs)"
proof -
  from assms obtain bs e where h: "heap_inv st bs e" "L = map payload (rev bs)"
    by (auto simp: heap_owns_def)
  then have "heap_used L = e" using chain_used [of 0 bs e] by (auto simp: heap_inv_def HEAP_SIZE_def)
  with h that [of bs] show ?thesis by simp
qed

lemma heap_malloc_bumped:
  assumes "heap_owns st L" and "heap_room L n"
  shows "malloc n st = Some (adr (heap_used L + 13), bumped (heap_used L) n st)"
proof -
  from assms(1) obtain bs where "heap_inv st bs (heap_used L)" by (rule heap_owns_inv)
  with assms(2) show ?thesis by (intro malloc_room) (simp_all add: heap_room_def)
qed

lemma bumped_arena:
  assumes "e + 13 < HEAP_SIZE" and "\<not> in_heap x"
  shows "mem (bumped e n st) x = mem st x"
proof -
  have "\<not> unat (x - adr e) < 13"
  proof
    assume "unat (x - adr e) < 13"
    moreover have "adr (e + unat (x - adr e)) = x" using adr_add [of e "unat (x - adr e)"] by simp
    ultimately show False using assms in_heap_adr [of "e + unat (x - adr e)"] by simp
  qed
  then show ?thesis by (simp add: bumped_def write_bytes_def)
qed

lemma free_arena:
  assumes "heap_owns st L" and "(p, n) \<in> set L" and "\<not> in_heap x"
  shows "mem (free p st) x = mem st x"
proof -
  from assms(1,2) obtain bs e a k where h: "heap_inv st bs e" "L = map payload (rev bs)" "(a, k) \<in> set bs"
    "p = adr (a + 13)" "n = of_nat k" "chain 0 bs e" "e < HEAP_SIZE" by (rule heap_ownsE)
  from chain_bounds [OF h(6,3)] h(7) have "in_heap (adr (a + 9))" by (intro in_heap_adr) simp
  with assms(3) have "x \<noteq> adr (a + 9)" by auto
  then show ?thesis by (simp add: h(4) free_block)
qed

interpretation heap: arena_allocator malloc free heap_owns heap_room in_heap
proof unfold_locales
  show "mem st' x = mem st x"
    if "heap_owns st L" "heap_room L n" "malloc n st = Some (p, st')" "\<not> in_heap x" for st L n p st' x
    using heap_malloc_bumped [OF that(1,2)] that(2-4) bumped_arena [of "heap_used L" x]
    by (simp add: heap_room_def)
qed (blast intro: heap_alloc_ok heap_owns_apart heap_store_ok heap_owns_arena free_arena
    | use heap_release_ok in blast)+

text \<open>
  The three bytes between the end of a block's data and the next header, where the struct is
  padded to 16 bytes, belong to nobody: a store to the first of them is harmless.
\<close>

lemma slack_store_ok:
  assumes "heap_owns st L" and "(p, n) \<in> set L"
  shows "heap_owns (st\<lparr>mem := (mem st)(p + n := v)\<rparr>) L \<and> \<not> client in_heap L (p + n)"
proof -
  from assms(1,2) obtain bs e a k where h: "heap_inv st bs e" "L = map payload (rev bs)" "(a, k) \<in> set bs"
    "p = adr (a + 13)" "n = of_nat k" "chain 0 bs e" "e < HEAP_SIZE" by (rule heap_ownsE)
  from chain_bounds [OF h(6,3)] have b: "a + 16 + k \<le> e" by simp
  have pn: "p + n = adr (a + 13 + k)" using adr_add [of "a + 13" k] by (simp add: h(4,5))
  have away: "a + 13 + k \<noteq> a' + i" if "(a', k') \<in> set bs" "i < 13 \<or> (13 \<le> i \<and> i < 13 + k')" for a' k' i
    using chain_disjoint [OF h(6,3) that(1)] that(2) by auto
  have "heap_inv (st\<lparr>mem := (mem st)(p + n := v)\<rparr>) bs e"
  proof (rule heap_inv_store [OF h(1)])
    fix a' k' i assume "(a', k') \<in> set bs" "i \<le> 8 \<or> i = (12::nat)"
    then show "p + n \<noteq> adr (a' + i)"
      using away [of a' k' i] chain_bounds [OF h(6), of a' k'] b h(7)
      by (auto simp: pn adr_eq_iff HEAP_SIZE_def)
  qed
  moreover have "\<not> client in_heap L (p + n)"
  proof
    assume "client in_heap L (p + n)"
    moreover have "in_heap (p + n)" using b h(7) by (simp add: pn in_heap_adr)
    ultimately obtain a' k' where c: "(a', k') \<in> set bs" "span (adr (a' + 13)) (of_nat k') (p + n)"
      by (auto simp: client_def in_block_def h(2))
    with chain_bounds [OF h(6) c(1)] h(7) obtain i where "i < k'" "p + n = adr (a' + 13 + i)"
      using payload_span [OF c(2)] by (auto simp: HEAP_SIZE_def)
    then show False
      using away [OF c(1), of "13 + i"] chain_bounds [OF h(6) c(1)] b h(7)
      by (simp add: pn adr_eq_iff HEAP_SIZE_def add.assoc)
  qed
  ultimately show ?thesis using h(2) by (auto simp: heap_owns_def)
qed

text \<open>A machine on which nothing was allocated yet owns no block.\<close>

lemma heap_owns_start [simp]: "mem_head st = 0 \<Longrightarrow> heap_end st = 0 \<Longrightarrow> heap_owns st []"
  by (auto simp: heap_owns_def heap_inv_def HEAP_SIZE_def)

section \<open>Sessions\<close>

text \<open>
  What a program does with the heap: it allocates while there is room, frees blocks it was
  given (as often as it likes), stores into its blocks. \<open>session st L\<close>: state \<open>st\<close> is reached,
  with the blocks \<open>L\<close> handed out so far, newest first.
\<close>

inductive session :: "machine \<Rightarrow> (u32 \<times> u32) list \<Rightarrow> bool" where
  start: "mem_head st = 0 \<Longrightarrow> heap_end st = 0 \<Longrightarrow> session st []"
| malloc: "session st L \<Longrightarrow> heap_room L n \<Longrightarrow> malloc n st = Some (p, st') \<Longrightarrow> session st' ((p, n) # L)"
| free: "session st L \<Longrightarrow> (p, n) \<in> set L \<Longrightarrow> session (free p st) L"
| store: "session st L \<Longrightarrow> (p, n) \<in> set L \<Longrightarrow> span p n x \<Longrightarrow> session (st\<lparr>mem := (mem st)(x := v)\<rparr>) L"

lemma session_owns: "session st L \<Longrightarrow> heap_owns st L"
proof (induction rule: session.induct)
  case (malloc st L n p st')
  then show ?case using heap.alloc_ok [of st L n] by auto
qed (auto intro: heap.store_ok dest: heap.release_ok)

lemma session_inv:
  assumes "session st L"
  obtains bs where "heap_inv st bs (heap_used L)" "L = map payload (rev bs)"
  using heap_owns_inv [OF session_owns [OF assms]] that by blast

lemma session_block:
  assumes "session st L" and "(p, n) \<in> set L"
  obtains a k where "p = adr (a + 13)" "n = of_nat k" "header_ok (mem st) (a, k)" "a + 16 + k < HEAP_SIZE"
proof -
  from session_owns [OF assms(1)] assms(2) obtain bs e a k where h: "heap_inv st bs e"
    "L = map payload (rev bs)" "(a, k) \<in> set bs" "p = adr (a + 13)" "n = of_nat k" "chain 0 bs e" "e < HEAP_SIZE"
    by (rule heap_ownsE)
  then show ?thesis using that chain_bounds [OF h(6,3)] by (auto simp: heap_inv_def)
qed

text \<open>What \<open>free\<close> and \<open>realloc\<close> see through their misplaced block pointer.\<close>

lemma free_at:
  "ptr \<noteq> SIZEOF_BLOCK \<Longrightarrow> free ptr st = st\<lparr>mem := (mem st)(ptr - OFF_DATA + 9 := 1)\<rparr>"
  by (simp add: free_def set_free_def layout)

lemma misread_size:
  assumes "header_ok (mem st) (a, k)"
  shows "blk_size st (adr (a + 13) - SIZEOF_BLOCK) = push_bit 24 (of_nat k)"
proof -
  have "adr (a + 13) = adr (a + 5) + 8" using adr_add [of "a + 5" 8] by (simp add: add.commute)
  then have eq: "adr (a + 13) - SIZEOF_BLOCK + OFF_SIZE = adr (a + 5)" by (simp add: layout)
  have z: "mem st (adr (a + i)) = 0" if "i < 8" for i
    using assms that by (simp add: header_ok_def)
  have "adr (a + 5) + 1 = adr (a + 6)" "adr (a + 5) + 2 = adr (a + 7)" "adr (a + 5) + 3 = adr (a + 8)"
    using adr_add [of "a + 5" 1] adr_add [of "a + 5" 2] adr_add [of "a + 5" 3]
    by (simp_all add: add.commute)
  then have "blk_size st (adr (a + 13) - SIZEOF_BLOCK) = push_bit 24 (ucast (mem st (adr (a + 8))))"
    using z [of 5] z [of 6] z [of 7] by (simp add: blk_size_def eq load32_def)
  also have "mem st (adr (a + 8)) = of_nat k" using assms by (simp add: header_ok_def)
  also have "push_bit 24 (ucast (of_nat k :: byte)) = (push_bit 24 (of_nat k) :: u32)"
    by (rule bit_word_eqI) (auto simp: bit_simps)
  finally show ?thesis .
qed

section \<open>The list walk\<close>

text \<open>The blocks on the list from \<open>p\<close> on, as the \<open>next\<close> fields link them.\<close>

fun linked :: "machine \<Rightarrow> u32 \<Rightarrow> u32 list \<Rightarrow> bool" where
  "linked st p [] \<longleftrightarrow> p = 0"
| "linked st p (b # bs) \<longleftrightarrow> p = b \<and> b \<noteq> 0 \<and> linked st (blk_next st b) bs"

lemma find_block_linked:
  "linked st p bs \<Longrightarrow> find_block st p n
    = Some (case find (\<lambda>b. blk_free st b \<and> n \<le> blk_size st b) bs of None \<Rightarrow> 0 | Some b \<Rightarrow> b)"
proof (induction bs arbitrary: p)
  case Nil
  then show ?case by (subst find_block.simps) simp
next
  case (Cons b bs)
  then show ?case by (subst find_block.simps) auto
qed

lemma walk_loop_linked: "linked st p bs \<Longrightarrow> walk_loop st p = Some ()"
proof (induction bs arbitrary: p)
  case Nil
  then show ?case by (subst walk_loop.simps) simp
next
  case (Cons b bs)
  then show ?case by (subst walk_loop.simps) auto
qed

lemma heap_loop_linked:
  "linked st p bs \<Longrightarrow> heap_loop st p t = Some
    \<lparr>ht_total = ht_total t + sum_list (map (blk_size st) bs),
     ht_free = ht_free t + sum_list (map (blk_size st) (filter (blk_free st) bs)),
     ht_used = ht_used t + sum_list (map (blk_size st) (filter (\<lambda>b. \<not> blk_free st b) bs)),
     ht_free_blocks = ht_free_blocks t + of_nat (length (filter (blk_free st) bs)),
     ht_used_blocks = ht_used_blocks t + of_nat (length (filter (\<lambda>b. \<not> blk_free st b) bs))\<rparr>"
proof (induction bs arbitrary: p t)
  case Nil
  then show ?case by (subst heap_loop.simps) simp
next
  case (Cons b bs)
  then show ?case by (subst heap_loop.simps) (auto simp: Let_def add.assoc)
qed

text \<open>The header cut off by a split lies behind the block's own and before it wraps around.\<close>

lemma split_apart:
  assumes "unat n + 32 \<le> 2 ^ 32"
  shows "apart b 16 (b + 16 + n) 16"
proof -
  have u: "unat (16 + n) = 16 + unat n" using assms by (simp add: unat_plus_if')
  then have "16 + n \<noteq> 0" by (metis add_is_0 unat_0 zero_neq_numeral)
  from unat_neg [OF this] u have "16 \<le> 16 + n" "16 \<le> - (16 + n)"
    using assms by (auto simp only: word_le_nat_alt) simp_all
  moreover have "b + 16 + n - b = 16 + n" "b - (b + 16 + n) = - (16 + n)" by simp_all
  ultimately show ?thesis by (simp only: apart_def simp_thms)
qed

lemma split_sizes:
  assumes "n + 16 < (s::u32)" and "unat n + 32 \<le> 2 ^ 32"
  shows "unat (s - n - 16) + 16 + unat n = unat s"
proof -
  have "unat (n + 16) = unat n + 16" using assms(2) by (simp add: unat_plus_if')
  moreover have "unat (s - (n + 16)) = unat s - unat (n + 16)"
    using assms(1) by (intro unat_sub) simp
  moreover have "s - n - 16 = s - (n + 16)" by simp
  ultimately show ?thesis using assms(1) by (simp only: word_less_nat_alt)
qed

section \<open>Properties\<close>

text \<open>
  C1. In every session the blocks handed out are pairwise disjoint, whatever was freed and
  stored in between; and while there is room, \<open>malloc\<close> returns a non-NULL block that is
  disjoint from all of them and leaves their contents alone.
\<close>

theorem malloc_separation:
  assumes "session st L" and "heap_room L n"
  shows "\<exists>p st'. malloc n st = Some (p, st') \<and> p \<noteq> 0 \<and> blocks_apart ((p, n) # L)
    \<and> keeps (set L) (mem st) (mem st')"
  using heap.alloc_ok [OF session_owns [OF assms(1)] assms(2)] heap.owns_apart by blast

lemma boot_session: "session (boot m) []"
  by (rule session.start) simp_all

lemma session_malloc:
  "session st L \<Longrightarrow> heap_room L n \<Longrightarrow> \<exists>p st'. malloc n st = Some (p, st') \<and> session st' ((p, n) # L)"
  using heap.alloc_ok [OF session_owns] session.malloc by blast

lemma session_one: "\<exists>p st. session st [(p, 5)]"
proof -
  have "heap_room [] 5" by (simp add: heap_room_def HEAP_SIZE_def)
  from session_malloc [OF boot_session this] show ?thesis by blast
qed

theorem malloc_separation_witness:
  "\<exists>p q st. blocks_apart [(q, 8), (p, 5)] \<and> q \<noteq> 0"
proof -
  obtain p st where "session st [(p, 5)]"
    using session_one by blast
  then show ?thesis
    using malloc_separation [of st "[(p, 5)]" 8] by (auto simp: heap_room_def HEAP_SIZE_def)
qed

text \<open>
  C19. \<open>malloc\<close> refines a bump allocator: in every session the next block depends only on the
  sizes asked for so far. Its data starts 13 bytes behind the end of the heap, the heap grows
  by 16 bytes and the size, and only the 13 header bytes are written. Freed blocks play no role.
\<close>

theorem malloc_refines_bump:
  assumes "session st L" and "heap_room L n"
  shows "malloc n st = Some (adr (heap_used L + 13), bumped (heap_used L) n st)"
  using session_owns [OF assms(1)] assms(2) by (rule heap_malloc_bumped)

theorem malloc_refines_bump_witness:
  "\<exists>st. malloc 8 st = Some (HEAP_START + 34, bumped 21 8 st)"
proof -
  obtain p st where "session st [(p, 5)]"
    using session_one by blast
  from malloc_refines_bump [OF this, of 8] show ?thesis
    by (auto simp: heap_room_def HEAP_SIZE_def adr_def)
qed

text \<open>
  When a request below \<open>2^30\<close> no longer fits, \<open>malloc\<close> returns NULL and leaves memory
  alone; but if it was the first request, \<open>mem_head\<close> keeps the error value \<open>-1\<close>.
\<close>

theorem malloc_exhausted:
  assumes "session st L" and "\<not> heap_room L n" and "unat n < 2 ^ 30"
  shows "malloc n st = Some (0, st\<lparr>heap_end := adr (heap_used L),
    mem_head := (if L = [] then - 1 else mem_head st)\<rparr>)"
proof -
  from assms(1) obtain bs where inv: "heap_inv st bs (heap_used L)" "L = map payload (rev bs)"
    by (rule session_inv)
  then have "malloc n st = Some (0, st\<lparr>heap_end := adr (heap_used L),
      mem_head := (if bs = [] then - 1 else mem_head st)\<rparr>)"
    using assms(2,3) by (intro malloc_full) (auto simp: heap_room_def heap_inv_def HEAP_SIZE_def)
  with inv show ?thesis by simp
qed

theorem malloc_exhausted_witness:
  "malloc 5242880 (boot (\<lambda>_. 0))
    = Some (0, (boot (\<lambda>_. 0))\<lparr>heap_end := HEAP_START, mem_head := - 1\<rparr>)"
  using malloc_exhausted [OF boot_session, of 5242880] by (simp add: heap_room_def HEAP_SIZE_def)

text \<open>
  A request of nearly \<open>2^32\<close> bytes is granted: \<open>sizeof(mem_block) + size\<close> wraps around, so
  \<open>malloc\<close> returns a non-NULL block for \<open>2^32 - 16 + k\<close> bytes and moves the heap by only \<open>k\<close>.
\<close>

theorem malloc_size_wraps:
  assumes "session st L" and "L \<noteq> []" and "k < 16" and "heap_used L + k < HEAP_SIZE"
  shows "\<exists>st'. malloc (of_nat k - 16) st = Some (adr (heap_used L + 13), st')
    \<and> heap_end st' = adr (heap_used L + k)"
proof -
  from assms(1) obtain bs where inv: "heap_inv st bs (heap_used L)" "L = map payload (rev bs)"
    by (rule session_inv)
  then have bs: "bs \<noteq> []" using assms(2) by auto
  with inv have mh: "mem_head st \<noteq> 0" by (simp add: heap_inv_def HEAP_START_def)
  have "SIZEOF_BLOCK + (of_nat k - 16) = of_nat k" by (simp add: layout)
  then have "sbrk (SIZEOF_BLOCK + (of_nat k - 16)) st
      = (adr (heap_used L), st\<lparr>heap_end := adr (heap_used L + k)\<rparr>)"
    using sbrk_room [OF inv(1) assms(4)] by simp
  moreover have "adr (heap_used L) \<noteq> - 1" using assms(4) by (intro adr_not_minus1) simp
  ultimately show ?thesis
    using mh find_block_none [OF inv(1) bs]
    by (simp add: malloc_def init_block_eq layout adr_plus)
qed

theorem malloc_size_wraps_witness:
  "\<exists>st st'. malloc (- 16) st = Some (HEAP_START + 34, st') \<and> heap_end st' = HEAP_START + 21"
proof -
  obtain p st where "session st [(p, 5)]"
    using session_one by blast
  from malloc_size_wraps [OF this, of 0] show ?thesis
    by (auto simp: HEAP_SIZE_def adr_def)
qed

text \<open>
  C18. \<open>free\<close> never frees: in every session, freeing a block stores one byte, the second byte
  of that block's size field, and the block's \<open>free\<close> flag stays clear, so that the next search
  of \<open>malloc\<close> still finds nothing to reuse.
\<close>

theorem free_misses_flag:
  assumes "session st L" and "(p, n) \<in> set L"
  shows "free p st = st\<lparr>mem := (mem st)(p - OFF_DATA + OFF_SIZE + 1 := 1)\<rparr>
    \<and> \<not> blk_free (free p st) (p - OFF_DATA)
    \<and> find_block (free p st) (mem_head (free p st)) k = Some 0"
proof (intro conjI)
  from assms obtain a j where b: "p = adr (a + 13)" "header_ok (mem st) (a, j)" "a + 16 + j < HEAP_SIZE"
    by (rule session_block)
  have "p \<noteq> SIZEOF_BLOCK" using b(1,3) unat_adr [of "a + 13"] by (auto simp: layout HEAP_SIZE_def)
  then show eq: "free p st = st\<lparr>mem := (mem st)(p - OFF_DATA + OFF_SIZE + 1 := 1)\<rparr>"
    by (simp add: free_at layout)
  have "p - OFF_DATA = adr a" using b(1) adr_add [of a 13] by (simp add: layout) (metis add_diff_cancel)
  then show "\<not> blk_free (free p st) (p - OFF_DATA)"
    using header_ok_not_free [OF b(2)] by (simp add: eq blk_free_def layout)
  have "session (free p st) L" using assms by (rule session.free)
  then obtain bs where inv: "heap_inv (free p st) bs (heap_used L)" "L = map payload (rev bs)"
    by (rule session_inv)
  moreover have "bs \<noteq> []" using inv(2) assms(2) by auto
  ultimately show "find_block (free p st) (mem_head (free p st)) k = Some 0"
    by (intro find_block_none)
qed

theorem free_misses_flag_witness:
  "\<exists>p st. \<not> blk_free (free p st) (p - OFF_DATA) \<and> mem (free p st) (p - OFF_DATA + OFF_SIZE + 1) = 1"
proof -
  obtain p st where s: "session st [(p, 5)]" using session_one by blast
  have "(p, 5) \<in> set [(p, 5)]" by simp
  from free_misses_flag [OF s this, of 0] show ?thesis by (intro exI [of _ p] exI [of _ st]) auto
qed

text \<open>
  \<open>realloc\<close> misreads the size of the block: in every session it sees \<open>2^24\<close> times the low
  byte of the real size, so that it hands back the same, too small block for every request up to
  that value.
\<close>

theorem realloc_misreads_size:
  assumes "session st L" and "(p, n) \<in> set L" and "m \<le> push_bit 24 n"
  shows "realloc p m st = Some (p, st)"
proof -
  from assms(1,2) obtain a j where b: "p = adr (a + 13)" "n = of_nat j" "header_ok (mem st) (a, j)"
    "a + 16 + j < HEAP_SIZE" by (rule session_block)
  have "p \<noteq> SIZEOF_BLOCK" using b(1,4) unat_adr [of "a + 13"] by (auto simp: layout HEAP_SIZE_def)
  then have "p - SIZEOF_BLOCK \<noteq> 0" by simp
  moreover have "blk_size st (p - SIZEOF_BLOCK) = push_bit 24 n"
    using misread_size [OF b(3)] b(1,2) by simp
  ultimately show ?thesis using assms(3) by (simp add: realloc_def Let_def)
qed

theorem realloc_misreads_size_witness:
  "\<exists>p st. session st [(p, 5)] \<and> realloc p 1000 st = Some (p, st)"
proof -
  obtain p st where s: "session st [(p, 5)]" using session_one by blast
  have "realloc p 1000 st = Some (p, st)" by (rule realloc_misreads_size [OF s]) (simp_all, code_simp)
  with s show ?thesis by blast
qed

text \<open>
  \<open>calloc\<close>: while there is room for the product, the returned block is fresh, all its bytes
  are 0 and the older blocks keep their contents. The product is taken modulo \<open>2^32\<close> without a
  check, so \<open>calloc(65536, 65536)\<close> hands out a block of no bytes.
\<close>

theorem calloc_zeroes:
  assumes "session st L" and "heap_room L (nm * sz)"
  shows "\<exists>p st'. calloc nm sz st = Some (p, st') \<and> p \<noteq> 0 \<and> blocks_apart ((p, nm * sz) # L)
    \<and> bytes (mem st') p (unat (nm * sz)) = replicate (unat (nm * sz)) 0
    \<and> keeps (set L) (mem st) (mem st')"
proof -
  let ?n = "nm * sz"
  from heap.alloc_ok [OF session_owns [OF assms(1)] assms(2)] obtain p st'
    where m: "malloc ?n st = Some (p, st')" "p \<noteq> 0" "heap_owns st' ((p, ?n) # L)"
      "keeps (set L) (mem st) (mem st')" by blast
  let ?st = "snd (memset p 0 ?n st')"
  have "calloc nm sz st = Some (p, ?st)"
    using m(1,2) by (simp add: calloc_def split_def)
  moreover have "bytes (mem ?st) p (unat ?n) = replicate (unat ?n) 0"
    by (rule nth_equalityI)
      (auto simp: bytes_nth memset_mem word_less_nat_alt unat_of_nat
        intro: order_le_less_trans [OF take_bit_nat_less_eq_self])
  moreover have "keeps (set L) (mem st') (mem ?st)"
    using heap.fresh [OF m(3)] by (auto simp: keeps_def in_block_def memset_mem dest: apartD)
  ultimately show ?thesis
    using m heap.owns_apart [OF m(3)] keeps_trans by blast
qed

theorem calloc_zeroes_witness:
  "(\<exists>p st'. calloc 3 2 (boot (\<lambda>_. 7)) = Some (p, st') \<and> bytes (mem st') p 6 = [0, 0, 0, 0, 0, 0])
   \<and> (\<exists>p st'. calloc 65536 65536 (boot (\<lambda>_. 7)) = Some (p, st') \<and> p \<noteq> 0)"
proof -
  have "heap_room [] (3 * 2)" "heap_room [] (65536 * 65536)"
    by (simp_all add: heap_room_def HEAP_SIZE_def)
  note calloc_zeroes [OF boot_session this(1)] calloc_zeroes [OF boot_session this(2)]
  moreover have "unat (3 * 2 :: u32) = 6" by simp
  moreover have "replicate 6 0 = [0, 0, 0, 0, 0, 0 :: byte]" by code_simp
  ultimately show ?thesis by metis
qed

text \<open>
  First fit and splitting, for any heap whose list is linked from \<open>mem_head\<close>: \<open>malloc\<close>
  takes the first free block that is large enough; if 16 bytes and more remain it cuts off a
  new free block that follows it in the list and the two sizes and a header make up the old one.
\<close>

theorem malloc_first_fit:
  assumes "linked st (mem_head st) bs" and "find (\<lambda>b. blk_free st b \<and> n \<le> blk_size st b) bs = Some b"
    and "n + 16 < blk_size st b" and "unat n + 32 \<le> 2 ^ 32"
  shows "\<exists>st'. malloc n st = Some (b + OFF_DATA, st') \<and> \<not> blk_free st' b \<and> blk_size st' b = n
    \<and> blk_next st' b = b + 16 + n \<and> blk_free st' (b + 16 + n)
    \<and> blk_prev st' (b + 16 + n) = b \<and> blk_next st' (b + 16 + n) = blk_next st b
    \<and> unat (blk_size st' (b + 16 + n)) + 16 + unat n = unat (blk_size st b)"
proof -
  have "b \<in> set bs" using assms(2) by (auto simp: find_Some_iff)
  moreover have "linked st p bs \<Longrightarrow> 0 \<notin> set bs" for p
    by (induction bs arbitrary: p) auto
  ultimately have b: "b \<noteq> 0" using assms(1) by metis
  have mh: "mem_head st \<noteq> 0" using assms(1,2) by (cases bs) auto
  let ?st = "set_free b False (split_block b n st)"
  have "malloc n st = Some (b + OFF_DATA, ?st)"
    using find_block_linked [OF assms(1), of n] assms(2,3) b mh
    by (simp add: malloc_def Let_def layout)
  moreover have ap: "apart b 16 (b + 16 + n) 16" "apart (b + 16 + n) 16 b 16"
    using assms(4) split_apart [of n b] by (auto intro: apart_sym)
  moreover have "unat (blk_size st b - n - 16) + 16 + unat n = unat (blk_size st b)"
    using assms(3,4) by (rule split_sizes)
  ultimately show ?thesis
    by (simp add: split_block_def Let_def blk_other layout)
qed

theorem malloc_first_fit_witness:
  "\<exists>st'. malloc 4 ((set_size 64 100 (set_free 64 True (boot (\<lambda>_. 0))))\<lparr>mem_head := 64\<rparr>)
     = Some (77, st') \<and> blk_size st' 64 = 4 \<and> unat (blk_size st' 84) = 80"
proof -
  let ?st = "(set_size 64 100 (set_free 64 True (boot (\<lambda>_. 0))))\<lparr>mem_head := 64\<rparr>"
  have f: "blk_next ?st 64 = 0" "blk_size ?st 64 = 100" "blk_free ?st 64"
    by (simp_all add: blk_next_def blk_size_def blk_free_def set_size_def set_free_def layout
        boot_def load32_def store32_def)
  have "linked ?st (mem_head ?st) [64]" using f by simp
  moreover have "find (\<lambda>b. blk_free ?st b \<and> 4 \<le> blk_size ?st b) [64] = Some 64" using f by simp
  ultimately obtain st' where "malloc 4 ?st = Some (64 + OFF_DATA, st')" "blk_size st' 64 = 4"
    "unat (blk_size st' (64 + 16 + 4)) + 16 + unat (4::u32) = unat (blk_size ?st 64)"
    using malloc_first_fit [of ?st "[64]" 4 64] f by auto
  then show ?thesis using f by (auto simp: layout)
qed

text \<open>
  \<open>debug_heap\<close> terminates on every linked list and accounts for it: its totals are the sums
  and numbers of the free and the used blocks, and \<open>total = free + used\<close>.
\<close>

theorem debug_heap_accounts:
  assumes "linked st (mem_head st) bs"
  shows "\<exists>t. debug_heap st = Some t \<and> ht_total t = ht_free t + ht_used t
    \<and> ht_free t = sum_list (map (blk_size st) (filter (blk_free st) bs))
    \<and> ht_used t = sum_list (map (blk_size st) (filter (\<lambda>b. \<not> blk_free st b) bs))
    \<and> ht_free_blocks t + ht_used_blocks t = of_nat (length bs)"
proof -
  have "sum_list (map (blk_size st) bs) = sum_list (map (blk_size st) (filter (blk_free st) bs))
      + sum_list (map (blk_size st) (filter (\<lambda>b. \<not> blk_free st b) bs))"
    and "of_nat (length (filter (blk_free st) bs))
      + of_nat (length (filter (\<lambda>b. \<not> blk_free st b) bs)) = (of_nat (length bs) :: u32)"
    by (induction bs) (auto simp: add.assoc add.left_commute)
  then show ?thesis
    using heap_loop_linked [OF assms] walk_loop_linked [OF assms] by (simp add: debug_heap_def)
qed

theorem debug_heap_accounts_witness:
  "\<exists>t. debug_heap ((set_size 64 100 (boot (\<lambda>_. 0)))\<lparr>mem_head := 64\<rparr>) = Some t
     \<and> ht_used t = 100 \<and> ht_free t = 0 \<and> ht_total t = 100"
proof -
  let ?st = "(set_size 64 100 (boot (\<lambda>_. 0)))\<lparr>mem_head := 64\<rparr>"
  have f: "blk_next ?st 64 = 0" "blk_size ?st 64 = 100" "\<not> blk_free ?st 64"
    by (simp_all add: blk_next_def blk_size_def blk_free_def set_size_def layout
        boot_def load32_def store32_def)
  then have "linked ?st (mem_head ?st) [64]" by simp
  from debug_heap_accounts [OF this] f show ?thesis by auto
qed

end
