(* ===== verification/CString.thy ===== *)
theory CString
  imports Machine "HOL-Library.Sublist"
begin

text \<open>
  The C-string functions of \<open>c_test/string.c\<close>, pointer for pointer. A loop that looks for a
  terminator is a partial function: \<open>None\<close> means that it never returns. \<open>cstr m p s\<close> says that
  the C string \<open>s\<close> stands at \<open>p\<close>; the lemmas compute every function on such strings.
\<close>

section \<open>The functions\<close>

partial_function (option) strlen_from :: "memory \<Rightarrow> u32 \<Rightarrow> u32 \<Rightarrow> u32 option" where
  "strlen_from m str i = (if m (str + i) \<noteq> 0 then strlen_from m str (i + 1) else Some i)"

definition strlen :: "u32 \<Rightarrow> machine \<Rightarrow> u32 option" where
  "strlen str st = strlen_from (mem st) str 0"

partial_function (option) strcmp_loop :: "memory \<Rightarrow> u32 \<Rightarrow> u32 \<Rightarrow> u32 option" where
  "strcmp_loop m s1 s2 =
     (if m s1 \<noteq> 0 \<and> m s1 = m s2 then strcmp_loop m (s1 + 1) (s2 + 1)
      else Some (ucast (m s1) - ucast (m s2)))"

definition strcmp :: "u32 \<Rightarrow> u32 \<Rightarrow> machine \<Rightarrow> u32 option" where
  "strcmp s1 s2 st = strcmp_loop (mem st) s1 s2"

partial_function (option) strchr_loop :: "memory \<Rightarrow> u32 \<Rightarrow> u32 \<Rightarrow> u32 option" where
  "strchr_loop m s c =
     (if m s \<noteq> 0 then if ucast (m s) = c then Some s else strchr_loop m (s + 1) c
      else Some 0)"

definition strchr :: "u32 \<Rightarrow> u32 \<Rightarrow> machine \<Rightarrow> u32 option" where
  "strchr s c st = strchr_loop (mem st) s c"

partial_function (option) strcpy_loop :: "memory \<Rightarrow> u32 \<Rightarrow> u32 \<Rightarrow> memory option" where
  "strcpy_loop m d src =
     (if m src \<noteq> 0 then strcpy_loop (m(d := m src)) (d + 1) (src + 1) else Some (m(d := 0)))"

definition strcpy :: "u32 \<Rightarrow> u32 \<Rightarrow> machine \<Rightarrow> (u32 \<times> machine) option" where
  "strcpy dest src st = map_option (\<lambda>m. (dest, st\<lparr>mem := m\<rparr>)) (strcpy_loop (mem st) dest src)"

partial_function (option) strend_loop :: "memory \<Rightarrow> u32 \<Rightarrow> u32 option" where
  "strend_loop m d = (if m d \<noteq> 0 then strend_loop m (d + 1) else Some d)"

definition strcat :: "u32 \<Rightarrow> u32 \<Rightarrow> machine \<Rightarrow> (u32 \<times> machine) option" where
  "strcat dest src st =
     (case strend_loop (mem st) dest of
        None \<Rightarrow> None
      | Some d \<Rightarrow> map_option (\<lambda>m. (dest, st\<lparr>mem := m\<rparr>)) (strcpy_loop (mem st) d src))"

partial_function (option) strstr_loop :: "memory \<Rightarrow> u32 \<Rightarrow> u32 \<Rightarrow> u32 option" where
  "strstr_loop m haystack needle =
     (if m haystack \<noteq> 0 then
        case strcmp_loop m haystack needle of
          None \<Rightarrow> None
        | Some r \<Rightarrow> if r = 0 then Some haystack else strstr_loop m (haystack + 1) needle
      else Some 0)"

definition strstr :: "u32 \<Rightarrow> u32 \<Rightarrow> machine \<Rightarrow> u32 option" where
  "strstr haystack needle st = strstr_loop (mem st) haystack needle"

section \<open>What the loops compute\<close>

lemma strlen_from_cstr:
  "cstr m (p + i) s \<Longrightarrow> strlen_from m p i = Some (i + of_nat (length s))"
proof (induction s arbitrary: i)
  case Nil
  then show ?case by (subst strlen_from.simps) simp
next
  case (Cons c cs)
  have "strlen_from m p (i + 1) = Some (i + 1 + of_nat (length cs))"
    using Cons.prems by (intro Cons.IH) (simp add: add.assoc)
  with Cons.prems show ?case by (subst strlen_from.simps) (simp add: add.assoc)
qed

lemma strlen_from_returns:
  assumes "strlen_from m p i = Some r"
  shows "\<exists>s. cstr m (p + i) s \<and> r = i + of_nat (length s)"
proof (rule strlen_from.raw_induct
    [where P = "\<lambda>m p i r. \<exists>s. cstr m (p + i) s \<and> r = i + of_nat (length s)", OF _ assms])
  fix f :: "memory \<Rightarrow> u32 \<Rightarrow> u32 \<Rightarrow> u32 option" and m p i r
  assume IH: "\<And>m p i r. f m p i = Some r \<Longrightarrow> \<exists>s. cstr m (p + i) s \<and> r = i + of_nat (length s)"
    and eq: "(if m (p + i) \<noteq> 0 then f m p (i + 1) else Some i) = Some r"
  show "\<exists>s. cstr m (p + i) s \<and> r = i + of_nat (length s)"
  proof (cases "m (p + i) = 0")
    case True
    with eq show ?thesis by (intro exI [of _ "[]"]) simp
  next
    case False
    with eq IH [of m p "i + 1" r] obtain s
      where "cstr m (p + (i + 1)) s" "r = i + 1 + of_nat (length s)" by auto
    with False show ?thesis by (intro exI [of _ "m (p + i) # s"]) (simp add: add.assoc)
  qed
qed

text \<open>The difference of two \<open>unsigned char\<close>s as an \<open>int\<close> does not overflow.\<close>

lemma sint_byte_diff:
  fixes a b :: byte
  shows "sint (ucast a - ucast b :: u32) = int (unat a) - int (unat b)"
proof -
  have u: "uint x < 256" for x :: byte using uint_bounded [of x] by simp
  have "- 2147483648 \<le> uint a - uint b" and "uint a - uint b < 2147483648"
    using u [of a] u [of b] uint_ge_0 [of a] uint_ge_0 [of b] by linarith+
  then show ?thesis using sint_of_int32 [of "uint a - uint b"] by simp
qed

lemma byte_diff_facts:
  fixes a b :: byte
  shows "(ucast a - ucast b :: u32) = 0 \<longleftrightarrow> a = b" and "sint (ucast a - ucast b :: u32) < 0 \<longleftrightarrow> a < b"
proof -
  have "a = b" if "(ucast a - ucast b :: u32) = 0"
    using sint_byte_diff [of a b] that by (simp add: word_uint_eq_iff)
  then show "(ucast a - ucast b :: u32) = 0 \<longleftrightarrow> a = b" by auto
  show "sint (ucast a - ucast b :: u32) < 0 \<longleftrightarrow> a < b"
    by (simp only: sint_byte_diff) (simp add: word_less_alt)
qed

lemma strcmp_loop_cstr:
  assumes "cstr m p s" and "cstr m q t"
  shows "\<exists>r. strcmp_loop m p q = Some r \<and> (r = 0 \<longleftrightarrow> s = t) \<and> (sint r < 0 \<longleftrightarrow> ord_class.lexordp s t)"
  using assms
proof (induction s arbitrary: p q t)
  case Nil
  then show ?case
    using byte_diff_facts [of "m p" "m q"]
    by (subst strcmp_loop.simps) (cases t, auto simp: word_gt_0)
next
  case (Cons c cs)
  show ?case
  proof (cases t)
    case Nil
    with Cons.prems show ?thesis
      using byte_diff_facts [of "m p" "m q"] by (subst strcmp_loop.simps) auto
  next
    case (Cons d ds)
    show ?thesis
    proof (cases "c = d")
      case True
      with Cons Cons.prems Cons.IH [of "p + 1" "q + 1" ds] show ?thesis
        by (subst strcmp_loop.simps) auto
    next
      case False
      with Cons Cons.prems show ?thesis
        using byte_diff_facts [of "m p" "m q"] by (subst strcmp_loop.simps) auto
    qed
  qed
qed

lemma strchr_loop_cstr:
  "cstr m p s \<Longrightarrow> strchr_loop m p c =
     Some (if c \<in> ucast ` set s then p + of_nat (length (takeWhile (\<lambda>b. ucast b \<noteq> c) s)) else 0)"
proof (induction s arbitrary: p)
  case Nil
  then show ?case by (subst strchr_loop.simps) simp
next
  case (Cons b bs)
  then show ?case by (subst strchr_loop.simps) (auto simp: add.assoc)
qed

lemma strend_loop_cstr: "cstr m p s \<Longrightarrow> strend_loop m p = Some (p + of_nat (length s))"
proof (induction s arbitrary: p)
  case Nil
  then show ?case by (subst strend_loop.simps) simp
next
  case (Cons b bs)
  then show ?case by (subst strend_loop.simps) (simp add: add.assoc)
qed

text \<open>
  The copy is right when the destination does not start inside the source string or on its
  terminator; a destination that starts below the source and overlaps it is fine.
\<close>

lemma strcpy_loop_cstr:
  assumes "cstr m src s" and "length s < unat (d - src)"
  shows "strcpy_loop m d src = Some (write_bytes d (s @ [0]) m)"
  using assms
proof (induction s arbitrary: m d src)
  case Nil
  have "write_bytes (d + 1) [] (m(d := 0)) = write_bytes d [0] m"
    by (rule write_bytes_Cons) simp
  with Nil show ?case by (subst strcpy_loop.simps) simp
next
  case (Cons c cs)
  have ne: "src + 1 + of_nat i \<noteq> d" if "i \<le> length cs" for i
  proof
    assume "src + 1 + of_nat i = d"
    then have "d - src = of_nat (Suc i)" by (simp add: algebra_simps)
    then have "unat (d - src) \<le> Suc i" by (simp add: unat_of_nat take_bit_nat_less_eq_self del: of_nat_Suc)
    with that Cons.prems show False by simp
  qed
  have "cstr (m(d := c)) (src + 1) cs"
    using Cons.prems(1) ne by (subst cstr_cong [of _ _ _ m]) auto
  moreover have "length cs < unat (d + 1 - (src + 1))" using Cons.prems(2) by simp
  ultimately have "strcpy_loop (m(d := c)) (d + 1) (src + 1)
      = Some (write_bytes (d + 1) (cs @ [0]) (m(d := c)))"
    by (rule Cons.IH)
  moreover have "length (cs @ [0]) < 2 ^ 32"
    using Cons.prems(2) unat_u32_bound [of "d - src"] by simp
  ultimately show ?case
    using Cons.prems(1) by (subst strcpy_loop.simps) (simp add: write_bytes_Cons)
qed

text \<open>
  \<open>strstr\<close> asks \<open>strcmp\<close> whether the whole rest of the haystack is the needle, so it finds the
  needle only where the haystack ends with it.
\<close>

lemma strstr_loop_cstr:
  assumes "cstr m h hs" and "cstr m n ns"
  shows "strstr_loop m h n
    = Some (if ns \<noteq> [] \<and> suffix ns hs then h + of_nat (length hs - length ns) else 0)"
  using assms(1)
proof (induction hs arbitrary: h)
  case Nil
  then show ?case by (subst strstr_loop.simps) simp
next
  case (Cons c cs)
  from strcmp_loop_cstr [OF Cons.prems assms(2)] obtain r
    where r: "strcmp_loop m h n = Some r" "r = 0 \<longleftrightarrow> c # cs = ns" by blast
  have "h + 1 + of_nat (length cs - length ns) = h + of_nat (Suc (length cs) - length ns)"
    if "suffix ns cs"
    using suffix_length_le [OF that] by (simp add: Suc_diff_le add.assoc)
  then show ?case
    using Cons.prems Cons.IH [of "h + 1"] r
    by (subst strstr_loop.simps) (auto simp: suffix_Cons)
qed

lemma strlen_cstr: "cstr (mem st) p s \<Longrightarrow> strlen p st = Some (of_nat (length s))"
  using strlen_from_cstr [of "mem st" p 0] by (simp add: strlen_def)

section \<open>Properties\<close>

text \<open>
  \<open>strlen\<close> returns exactly when a C string stands at its argument, and then with that
  string's length: it neither misses a terminator nor stops early.
\<close>

theorem strlen_spec:
  "strlen p st = Some n \<longleftrightarrow> (\<exists>s. cstr (mem st) p s \<and> n = of_nat (length s))"
  using strlen_from_cstr [of "mem st" p 0] strlen_from_returns [of "mem st" p 0 n]
  by (auto simp: strlen_def)

text \<open>
  \<open>strcmp\<close> terminates on two C strings; its result is 0 exactly for equal strings and
  negative exactly when the first is smaller in the order of \<open>unsigned char\<close> strings.
\<close>

theorem strcmp_spec:
  assumes "cstr (mem st) p s" and "cstr (mem st) q t"
  shows "\<exists>r. strcmp p q st = Some r \<and> (r = 0 \<longleftrightarrow> s = t)
    \<and> (sint r < 0 \<longleftrightarrow> ord_class.lexordp s t)"
  unfolding strcmp_def using assms by (rule strcmp_loop_cstr)

theorem strcmp_spec_witness:
  "\<exists>r. strcmp 0 8 (boot (write_bytes 0 [97, 98] (write_bytes 8 [97, 99] (\<lambda>_. 0)))) = Some r
     \<and> r \<noteq> 0 \<and> sint r < 0"
proof -
  let ?st = "boot (write_bytes 0 [97, 98] (write_bytes 8 [97, 99] (\<lambda>_. 0)))"
  have "cstr (mem ?st) 0 [97, 98]" and "cstr (mem ?st) 8 [97, 99]"
    by (simp_all add: write_bytes_def)
  from strcmp_spec [OF this] show ?thesis by auto
qed

text \<open>
  \<open>strchr\<close> returns the address of the first character equal to \<open>c\<close> (compared as \<open>int\<close>), and
  NULL when there is none; the terminator is never found, so \<open>strchr(s, 0)\<close> is NULL.
\<close>

theorem strchr_spec:
  assumes "cstr (mem st) p s"
  shows "strchr p c st = Some (if c \<in> ucast ` set s
    then p + of_nat (length (takeWhile (\<lambda>b. ucast b \<noteq> c) s)) else 0)"
  unfolding strchr_def using assms by (rule strchr_loop_cstr)

theorem strchr_spec_witness:
  "strchr 4 98 (boot (write_bytes 4 [97, 98, 99] (\<lambda>_. 0))) = Some 5
   \<and> strchr 4 0 (boot (write_bytes 4 [97, 98, 99] (\<lambda>_. 0))) = Some 0"
proof -
  let ?st = "boot (write_bytes 4 [97, 98, 99] (\<lambda>_. 0))"
  have "cstr (mem ?st) 4 [97, 98, 99]" by (simp add: write_bytes_def)
  from strchr_spec [OF this, where c = 98] strchr_spec [OF this, where c = 0] show ?thesis by simp
qed

text \<open>
  \<open>strcpy\<close> writes the source string with its terminator at \<open>dest\<close>, changes no other byte and
  returns \<open>dest\<close>, provided \<open>dest\<close> does not point into the source string.
\<close>

theorem strcpy_spec:
  assumes "cstr (mem st) src s" and "length s < unat (dest - src)"
  shows "strcpy dest src st = Some (dest, st\<lparr>mem := write_bytes dest (s @ [0]) (mem st)\<rparr>)"
  using assms by (simp add: strcpy_def strcpy_loop_cstr)

theorem strcpy_spec_witness:
  "map_option (\<lambda>(p, st). bytes (mem st) p 5)
     (strcpy 9 4 (boot (write_bytes 4 [97, 98, 99, 0] (\<lambda>_. 7)))) = Some [97, 98, 99, 0, 7]"
proof -
  let ?st = "boot (write_bytes 4 [97, 98, 99, 0] (\<lambda>_. 7))"
  have "cstr (mem ?st) 4 [97, 98, 99]" by (simp add: write_bytes_def)
  then have "strcpy 9 4 ?st = Some (9, ?st\<lparr>mem := write_bytes 9 ([97, 98, 99] @ [0]) (mem ?st)\<rparr>)"
    by (rule strcpy_spec) simp
  then show ?thesis by (simp add: bytes_def write_bytes_def upt_rec)
qed

text \<open>
  \<open>strcat\<close> appends: it writes the source with its terminator over the terminator of the
  destination, so that the destination then holds the concatenation.
\<close>

theorem strcat_spec:
  assumes "cstr (mem st) dest t" and "cstr (mem st) src s"
    and "length s < unat (dest + of_nat (length t) - src)" and "length t + length s < 2 ^ 32"
  shows "\<exists>m'. strcat dest src st = Some (dest, st\<lparr>mem := m'\<rparr>) \<and> cstr m' dest (t @ s)
    \<and> m' = write_bytes (dest + of_nat (length t)) (s @ [0]) (mem st)"
proof -
  have "write_bytes dest t (mem st) = mem st"
    using assms(1) by (intro write_bytes_same) (simp add: cstr_bytes)
  then have "write_bytes (dest + of_nat (length t)) (s @ [0]) (mem st)
      = write_bytes dest ((t @ s) @ [0]) (mem st)"
    using write_bytes_append [of t "s @ [0]" dest "mem st"] assms(4) by simp
  moreover have "cstr (write_bytes dest ((t @ s) @ [0]) (mem st)) dest (t @ s)"
    using assms by (intro cstr_write_bytes) (auto simp: cstr_bytes)
  ultimately show ?thesis
    using assms by (simp add: strcat_def strend_loop_cstr strcpy_loop_cstr)
qed

theorem strcat_spec_witness:
  "\<exists>m'. strcat 16 4 (boot (write_bytes 4 [98, 99] (write_bytes 16 [97] (\<lambda>_. 0))))
     = Some (16, boot m') \<and> cstr m' 16 [97, 98, 99]"
proof -
  let ?st = "boot (write_bytes 4 [98, 99] (write_bytes 16 [97] (\<lambda>_. 0)))"
  have "cstr (mem ?st) 16 [97]" "cstr (mem ?st) 4 [98, 99]" by (simp_all add: write_bytes_def)
  from strcat_spec [OF this] show ?thesis by (auto simp: boot_def)
qed

text \<open>
  \<open>strstr\<close> terminates on two C strings and returns a non-NULL pointer only when the needle
  is a non-empty suffix of the haystack: a needle that occurs in the middle is not found, and
  neither is the empty one.
\<close>

theorem strstr_spec:
  assumes "cstr (mem st) h hs" and "cstr (mem st) n ns"
  shows "strstr h n st
    = Some (if ns \<noteq> [] \<and> suffix ns hs then h + of_nat (length hs - length ns) else 0)"
  unfolding strstr_def using assms by (rule strstr_loop_cstr)

theorem strstr_spec_witness:
  "strstr 4 16 (boot (write_bytes 4 [97, 98, 99] (write_bytes 16 [98] (\<lambda>_. 0)))) = Some 0
   \<and> strstr 4 16 (boot (write_bytes 4 [97, 98, 99] (write_bytes 16 [98, 99] (\<lambda>_. 0)))) = Some 5"
proof -
  let ?st = "\<lambda>n. boot (write_bytes 4 [97, 98, 99] (write_bytes 16 n (\<lambda>_. 0)))"
  have h: "cstr (mem (?st [98])) 4 [97, 98, 99]" "cstr (mem (?st [98, 99])) 4 [97, 98, 99]"
    and n: "cstr (mem (?st [98])) 16 [98]" "cstr (mem (?st [98, 99])) 16 [98, 99]"
    by (simp_all add: write_bytes_def)
  from strstr_spec [OF h(1) n(1)] strstr_spec [OF h(2) n(2)] show ?thesis
    by (simp add: suffix_Cons)
qed

end
