(* ===== verification/StringObj.thy ===== *)
theory StringObj
  imports Alloc CString
begin

text \<open>
  The growable strings of \<open>c_test/string.c\<close>: the struct \<open>string\<close> (\<open>data\<close> at 0, \<open>length\<close> at 4,
  \<open>capacity\<close> at 8), its operations over the heap of \<open>mem.c\<close>, and their meaning as operations on
  byte lists.
\<close>

section \<open>The struct\<close>

definition SIZEOF_STRING :: u32 where "SIZEOF_STRING = 12"

definition str_data :: "machine \<Rightarrow> u32 \<Rightarrow> u32" where "str_data st s = load32 (mem st) s"
definition str_length :: "machine \<Rightarrow> u32 \<Rightarrow> u32" where "str_length st s = load32 (mem st) (s + 4)"
definition str_capacity :: "machine \<Rightarrow> u32 \<Rightarrow> u32" where "str_capacity st s = load32 (mem st) (s + 8)"

definition set_data :: "u32 \<Rightarrow> u32 \<Rightarrow> machine \<Rightarrow> machine" where
  "set_data s v st = st\<lparr>mem := store32 s v (mem st)\<rparr>"
definition set_length :: "u32 \<Rightarrow> u32 \<Rightarrow> machine \<Rightarrow> machine" where
  "set_length s v st = st\<lparr>mem := store32 (s + 4) v (mem st)\<rparr>"
definition set_capacity :: "u32 \<Rightarrow> u32 \<Rightarrow> machine \<Rightarrow> machine" where
  "set_capacity s v st = st\<lparr>mem := store32 (s + 8) v (mem st)\<rparr>"

definition put_byte :: "u32 \<Rightarrow> byte \<Rightarrow> machine \<Rightarrow> machine" where
  "put_byte a v st = st\<lparr>mem := (mem st)(a := v)\<rparr>"

section \<open>The operations\<close>

definition string_new_len :: "u32 \<Rightarrow> u32 \<Rightarrow> machine \<Rightarrow> (u32 \<times> machine) option" where
  "string_new_len data len st = do {
     (str, st) \<leftarrow> malloc SIZEOF_STRING st;
     if str = 0 then Some (0, st)
     else do {
       (buf, st) \<leftarrow> malloc (len + 1) st;
       let st = set_data str buf st;
       if str_data st str = 0 then Some (0, free str st)
       else
         let (_, st) = memcpy (str_data st str) data len st;
             st = set_length str len st;
             st = set_capacity str (len + 1) st
         in Some (str, st)
     }
   }"

definition string_new :: "u32 \<Rightarrow> machine \<Rightarrow> (u32 \<times> machine) option" where
  "string_new data st = do { n \<leftarrow> strlen data st; string_new_len data n st }"

definition string_grow :: "u32 \<Rightarrow> u32 \<Rightarrow> machine \<Rightarrow> machine option" where
  "string_grow str new_capacity st =
     (if new_capacity \<le> str_capacity st str then Some st
      else do {
        (new_data, st) \<leftarrow> malloc new_capacity st;
        if new_data = 0 then Some st
        else
          let (_, st) = memcpy new_data (str_data st str) (str_length st str) st;
              st = free (str_data st str) st;
              st = set_data str new_data st;
              st = set_capacity str new_capacity st
          in Some st
      })"

definition string_shrink :: "u32 \<Rightarrow> machine \<Rightarrow> machine option" where
  "string_shrink str st = string_grow str (str_length st str + 1) st"

definition string_copy :: "u32 \<Rightarrow> machine \<Rightarrow> (u32 \<times> machine) option" where
  "string_copy str st = string_new_len (str_data st str) (str_length st str) st"

text \<open>The growth both appends start with: room for \<open>extra\<close> more bytes, at least doubling.\<close>

definition make_room :: "u32 \<Rightarrow> u32 \<Rightarrow> machine \<Rightarrow> machine option" where
  "make_room str extra st =
     (if str_length st str + extra \<ge> str_capacity st str then
        let new_capacity = str_capacity st str * 2;
            new_capacity = (if new_capacity < str_length st str + extra
                            then str_length st str + extra else new_capacity)
        in string_grow str new_capacity st
      else Some st)"

definition string_append_len :: "u32 \<Rightarrow> u32 \<Rightarrow> u32 \<Rightarrow> machine \<Rightarrow> machine option" where
  "string_append_len str data len st = do {
     st \<leftarrow> make_room str len st;
     let (_, st) = memcpy (str_data st str + str_length st str) data len st;
     let st = set_length str (str_length st str + len) st;
     Some (put_byte (str_data st str + str_length st str) 0 st)
   }"

definition string_append :: "u32 \<Rightarrow> u32 \<Rightarrow> machine \<Rightarrow> machine option" where
  "string_append str data st = do { n \<leftarrow> strlen data st; string_append_len str data n st }"

definition string_append_char :: "u32 \<Rightarrow> byte \<Rightarrow> machine \<Rightarrow> machine option" where
  "string_append_char str c st = do {
     st \<leftarrow> make_room str 1 st;
     let st = put_byte (str_data st str + str_length st str) c st;
     let st = set_length str (str_length st str + 1) st;
     Some (put_byte (str_data st str + str_length st str) 0 st)
   }"

definition string_data :: "u32 \<Rightarrow> machine \<Rightarrow> (u32 \<times> machine) option" where
  "string_data str st = do {
     st \<leftarrow> string_append_char str 0 st;
     Some (str_data st str, st)
   }"

definition free_str :: "u32 \<Rightarrow> machine \<Rightarrow> machine" where
  "free_str str st = free str (free (str_data st str) st)"

section \<open>Reading and writing the fields\<close>

lemma str_fields [simp]:
  "str_data (set_data s v st) s = v" "str_data (set_length s v st) s = str_data st s"
  "str_data (set_capacity s v st) s = str_data st s"
  "str_length (set_data s v st) s = str_length st s" "str_length (set_length s v st) s = v"
  "str_length (set_capacity s v st) s = str_length st s"
  "str_capacity (set_data s v st) s = str_capacity st s"
  "str_capacity (set_length s v st) s = str_capacity st s"
  "str_capacity (set_capacity s v st) s = v"
  by (simp_all add: str_data_def str_length_def str_capacity_def set_data_def set_length_def
      set_capacity_def mem_simps apart_def)

lemma str_cong:
  assumes "\<And>x. span s 12 x \<Longrightarrow> mem st' x = mem st x"
  shows "str_data st' s = str_data st s" "str_length st' s = str_length st s"
    "str_capacity st' s = str_capacity st s"
proof -
  have in12: "span s 12 x" if "span (s + i) 4 x" "unat i + 4 \<le> 12" for i x
    using span_sub [of s i 4 x 12] that by simp
  show "str_data st' s = str_data st s" "str_length st' s = str_length st s"
    "str_capacity st' s = str_capacity st s"
    using assms in12 [of 0] in12 [of 4] in12 [of 8]
    by (auto simp: str_data_def str_length_def str_capacity_def intro!: load32_eq_span)
qed

lemma set_field_frame:
  assumes "\<not> span s 12 x"
  shows "mem (set_data s v st) x = mem st x" "mem (set_length s v st) x = mem st x"
    "mem (set_capacity s v st) x = mem st x"
proof -
  have out: "\<not> span (s + i) 4 x" if "unat i + 4 \<le> 12" for i
    using span_sub [of s i 4 x 12] assms that by auto
  show "mem (set_data s v st) x = mem st x" "mem (set_length s v st) x = mem st x"
    "mem (set_capacity s v st) x = mem st x"
    using out [of 0] out [of 4] out [of 8]
    by (simp_all add: set_data_def set_length_def set_capacity_def store32_outside)
qed

lemma set_field_owns:
  assumes "heap_owns st L" and "(s, 12) \<in> set L"
  shows "heap_owns (set_data s v st) L" "heap_owns (set_length s v st) L"
    "heap_owns (set_capacity s v st) L"
proof -
  have in12: "span s 12 x" if "span (s + i) 4 x" "unat i + 4 \<le> 12" for i x
    using span_sub [of s i 4 x 12] that by simp
  show "heap_owns (set_data s v st) L" "heap_owns (set_length s v st) L"
    "heap_owns (set_capacity s v st) L"
    unfolding set_data_def set_length_def set_capacity_def
    by (rule heap.store32_ok [OF assms], use in12 [of 0] in12 [of 4] in12 [of 8] in simp)+
qed

text \<open>The string operations do no input or output.\<close>

lemma set_io [simp]:
  "uart_in (set_data s v st) = uart_in st" "uart_in (set_length s v st) = uart_in st"
  "uart_in (set_capacity s v st) = uart_in st" "uart_in (put_byte a c st) = uart_in st"
  "uart_out (set_data s v st) = uart_out st" "uart_out (set_length s v st) = uart_out st"
  "uart_out (set_capacity s v st) = uart_out st" "uart_out (put_byte a c st) = uart_out st"
  by (simp_all add: set_data_def set_length_def set_capacity_def put_byte_def)

lemma string_grow_io:
  "string_grow s n st = Some st' \<Longrightarrow> uart_in st' = uart_in st \<and> uart_out st' = uart_out st"
  by (auto simp: string_grow_def bind_eq_Some_conv split_def Let_def free_io dest: malloc_io
      split: if_splits)

lemma string_new_len_io:
  "string_new_len data n st = Some (s, st') \<Longrightarrow> uart_in st' = uart_in st \<and> uart_out st' = uart_out st"
  by (auto simp: string_new_len_def bind_eq_Some_conv split_def Let_def free_io dest!: malloc_io
      split: if_splits)

lemma string_append_char_io:
  "string_append_char s c st = Some st' \<Longrightarrow> uart_in st' = uart_in st \<and> uart_out st' = uart_out st"
  by (auto simp: string_append_char_def make_room_def bind_eq_Some_conv Let_def dest!: string_grow_io
      split: if_splits)

section \<open>Strings as byte lists\<close>

text \<open>
  \<open>string_at st L s d cap xs\<close>: the struct at \<open>s\<close> and its buffer of \<open>cap\<close> bytes at \<open>d\<close> are two
  blocks of the heap, and the string's bytes are \<open>xs\<close>. Nothing is said of a terminator.
\<close>

definition string_at ::
  "machine \<Rightarrow> (u32 \<times> u32) list \<Rightarrow> u32 \<Rightarrow> u32 \<Rightarrow> u32 \<Rightarrow> byte list \<Rightarrow> bool" where
  "string_at st L s d cap xs \<longleftrightarrow> heap_owns st L \<and> (s, 12) \<in> set L \<and> (d, cap) \<in> set L
     \<and> apart s 12 d cap \<and> str_data st s = d \<and> str_length st s = of_nat (length xs)
     \<and> str_capacity st s = cap \<and> length xs \<le> unat cap \<and> bytes (mem st) d (length xs) = xs"

lemma string_atD:
  assumes "string_at st L s d cap xs"
  shows "heap_owns st L" "(s, 12) \<in> set L" "(d, cap) \<in> set L" "apart s 12 d cap"
    "str_data st s = d" "str_length st s = of_nat (length xs)" "str_capacity st s = cap"
    "length xs \<le> unat cap" "bytes (mem st) d (length xs) = xs"
  using assms by (simp_all add: string_at_def)

lemma heap_owns_size:
  assumes "heap_owns st L" and "(p, n) \<in> set L"
  shows "unat n < HEAP_SIZE" "p \<noteq> 0"
proof -
  from assms obtain bs e a k where h: "heap_inv st bs e" "L = map payload (rev bs)" "(a, k) \<in> set bs"
    "p = adr (a + 13)" "n = of_nat k" "chain 0 bs e" "e < HEAP_SIZE" by (rule heap_ownsE)
  from chain_bounds [OF h(6,3)] h(7) show "unat n < HEAP_SIZE" "p \<noteq> 0"
    by (auto simp: h(4,5) unat_of_nat32 HEAP_SIZE_def adr_nonzero)
qed

lemma span_prefix: "i < n \<Longrightarrow> n \<le> unat k \<Longrightarrow> span p k (p + of_nat i)"
  using unat_of_nat32 [of i] unat_u32_bound [of k] by (simp add: word_less_nat_alt)

lemma span_of_nat: "n \<le> unat k \<Longrightarrow> span p (of_nat n) x \<Longrightarrow> span p k x"
  using unat_of_nat32 [of n] unat_u32_bound [of k] by (auto simp: word_le_nat_alt elim: span_less)

lemma bytes_frame:
  "(\<And>x. span p k x \<Longrightarrow> m' x = m x) \<Longrightarrow> n \<le> unat k \<Longrightarrow> bytes m' p n = bytes m p n"
  by (intro bytes_cong) (metis span_prefix)

text \<open>A step that leaves the struct and the buffer alone leaves the string alone.\<close>

lemma string_at_frame:
  assumes "string_at st L s d cap xs" and "heap_owns st' L'" and "set L \<subseteq> set L'"
    and "\<And>x. span s 12 x \<or> span d cap x \<Longrightarrow> mem st' x = mem st x"
  shows "string_at st' L' s d cap xs"
  using assms(1-3) str_cong [of s st' st] bytes_frame [of d cap "mem st'" "mem st"] assms(4)
  unfolding string_at_def by auto

text \<open>
  The common end of both appends, once the new bytes \<open>ys\<close> stand behind the old ones: the length
  is updated and a terminator stored. If the buffer is now full the terminator lands one byte
  behind it, on the padding between two blocks.
\<close>

lemma append_tail:
  assumes str: "string_at st L s d cap xs" and fits: "length xs + length ys \<le> unat cap"
    and own: "heap_owns st1 L"
    and frame: "\<And>x. \<not> span (d + of_nat (length xs)) (of_nat (length ys)) x \<Longrightarrow> mem st1 x = mem st x"
    and new: "bytes (mem st1) (d + of_nat (length xs)) (length ys) = ys"
  defines "st2 \<equiv> set_length s (str_length st1 s + of_nat (length ys)) st1"
  defines "st3 \<equiv> put_byte (str_data st2 s + str_length st2 s) 0 st2"
  shows "string_at st3 L s d cap (xs @ ys) \<and> mem st3 (d + of_nat (length (xs @ ys))) = 0
    \<and> (\<forall>x. client in_heap L x \<longrightarrow> \<not> span s 12 x \<longrightarrow> \<not> span d cap x \<longrightarrow> mem st3 x = mem st x)"
proof -
  note s = string_atD [OF str]
  let ?n = "length xs + length ys"
  have cap: "unat cap < 2 ^ 22" using heap_owns_size(1) [OF s(1,3)] by (simp add: HEAP_SIZE_def)
  have tail: "span d cap x" if "span (d + of_nat (length xs)) (of_nat (length ys)) x" for x
    using span_sub [OF that] fits cap by (simp add: unat_of_nat32)
  have off: "\<not> span s 12 x \<or> \<not> span d cap x" for x using s(4) apartD by blast
  have end_at: "d + of_nat ?n = d + cap \<or> span d cap (d + of_nat ?n)"
    using fits cap span_prefix [of ?n "Suc ?n" cap d] by (cases "?n = unat cap") auto
  then have end_s: "\<not> span s 12 (d + of_nat ?n)"
    using slack_store_ok [OF s(1,3)] client_block [OF s(2)] off by metis
  have f1: "str_data st1 s = d" "str_length st1 s = of_nat (length xs)" "str_capacity st1 s = cap"
    using str_cong [of s st1 st] frame tail off s(5-7) by metis+
  have st2: "str_data st2 s = d" "str_length st2 s = of_nat ?n" "str_capacity st2 s = cap"
    by (simp_all add: st2_def f1)
  have own2: "heap_owns st2 L" unfolding st2_def by (rule set_field_owns(2) [OF own s(2)])
  have own3: "heap_owns st3 L"
    using end_at slack_store_ok [OF own2 s(3)] heap.store_ok [OF own2 s(3)]
    by (auto simp: st3_def put_byte_def st2)
  have m3: "mem st3 x = mem st1 x" if "\<not> span s 12 x" "x \<noteq> d + of_nat ?n" for x
    using that by (simp add: st3_def put_byte_def st2) (simp add: st2_def set_field_frame)
  have f3: "str_data st3 s = d" "str_length st3 s = of_nat ?n" "str_capacity st3 s = cap"
  proof -
    have "mem st3 x = mem st2 x" if "span s 12 x" for x
      using that end_s by (auto simp: st3_def put_byte_def st2)
    from str_cong [OF this] st2 show "str_data st3 s = d" "str_length st3 s = of_nat ?n"
      "str_capacity st3 s = cap" by simp_all
  qed
  have old: "mem st3 (d + of_nat i) = xs ! i" if "i < length xs" for i
  proof -
    have i: "span d cap (d + of_nat i)" using span_prefix [OF that] s(8) by simp
    have "d + of_nat i \<noteq> d + of_nat ?n"
      using that fits cap by (simp add: of_nat32_inject del: of_nat_add)
    moreover have "\<not> span (d + of_nat (length xs)) (of_nat (length ys)) (d + of_nat i)"
    proof
      assume "span (d + of_nat (length xs)) (of_nat (length ys)) (d + of_nat i)"
      then obtain j where j: "d + of_nat i = d + of_nat (length xs) + j" "j < of_nat (length ys)"
        by (rule spanE)
      then have "unat j < length ys" using fits cap by (simp add: word_less_nat_alt unat_of_nat32)
      moreover have "of_nat i = (of_nat (length xs + unat j) :: u32)" using j(1) by (simp add: add.assoc)
      ultimately show False using that fits cap by (simp add: of_nat32_inject del: of_nat_add)
    qed
    ultimately have "mem st3 (d + of_nat i) = mem st (d + of_nat i)"
      using m3 [of "d + of_nat i"] frame off i by metis
    then show ?thesis using s(9) bytes_nth [OF that, of "mem st" d] by simp
  qed
  have fresh: "mem st3 (d + of_nat (length xs + j)) = ys ! j" if "j < length ys" for j
  proof -
    have "span d cap (d + of_nat (length xs + j))" using that fits by (intro span_prefix [of _ ?n]) auto
    moreover have "d + of_nat (length xs + j) \<noteq> d + of_nat ?n"
      using that fits cap by (simp add: of_nat32_inject del: of_nat_add)
    ultimately have "mem st3 (d + of_nat (length xs + j)) = mem st1 (d + of_nat (length xs + j))"
      using m3 off by metis
    then show ?thesis using new bytes_nth [OF that, of "mem st1" "d + of_nat (length xs)"]
      by (simp add: add.assoc)
  qed
  have "bytes (mem st3) d ?n = xs @ ys"
  proof (rule nth_equalityI)
    fix i assume "i < length (bytes (mem st3) d ?n)"
    then show "bytes (mem st3) d ?n ! i = (xs @ ys) ! i"
      using old [of i] fresh [of "i - length xs"] by (auto simp: bytes_nth nth_append)
  qed simp
  moreover have "mem st3 (d + of_nat (length (xs @ ys))) = 0"
    by (simp add: st3_def put_byte_def st2)
  moreover have "mem st3 x = mem st x" if "client in_heap L x" "\<not> span s 12 x" "\<not> span d cap x" for x
    using that m3 [of x] frame [of x] tail [of x] end_at slack_store_ok [OF s(1,3)] by metis
  ultimately show ?thesis
    using own3 s(2-4) f3 fits by (simp add: string_at_def)
qed

text \<open>Growing moves the string to a new, larger buffer; its bytes and all other objects stay.\<close>

lemma string_grow_at:
  assumes str: "string_at st L s d cap xs" and room: "heap_room L nc" and gt: "cap < nc"
  shows "\<exists>d' st'. string_grow s nc st = Some st' \<and> string_at st' ((d', nc) # L) s d' nc xs
    \<and> (\<forall>x. client in_heap L x \<longrightarrow> \<not> span d' nc x \<and> (\<not> span s 12 x \<longrightarrow> mem st' x = mem st x))"
proof -
  note s = string_atD [OF str]
  from heap.alloc_frame [OF s(1) room] obtain d' st1 where a: "malloc nc st = Some (d', st1)" "d' \<noteq> 0"
    "heap_owns st1 ((d', nc) # L)" "\<And>x. client in_heap L x \<Longrightarrow> mem st1 x = mem st x"
    "\<And>x. client in_heap L x \<Longrightarrow> \<not> span d' nc x" by blast
  let ?L = "(d', nc) # L" and ?k = "of_nat (length xs) :: u32"
  have inL: "(s, 12) \<in> set ?L" "(d, cap) \<in> set ?L" using s(2,3) by auto
  have ap_s: "apart d' nc s 12" by (rule heap.fresh [OF a(3) s(2)])
  have ap_d: "apart d' nc d cap" by (rule heap.fresh [OF a(3) s(3)])
  have k: "unat ?k = length xs" using s(8) unat_u32_bound [of cap] by (simp add: unat_of_nat32)
  have knc: "?k \<le> nc" using k s(8) gt by (simp add: word_le_nat_alt word_less_nat_alt)
  have s1: "string_at st1 ?L s d cap xs"
    using a(3,4) client_block [OF s(2)] client_block [OF s(3)]
    by (intro string_at_frame [OF str]) auto
  define st2 where "st2 = snd (memcpy d' d ?k st1)"
  define st3 where "st3 = free d st2"
  define st4 where "st4 = set_capacity s nc (set_data s d' st3)"
  have own2: "heap_owns st2 ?L"
    unfolding st2_def using a(3) knc by (intro heap.copy_ok) auto
  have m2: "mem st2 x = mem st1 x" if "client in_heap L x" for x
    using a(5) [OF that] knc unfolding st2_def by (intro memcpy_frame) (auto dest: span_less)
  have own3: "heap_owns st3 ?L"
    unfolding st3_def using heap.release_ok [OF own2 inL(2)] by blast
  have m3: "mem st3 x = mem st2 x" if "client in_heap ?L x" for x
    unfolding st3_def using own2 inL(2) that by (rule heap.release_frame)
  have own4: "heap_owns st4 ?L"
    unfolding st4_def by (intro set_field_owns own3 inL)
  have m4: "mem st4 x = mem st3 x" if "\<not> span s 12 x" for x
    unfolding st4_def by (simp add: set_field_frame [OF that])
  have "mem st3 x = mem st1 x" if "span s 12 x" for x
    using that m3 [of x] m2 [of x] client_block [OF s(2) that] client_mono by metis
  note f3 = str_cong [OF this]
  have f4: "str_data st4 s = d'" "str_length st4 s = of_nat (length xs)" "str_capacity st4 s = nc"
    unfolding st4_def by (simp_all add: f3 string_atD [OF s1])
  have "string_grow s nc st = Some st4"
    using gt a(1,2) string_atD [OF s1] s(7) str_cong(1) [of s st2 st1] m2 client_block [OF s(2)]
    by (simp add: string_grow_def split_def st4_def st3_def st2_def)
  moreover have "bytes (mem st4) d' (length xs) = xs"
  proof (rule nth_equalityI)
    fix i assume "i < length (bytes (mem st4) d' (length xs))"
    then have i: "i < length xs" by simp
    have sp: "span d' nc (d' + of_nat i)" using span_prefix [OF i, of nc d'] knc k
      by (simp add: word_le_nat_alt)
    have "apart d' ?k d ?k"
      using ap_d knc s(8) k span_of_nat [of "length xs"]
      by (simp only: apart_spans word_le_nat_alt) metis
    then have "mem st2 (d' + of_nat i) = mem st1 (d + of_nat i)"
      unfolding st2_def using i k by (intro memcpy_at) simp_all
    moreover have "mem st1 (d + of_nat i) = xs ! i"
      using string_atD(9) [OF s1] bytes_nth [OF i, of "mem st1" d] by simp
    moreover have "mem st4 (d' + of_nat i) = mem st2 (d' + of_nat i)"
      using m4 m3 client_block [of d' nc ?L] sp ap_s apartD by (metis list.set_intros(1))
    ultimately show "bytes (mem st4) d' (length xs) ! i = xs ! i" by (simp add: bytes_nth i)
  qed simp
  then have "string_at st4 ?L s d' nc xs"
    using own4 inL f4 knc k apart_sym [OF ap_s] by (simp add: string_at_def word_le_nat_alt)
  moreover have "mem st4 x = mem st x" if "client in_heap L x" "\<not> span s 12 x" for x
    using that m4 m3 m2 a(4) client_mono by metis
  ultimately show ?thesis using a(5) by blast
qed

text \<open>The capacity after both appends' growth step, as they compute it.\<close>

definition grown :: "nat \<Rightarrow> nat \<Rightarrow> nat" where
  "grown cap need = (if need \<ge> cap then max (2 * cap) need else cap)"

definition grown_owns :: "(u32 \<times> u32) list \<Rightarrow> u32 \<Rightarrow> u32 \<Rightarrow> u32 \<Rightarrow> (u32 \<times> u32) list" where
  "grown_owns L d cap' cap = (if cap' = cap then L else (d, cap') # L)"

lemma make_room_at:
  assumes str: "string_at st L s d cap xs"
    and room: "heap_used L + 16 + grown (unat cap) (length xs + unat k) < HEAP_SIZE"
  defines "cap' \<equiv> of_nat (grown (unat cap) (length xs + unat k)) :: u32"
  shows "\<exists>d' st'. make_room s k st = Some st' \<and> string_at st' (grown_owns L d' cap' cap) s d' cap' xs
    \<and> length xs + unat k \<le> unat cap'
    \<and> (if cap' = cap then d' = d \<and> st' = st
       else \<forall>x. client in_heap L x \<longrightarrow> \<not> span d' cap' x \<and> (\<not> span s 12 x \<longrightarrow> mem st' x = mem st x))"
proof -
  note s = string_atD [OF str]
  let ?need = "length xs + unat k"
  have g: "grown (unat cap) ?need < 2 ^ 22" using room by (simp add: HEAP_SIZE_def)
  then have cap': "unat cap' = grown (unat cap) ?need" unfolding cap'_def by (simp add: unat_of_nat32)
  have need: "?need \<le> grown (unat cap) ?need" "?need < 2 ^ 22"
    using g by (auto simp: grown_def split: if_splits)
  have cap: "unat cap < 2 ^ 22" using heap_owns_size(1) [OF s(1,3)] by (simp add: HEAP_SIZE_def)
  have sum: "of_nat (length xs) + k = (of_nat ?need :: u32)" by simp
  have usum: "unat (of_nat (length xs) + k) = ?need"
    unfolding sum using need(2) by (simp add: unat_of_nat32 del: of_nat_add)
  have dbl: "unat (cap * 2) = 2 * unat cap" using cap by (simp add: unat_mult_lem [THEN iffD1])
  show ?thesis
  proof (cases "?need \<ge> unat cap")
    case False
    then have "cap' = cap" using cap' by (simp add: grown_def word_unat_eq_iff)
    moreover have "make_room s k st = Some st"
      using False usum by (simp add: make_room_def s(6,7) word_le_nat_alt)
    ultimately show ?thesis
      using str need(1) cap' by (intro exI [of _ d] exI [of _ st]) (simp add: grown_owns_def)
  next
    case True
    have nc: "(if cap * 2 < of_nat (length xs) + k then of_nat (length xs) + k else cap * 2) = cap'"
      using True by (auto simp: word_unat_eq_iff word_less_nat_alt usum dbl cap' grown_def)
    have mr: "make_room s k st = string_grow s cap' st"
      using True by (simp only: make_room_def Let_def s(6,7) nc word_le_nat_alt usum if_True)
    show ?thesis
    proof (cases "cap' = cap")
      case True
      then show ?thesis using mr str need(1) cap' s(7)
        by (intro exI [of _ d] exI [of _ st]) (simp add: grown_owns_def string_grow_def)
    next
      case False
      have "unat cap \<le> unat cap'" using True cap' by (simp add: grown_def)
      with False have "cap < cap'" by (simp add: order_less_le word_le_nat_alt)
      moreover have "heap_room L cap'" using room cap' by (simp add: heap_room_def)
      ultimately show ?thesis
        using string_grow_at [OF str, of cap'] mr False need(1) cap' by (simp add: grown_owns_def)
    qed
  qed
qed

section \<open>The operations on byte lists\<close>

text \<open>Bytes the heap's operations leave alone: what a caller may pass as source.\<close>

definition readable :: "(u32 \<times> u32) list \<Rightarrow> u32 \<Rightarrow> u32 \<Rightarrow> bool" where
  "readable L p k \<longleftrightarrow> (\<forall>x. span p k x \<longrightarrow> client in_heap L x)"

lemma readableD: "readable L p k \<Longrightarrow> span p k x \<Longrightarrow> client in_heap L x"
  by (simp add: readable_def)

lemma readable_Cons: "readable L p k \<Longrightarrow> readable (b # L) p k"
  by (simp add: readable_def client_mono)

lemma readable_block: "(p, n) \<in> set L \<Longrightarrow> k \<le> n \<Longrightarrow> readable L p k"
  by (auto simp: readable_def intro: client_block dest: span_less)

lemma string_new_len_at:
  assumes own: "heap_owns st L" and src: "readable L data len"
    and room: "heap_used L + 45 + unat len < HEAP_SIZE"
  defines "s \<equiv> adr (heap_used L + 13)" and "d \<equiv> adr (heap_used L + 41)"
  shows "\<exists>st'. string_new_len data len st = Some (s, st')
    \<and> string_at st' ((d, len + 1) # (s, 12) # L) s d (len + 1) (bytes (mem st) data (unat len))
    \<and> (\<forall>x. client in_heap L x \<longrightarrow> mem st' x = mem st x \<and> \<not> span s 12 x \<and> \<not> span d (len + 1) x)
    \<and> mem st' (d + len) = mem st (d + len)"
proof -
  let ?e = "heap_used L" and ?xs = "bytes (mem st) data (unat len)"
  let ?L1 = "(s, 12) # L" and ?L2 = "(d, len + 1) # (s, 12) # L"
  have len1: "unat (len + 1) = unat len + 1"
    using room by (simp add: HEAP_SIZE_def unat_plus_if')
  have r1: "heap_room L 12" using room by (simp add: heap_room_def)
  from heap.alloc_frame [OF own r1] heap_malloc_bumped [OF own r1]
  have a1: "heap_owns (bumped ?e 12 st) ?L1" "s \<noteq> 0"
    "\<And>x. client in_heap L x \<Longrightarrow> mem (bumped ?e 12 st) x = mem st x"
    "\<And>x. client in_heap L x \<Longrightarrow> \<not> span s 12 x"
    by (auto simp: s_def)
  let ?st1 = "bumped ?e 12 st"
  have r2: "heap_room ?L1 (len + 1)" using room by (simp add: heap_room_def len1)
  let ?st2 = "bumped (?e + 28) (len + 1) ?st1"
  have used1: "heap_used ?L1 = ?e + 28" by simp
  have d41: "adr (?e + 28 + 13) = d" by (simp add: d_def add.commute)
  from heap.alloc_frame [OF a1(1) r2] heap_malloc_bumped [OF a1(1) r2]
  have a2: "heap_owns ?st2 ?L2" "d \<noteq> 0" "malloc (len + 1) ?st1 = Some (d, ?st2)"
    "\<And>x. client in_heap ?L1 x \<Longrightarrow> mem ?st2 x = mem ?st1 x"
    "\<And>x. client in_heap ?L1 x \<Longrightarrow> \<not> span d (len + 1) x"
    unfolding used1 d41 by (auto simp del: heap_used_simps)
  have inL: "(s, 12) \<in> set ?L2" "(d, len + 1) \<in> set ?L2" by simp_all
  have ap: "apart d (len + 1) s 12" by (rule heap.fresh [OF a2(1)]) simp
  define st3 where "st3 = set_data s d ?st2"
  define st4 where "st4 = snd (memcpy d data len st3)"
  define st5 where "st5 = set_capacity s (len + 1) (set_length s len st4)"
  have m3: "mem st3 x = mem ?st2 x" if "\<not> span s 12 x" for x
    unfolding st3_def using that by (rule set_field_frame)
  have own3: "heap_owns st3 ?L2" unfolding st3_def by (intro set_field_owns a2 inL)
  have lens: "len \<le> len + 1" by (simp add: word_le_nat_alt len1)
  have own4: "heap_owns st4 ?L2" unfolding st4_def using own3 inL(2) lens by (rule heap.copy_ok)
  have m4: "mem st4 x = mem st3 x" if "\<not> span d (len + 1) x" for x
    unfolding st4_def using that lens by (intro memcpy_frame) (auto dest: span_less)
  have own5: "heap_owns st5 ?L2" unfolding st5_def by (intro set_field_owns own4 inL)
  have m5: "mem st5 x = mem st4 x" if "\<not> span s 12 x" for x
    unfolding st5_def using that by (simp add: set_field_frame)
  have "mem st4 x = mem st3 x" if "span s 12 x" for x using m4 ap that apartD2 by blast
  note f4 = str_cong(1) [OF this]
  have f5: "str_data st5 s = d" "str_length st5 s = len" "str_capacity st5 s = len + 1"
    unfolding st5_def by (simp_all add: f4) (simp add: st3_def)
  have old: "mem st3 x = mem st x" if "client in_heap L x" for x
    using that m3 a1(3,4) a2(4) client_mono by metis
  have src_d: "apart d len data len"
    unfolding apart_spans using readableD [OF src] a2(5) client_mono span_less [OF _ lens] by metis
  have "bytes (mem st5) d (unat len) = ?xs"
  proof (rule nth_equalityI)
    fix i assume "i < length (bytes (mem st5) d (unat len))"
    then have i: "i < unat len" by simp
    then have "span d (len + 1) (d + of_nat i)" by (intro span_prefix [OF i]) (simp add: len1)
    then have "mem st5 (d + of_nat i) = mem st4 (d + of_nat i)" using m5 ap apartD by blast
    also have "\<dots> = mem st3 (data + of_nat i)" unfolding st4_def by (rule memcpy_at [OF src_d i])
    also have "\<dots> = mem st (data + of_nat i)"
      using old readableD [OF src] span_prefix [OF i] by simp
    finally show "bytes (mem st5) d (unat len) ! i = ?xs ! i" by (simp add: bytes_nth i)
  qed simp
  then have "string_at st5 ?L2 s d (len + 1) ?xs"
    using own5 inL f5 apart_sym [OF ap] by (simp add: string_at_def len1)
  moreover have "string_new_len data len st = Some (s, st5)"
    using heap_malloc_bumped [OF own r1] a1(2) a2(2,3)
    by (simp add: string_new_len_def SIZEOF_STRING_def split_def s_def [symmetric] st3_def [symmetric]
        st4_def [symmetric] st5_def [symmetric] Let_def)
      (simp add: st3_def st4_def st5_def)
  moreover have "mem st5 x = mem st x" if "client in_heap L x" for x
    using that m5 m4 old a1(4) a2(5) client_mono by metis
  moreover have "mem st5 (d + len) = mem st (d + len)"
  proof -
    have dl: "d + len = adr (?e + 41 + unat len)" using adr_add [of "?e + 41" "unat len"] by (simp add: d_def)
    have "span d (len + 1) (d + len)" by (simp add: word_less_nat_alt len1)
    then have "\<not> span s 12 (d + len)" using ap apartD by blast
    then have "mem st5 (d + len) = mem ?st2 (d + len)"
      using m5 m3 unfolding st4_def by (simp add: memcpy_frame st4_def)
    also have "\<dots> = mem ?st1 (d + len)"
      unfolding dl using room by (intro bumped_frame) (auto simp: HEAP_SIZE_def)
    also have "\<dots> = mem st (d + len)"
      unfolding dl using room by (intro bumped_frame) (auto simp: HEAP_SIZE_def)
    finally show ?thesis .
  qed
  ultimately show ?thesis using a1(4) a2(5) client_mono by metis
qed

text \<open>
  The source of an append may be any readable range, also one inside the string itself, as long
  as it is not in the unused part of the buffer.
\<close>

definition source_ok ::
  "(u32 \<times> u32) list \<Rightarrow> u32 \<Rightarrow> u32 \<Rightarrow> u32 \<Rightarrow> byte list \<Rightarrow> u32 \<Rightarrow> u32 \<Rightarrow> bool" where
  "source_ok L s d cap xs p k \<longleftrightarrow> (\<forall>x. span p k x \<longrightarrow> client in_heap L x \<and> \<not> span s 12 x
     \<and> (span d cap x \<longrightarrow> span d (of_nat (length xs)) x))"

lemma span_after:
  assumes "span (p + of_nat n) k x" and "n + unat k \<le> 2 ^ 31"
  shows "\<not> span p (of_nat n) x"
proof -
  from assms(1) obtain j where j: "x = p + of_nat n + j" "j < k" by (rule spanE)
  have "unat j < unat k" using j(2) by (simp add: word_less_nat_alt)
  then have "unat (of_nat n + j :: u32) = n + unat j" "unat (of_nat n :: u32) = n"
    using assms(2) by (auto simp: unat_plus_if' unat_of_nat32)
  then show ?thesis by (simp add: j(1) add.assoc word_less_nat_alt)
qed

lemma append_len_at:
  assumes str: "string_at st L s d cap xs" and src: "source_ok L s d cap xs data k"
    and room: "heap_used L + 16 + grown (unat cap) (length xs + unat k) < HEAP_SIZE"
  defines "cap' \<equiv> of_nat (grown (unat cap) (length xs + unat k)) :: u32"
    and "ys \<equiv> bytes (mem st) data (unat k)"
  shows "\<exists>d' st'. string_append_len s data k st = Some st'
    \<and> string_at st' (grown_owns L d' cap' cap) s d' cap' (xs @ ys)
    \<and> mem st' (d' + of_nat (length (xs @ ys))) = 0
    \<and> (\<forall>x. client in_heap L x \<longrightarrow> \<not> span s 12 x \<longrightarrow> \<not> span d cap x \<longrightarrow> mem st' x = mem st x)"
proof -
  from make_room_at [OF str room] obtain d' st1 where
    r: "make_room s k st = Some st1" "string_at st1 (grown_owns L d' cap' cap) s d' cap' xs"
      "length xs + unat k \<le> unat cap'"
    and fr: "if cap' = cap then d' = d \<and> st1 = st
       else \<forall>x. client in_heap L x \<longrightarrow> \<not> span d' cap' x \<and> (\<not> span s 12 x \<longrightarrow> mem st1 x = mem st x)"
    unfolding cap'_def by blast
  note s = string_atD [OF r(2)]
  let ?p = "d' + of_nat (length xs)" and ?L = "grown_owns L d' cap' cap"
  have lys: "length ys = unat k" by (simp add: ys_def)
  have capb: "unat cap' < 2 ^ 22" using heap_owns_size(1) [OF s(1,3)] by (simp add: HEAP_SIZE_def)
  have tail: "span d' cap' x" if "span ?p k x" for x
    using span_sub [OF that] r(3) capb by (simp add: unat_of_nat32)
  have src_same: "mem st1 x = mem st x" if "span data k x" for x
    using fr src that by (auto simp: source_ok_def split: if_splits)
  have ap: "apart ?p k data k"
    unfolding apart_spans
  proof (intro allI notI, elim conjE)
    fix x assume x: "span ?p k x" "span data k x"
    with src have c: "client in_heap L x" "span d cap x \<longrightarrow> span d (of_nat (length xs)) x"
      by (auto simp: source_ok_def)
    show False
    proof (cases "cap' = cap")
      case True
      then show False using fr c(2) tail [OF x(1)] span_after [OF x(1)] r(3) capb by auto
    next
      case False
      then show False using fr c(1) tail [OF x(1)] by auto
    qed
  qed
  define st2 where "st2 = snd (memcpy ?p data k st1)"
  have own2: "heap_owns st2 ?L" unfolding st2_def using s(1,3) tail by (rule heap.copy_at_ok)
  have new: "bytes (mem st2) ?p (length ys) = ys"
  proof (rule nth_equalityI)
    fix i assume "i < length (bytes (mem st2) ?p (length ys))"
    then have i: "i < unat k" by (simp add: lys)
    then have "mem st2 (?p + of_nat i) = mem st (data + of_nat i)"
      unfolding st2_def using memcpy_at [OF ap i] src_same [OF span_prefix [OF i]] by simp
    with i show "bytes (mem st2) ?p (length ys) ! i = ys ! i" by (simp add: bytes_nth lys ys_def)
  qed simp
  have fits: "length xs + length ys \<le> unat cap'" using r(3) lys by simp
  have frame2: "mem st2 x = mem st1 x" if "\<not> span ?p (of_nat (length ys)) x" for x
    using that unfolding st2_def by (intro memcpy_frame) (simp add: lys)
  note t = append_tail [OF r(2) fits own2 frame2 new]
  have "string_append_len s data k st = Some (put_byte
      (str_data (set_length s (str_length st2 s + of_nat (length ys)) st2) s
       + str_length (set_length s (str_length st2 s + of_nat (length ys)) st2) s) 0
      (set_length s (str_length st2 s + of_nat (length ys)) st2))"
    by (simp add: string_append_len_def r(1) split_def Let_def s(5,6) st2_def lys)
  moreover have "client in_heap ?L x" "\<not> (cap' \<noteq> cap \<and> span d' cap' x)" if "client in_heap L x" for x
    using that fr by (auto simp: grown_owns_def client_mono)
  ultimately show ?thesis using t fr by (auto split: if_splits)
qed

text \<open>One character.\<close>

lemma append_char_at:
  assumes str: "string_at st L s d cap xs"
    and room: "heap_used L + 16 + grown (unat cap) (length xs + 1) < HEAP_SIZE"
  defines "cap' \<equiv> of_nat (grown (unat cap) (length xs + 1)) :: u32"
  shows "\<exists>d' st'. string_append_char s c st = Some st'
    \<and> string_at st' (grown_owns L d' cap' cap) s d' cap' (xs @ [c])
    \<and> mem st' (d' + of_nat (length (xs @ [c]))) = 0
    \<and> (\<forall>x. client in_heap L x \<longrightarrow> \<not> span s 12 x \<longrightarrow> \<not> span d cap x \<longrightarrow> mem st' x = mem st x)"
proof -
  have one: "unat (1 :: u32) = 1" by simp
  from make_room_at [OF str, of 1] room obtain d' st1 where
    r: "make_room s 1 st = Some st1" "string_at st1 (grown_owns L d' cap' cap) s d' cap' xs"
      "length xs + 1 \<le> unat cap'"
    and fr: "if cap' = cap then d' = d \<and> st1 = st
       else \<forall>x. client in_heap L x \<longrightarrow> \<not> span d' cap' x \<and> (\<not> span s 12 x \<longrightarrow> mem st1 x = mem st x)"
    unfolding cap'_def one by blast
  note s = string_atD [OF r(2)]
  let ?p = "d' + of_nat (length xs)" and ?L = "grown_owns L d' cap' cap"
  have p: "span d' cap' ?p" using r(3) by (intro span_prefix [of _ "length xs + 1"]) auto
  define st2 where "st2 = put_byte ?p c st1"
  have own2: "heap_owns st2 ?L" unfolding st2_def put_byte_def using s(1,3) p by (rule heap.store_ok)
  have new: "bytes (mem st2) ?p (length [c]) = [c]" by (simp add: bytes_Suc st2_def put_byte_def)
  have fits: "length xs + length [c] \<le> unat cap'" using r(3) by simp
  have frame2: "mem st2 x = mem st1 x" if "\<not> span ?p (of_nat (length [c])) x" for x
    using that unfolding st2_def put_byte_def by auto
  note t = append_tail [OF r(2) fits own2 frame2 new]
  have "string_append_char s c st = Some (put_byte
      (str_data (set_length s (str_length st2 s + of_nat (length [c])) st2) s
       + str_length (set_length s (str_length st2 s + of_nat (length [c])) st2) s) 0
      (set_length s (str_length st2 s + of_nat (length [c])) st2))"
    by (simp add: string_append_char_def r(1) Let_def s(5,6) st2_def)
  moreover have "client in_heap ?L x" "\<not> (cap' \<noteq> cap \<and> span d' cap' x)" if "client in_heap L x" for x
    using that fr by (auto simp: grown_owns_def client_mono)
  ultimately show ?thesis using t fr by (auto split: if_splits)
qed

section \<open>Properties\<close>

text \<open>
  \<open>string_new\<close> of a C string, while there is room for its two blocks: the result is a
  non-NULL string object with exactly the bytes of the C string and one byte of capacity more;
  everything the caller could see is unchanged. That spare byte is not set to 0: it keeps the
  value memory had before, so the buffer is a C string only where that happened to be 0.
\<close>

theorem string_new_spec:
  assumes "heap_owns st L" and "cstr (mem st) data xs" and "readable L data (of_nat (length xs))"
    and "heap_used L + 45 + length xs < HEAP_SIZE"
  defines "s \<equiv> adr (heap_used L + 13)" and "d \<equiv> adr (heap_used L + 41)"
    and "cap \<equiv> of_nat (length xs + 1)"
  shows "\<exists>st'. string_new data st = Some (s, st') \<and> s \<noteq> 0
    \<and> string_at st' ((d, cap) # (s, 12) # L) s d cap xs
    \<and> (\<forall>x. client in_heap L x \<longrightarrow> mem st' x = mem st x)
    \<and> mem st' (d + of_nat (length xs)) = mem st (d + of_nat (length xs))"
proof -
  let ?n = "of_nat (length xs) :: u32"
  have n: "unat ?n = length xs" using assms(4) by (simp add: unat_of_nat32 HEAP_SIZE_def)
  have xs: "bytes (mem st) data (length xs) = xs" using assms(2) by (simp add: cstr_bytes)
  have "heap_used L + 45 + unat ?n < HEAP_SIZE" using assms(4) n by simp
  from string_new_len_at [OF assms(1,3) this] obtain st' where
    "string_new_len data ?n st = Some (s, st')"
    "string_at st' ((d, cap) # (s, 12) # L) s d cap xs"
    "\<forall>x. client in_heap L x \<longrightarrow> mem st' x = mem st x"
    "mem st' (d + ?n) = mem st (d + ?n)"
    by (auto simp: n xs s_def d_def cap_def add.commute)
  moreover have "s \<noteq> 0" using assms(4) by (auto simp: s_def HEAP_SIZE_def intro!: adr_nonzero)
  ultimately show ?thesis by (simp add: string_new_def strlen_cstr [OF assms(2)])
qed

text \<open>A machine with a C string in low memory, the setting of the witnesses below.\<close>

definition demo :: machine where
  "demo = boot (write_bytes 100 [72, 105, 0] (\<lambda>_. 7))"

lemma demo_facts:
  "heap_owns demo []" "cstr (mem demo) 100 [72, 105]" "readable [] 100 (of_nat (length [72::byte, 105]))"
  "readable [] 100 2"
proof -
  have "\<not> in_heap x" if "span 100 2 x" for x
  proof -
    from that obtain i where "x = 100 + i" "i < 2" by (rule spanE)
    then have "unat x \<le> 102" by unat_arith
    then show ?thesis by (simp add: in_heap_def HEAP_START_def word_le_nat_alt)
  qed
  then show "readable [] 100 2" "readable [] 100 (of_nat (length [72::byte, 105]))"
    by (simp_all add: readable_def client_def)
  show "heap_owns demo []" by (simp add: demo_def)
  have "cstr (write_bytes 100 ([72, 105] @ [0]) (\<lambda>_. 7)) 100 [72, 105]"
    by (rule cstr_write_bytes) simp_all
  then show "cstr (mem demo) 100 [72, 105]" by (simp add: demo_def)
qed

lemma demo_string: "\<exists>st' s d. string_at st' [(d, 3), (s, 12)] s d 3 [72, 105] \<and> cstr (mem st') 100 [72, 105]
   \<and> source_ok [(d, 3), (s, 12)] s d 3 [72, 105] 100 2"
proof -
  have room: "heap_used [] + 45 + unat (2 :: u32) < HEAP_SIZE" by (simp add: HEAP_SIZE_def)
  have hi: "bytes (mem demo) 100 (unat (2 :: u32)) = [72, 105]"
  proof -
    have "length [72 :: byte, 105] = unat (2 :: u32)" by simp
    with demo_facts(2) show ?thesis unfolding cstr_bytes by metis
  qed
  have "client in_heap [] x" if "span 100 3 x" for x
  proof -
    from that obtain i where "x = 100 + i" "i < 3" by (rule spanE)
    then have "unat x \<le> 103" by unat_arith
    then show ?thesis by (simp add: client_def in_heap_def HEAP_START_def word_le_nat_alt)
  qed
  note low = this
  let ?s = "adr (heap_used [] + 13)" and ?d = "adr (heap_used [] + 41)"
  let ?L = "[(?d, 2 + 1), (?s, 12)]"
  from string_new_len_at [OF demo_facts(1,4) room] obtain st' where
    c: "string_at st' ?L ?s ?d (2 + 1) [72, 105]"
    "\<And>x. client in_heap [] x \<Longrightarrow> mem st' x = mem demo x \<and> \<not> span ?s 12 x \<and> \<not> span ?d (2 + 1) x"
    unfolding hi by blast
  have "cstr (mem st') 100 [72, 105] = cstr (mem demo) 100 [72, 105]"
  proof (rule cstr_cong)
    fix i assume "i \<le> length [72 :: byte, 105]"
    then have "span 100 (3 :: u32) (100 + of_nat i)" by (intro span_prefix [of i 3]) simp_all
    then show "mem st' (100 + of_nat i) = mem demo (100 + of_nat i)" using c(2) low by blast
  qed
  moreover have "source_ok ?L ?s ?d (2 + 1) [72, 105] 100 2"
  proof -
    have "client in_heap ?L x \<and> \<not> span ?s 12 x \<and> \<not> span ?d (2 + 1) x" if "span 100 2 x" for x
    proof -
      have "span 100 3 x" using that by (rule span_less) simp
      from low [OF this] show ?thesis using c(2) client_mono by blast
    qed
    then show ?thesis by (simp add: source_ok_def)
  qed
  ultimately show ?thesis using c(1) demo_facts(2) by auto
qed

theorem string_new_spec_witness:
  "\<exists>s st'. string_new 100 demo = Some (s, st') \<and> str_length st' s = 2 \<and> str_capacity st' s = 3
     \<and> mem st' (str_data st' s + 2) = 7"
  using string_new_spec [OF demo_facts(1-3)]
  by (auto simp: HEAP_SIZE_def string_at_def) (simp add: demo_def write_bytes_def adr_def HEAP_START_def)

text \<open>
  C11. \<open>string_append\<close> is list append: while there is room for the growth, the string's bytes
  become \<open>xs @ ys\<close> with a terminator behind them, the capacity follows the doubling rule, the
  heap stays intact, and nothing else the caller can see changes. The source may be the string's
  own bytes. A terminator that does not fit the buffer lands on the padding behind it.
\<close>

theorem string_append_spec:
  assumes "string_at st L s d cap xs" and "cstr (mem st) data ys"
    and "source_ok L s d cap xs data (of_nat (length ys))"
    and "heap_used L + 16 + grown (unat cap) (length xs + length ys) < HEAP_SIZE"
  defines "cap' \<equiv> of_nat (grown (unat cap) (length xs + length ys)) :: u32"
  shows "\<exists>d' st'. string_append s data st = Some st'
    \<and> string_at st' (grown_owns L d' cap' cap) s d' cap' (xs @ ys)
    \<and> mem st' (d' + of_nat (length (xs @ ys))) = 0
    \<and> (\<forall>x. client in_heap L x \<longrightarrow> \<not> span s 12 x \<longrightarrow> \<not> span d cap x \<longrightarrow> mem st' x = mem st x)"
proof -
  have n: "unat (of_nat (length ys) :: u32) = length ys"
    using cstr_length [OF assms(2)] by (simp add: unat_of_nat32)
  have ys: "bytes (mem st) data (length ys) = ys" using assms(2) by (simp add: cstr_bytes)
  show ?thesis
    using append_len_at [OF assms(1,3)] assms(4)
    by (simp add: string_append_def strlen_cstr [OF assms(2)] n ys cap'_def)
qed

theorem string_append_spec_witness:
  "\<exists>s st d' st'. string_append s 100 st = Some st' \<and> bytes (mem st') d' 4 = [72, 105, 72, 105]
     \<and> str_capacity st' s = 6 \<and> mem st' (d' + 4) = 0"
proof -
  obtain st s d where a: "string_at st [(d, 3), (s, 12)] s d 3 [72, 105]" "cstr (mem st) 100 [72, 105]"
    "source_ok [(d, 3), (s, 12)] s d 3 [72, 105] 100 2" using demo_string by blast
  have g: "grown (unat (3 :: u32)) (length [72::byte, 105] + length [72::byte, 105]) = 6"
    by (simp add: grown_def)
  have two: "of_nat (length [72::byte, 105]) = (2 :: u32)"
    and four: "length ([72, 105] @ [72, 105 :: byte]) = 4" by simp_all
  have room: "heap_used [(d, 3), (s, 12)] + 16 + 6 < HEAP_SIZE" by (simp add: HEAP_SIZE_def)
  from string_append_spec [OF a(1,2), unfolded g two, OF a(3) room] obtain d' st' where
    "string_append s 100 st = Some st'" "mem st' (d' + of_nat 4) = 0"
    "string_at st' (grown_owns [(d, 3), (s, 12)] d' (of_nat 6) 3) s d' (of_nat 6) ([72, 105] @ [72, 105])"
    unfolding four by blast
  moreover from this(3) have "bytes (mem st') d' 4 = [72, 105, 72, 105]" "str_capacity st' s = 6"
    using four by (simp_all add: string_at_def numeral_eq_Suc)
  ultimately show ?thesis by auto
qed

text \<open>
  C36. \<open>string_copy\<close> is a deep copy: the copy has the same bytes in blocks of its own, the
  original is still the same string, and the four blocks do not overlap, so that no later store
  into one of the two strings changes the other.
\<close>

theorem string_copy_deep:
  assumes "string_at st L s d cap xs" and "heap_used L + 45 + length xs < HEAP_SIZE"
  shows "\<exists>s' d' cap' L' st'. string_copy s st = Some (s', st')
    \<and> string_at st' L' s' d' cap' xs \<and> string_at st' L' s d cap xs
    \<and> apart s' 12 s 12 \<and> apart s' 12 d cap \<and> apart d' cap' s 12 \<and> apart d' cap' d cap"
proof -
  note s = string_atD [OF assms(1)]
  let ?n = "of_nat (length xs) :: u32"
  have n: "unat ?n = length xs" using assms(2) by (simp add: unat_of_nat32 HEAP_SIZE_def)
  have rd: "readable L d ?n" using s(3,8) n by (intro readable_block) (auto simp: word_le_nat_alt)
  let ?s = "adr (heap_used L + 13)" and ?d = "adr (heap_used L + 41)"
  let ?L = "(?d, ?n + 1) # (?s, 12) # L"
  from string_new_len_at [OF s(1) rd] assms(2) obtain st' where
    c: "string_new_len d ?n st = Some (?s, st')" "string_at st' ?L ?s ?d (?n + 1) xs"
      "\<And>x. client in_heap L x \<Longrightarrow> mem st' x = mem st x"
    unfolding n s(9) by blast
  have "string_at st' ?L s d cap xs"
    using string_atD(1) [OF c(2)] c(3) client_block [OF s(2)] client_block [OF s(3)]
    by (intro string_at_frame [OF assms(1)]) auto
  moreover have "blocks_apart ?L" using string_atD(1) [OF c(2)] by (rule heap.owns_apart)
  then have "apart ?s 12 s 12" "apart ?s 12 d cap" "apart ?d (?n + 1) s 12" "apart ?d (?n + 1) d cap"
    using s(2,3) by (auto simp: blocks_apart_def)
  ultimately show ?thesis using c(1,2) by (auto simp: string_copy_def s(5,6))
qed

theorem string_copy_deep_witness:
  "\<exists>s st s' st'. string_copy s st = Some (s', st') \<and> str_data st' s' \<noteq> str_data st' s
     \<and> str_length st' s' = 2"
proof -
  obtain st s d where a: "string_at st [(d, 3), (s, 12)] s d 3 [72, 105]" using demo_string by blast
  have "heap_used [(d, 3), (s, 12)] + 45 + length [72 :: byte, 105] < HEAP_SIZE" by (simp add: HEAP_SIZE_def)
  from string_copy_deep [OF a this] obtain s' d' cap' L' st' where c: "string_copy s st = Some (s', st')"
    "string_at st' L' s' d' cap' [72, 105]" "string_at st' L' s d 3 [72, 105]" "apart d' cap' d 3" by blast
  then have "d' \<noteq> d" by (auto simp: apart_def string_at_def)
  with c show ?thesis by (auto simp: string_at_def)
qed

text \<open>
  \<open>string_data\<close> appends a NUL that counts: the buffer it returns is a C string of the
  string's bytes up to their first NUL, but each call makes the string one byte longer.
\<close>

theorem string_data_appends:
  assumes "string_at st L s d cap xs" and "0 \<notin> set xs"
    and "heap_used L + 16 + grown (unat cap) (length xs + 1) < HEAP_SIZE"
  shows "\<exists>d' cap' L' st'. string_data s st = Some (d', st') \<and> string_at st' L' s d' cap' (xs @ [0])
    \<and> cstr (mem st') d' xs \<and> str_length st' s = str_length st s + 1"
proof -
  from append_char_at [OF assms(1,3), of 0] obtain d' st' where
    c: "string_append_char s 0 st = Some st'"
      "string_at st' (grown_owns L d' (of_nat (grown (unat cap) (length xs + 1))) cap) s d'
         (of_nat (grown (unat cap) (length xs + 1))) (xs @ [0])" by blast
  note s' = string_atD [OF c(2)]
  have all: "mem st' (d' + of_nat i) = (xs @ [0]) ! i" if "i < length (xs @ [0])" for i
    using bytes_nth [OF that, of "mem st'" d'] s'(9) by simp
  have "mem st' (d' + of_nat i) = xs ! i" if "i < length xs" for i
    using all [of i] that by (simp add: nth_append)
  moreover have "mem st' (d' + of_nat (length xs)) = 0" using all [of "length xs"] by simp
  ultimately have "cstr (mem st') d' xs" using assms(2) by (simp add: cstr_iff)
  with c s'(5,6) string_atD(6) [OF assms(1)] show ?thesis
    by (auto simp: string_data_def add.commute)
qed

theorem string_data_appends_witness:
  "\<exists>s st d' st'. string_data s st = Some (d', st') \<and> cstr (mem st') d' [72, 105]
     \<and> str_length st s = 2 \<and> str_length st' s = 3"
proof -
  obtain st s d where a: "string_at st [(d, 3), (s, 12)] s d 3 [72, 105]" using demo_string by blast
  have "heap_used [(d, 3), (s, 12)] + 16 + grown (unat (3 :: u32)) (length [72 :: byte, 105] + 1) < HEAP_SIZE"
    by (simp add: HEAP_SIZE_def grown_def)
  from string_data_appends [OF a _ this] show ?thesis
    using string_atD(6) [OF a] by fastforce
qed

text \<open>
  \<open>string_shrink\<close> never gives memory back: the capacity afterwards is the larger of the old
  one and \<open>length + 1\<close>, and on a string with a spare byte the call changes nothing at all.
\<close>

theorem string_shrink_never_shrinks:
  assumes "string_at st L s d cap xs" and "heap_used L + 17 + length xs < HEAP_SIZE"
  shows "\<exists>d' L' st'. string_shrink s st = Some st'
    \<and> string_at st' L' s d' (max cap (of_nat (length xs) + 1)) xs
    \<and> (length xs < unat cap \<longrightarrow> st' = st)"
proof -
  note s = string_atD [OF assms(1)]
  let ?n = "of_nat (length xs) + 1 :: u32"
  have n: "unat ?n = length xs + 1"
    using assms(2) unat_of_nat32 [of "length xs + 1"] by (simp add: HEAP_SIZE_def add.commute)
  show ?thesis
  proof (cases "?n \<le> cap")
    case True
    then have "max cap ?n = cap" by (simp add: max_absorb1)
    with True show ?thesis using assms(1)
      by (intro exI [of _ d] exI [of _ L] exI [of _ st])
        (simp add: string_shrink_def string_grow_def s(6,7))
  next
    case False
    then have "cap < ?n" by simp
    moreover from this have mx: "max cap ?n = ?n" by (intro max_absorb2 less_imp_le)
    moreover have "heap_room L ?n" using assms(2) n by (simp add: heap_room_def)
    moreover have "\<not> length xs < unat cap" using False n by (simp add: word_le_nat_alt)
    ultimately show ?thesis using string_grow_at [OF assms(1), of ?n]
      unfolding mx by (auto simp: string_shrink_def s(6))
  qed
qed

theorem string_shrink_never_shrinks_witness:
  "\<exists>s st. string_shrink s st = Some st \<and> str_capacity st s = 3 \<and> str_length st s = 2"
proof -
  obtain st s d where a: "string_at st [(d, 3), (s, 12)] s d 3 [72, 105]" using demo_string by blast
  have "heap_used [(d, 3), (s, 12)] + 17 + length [72 :: byte, 105] < HEAP_SIZE" by (simp add: HEAP_SIZE_def)
  from string_shrink_never_shrinks [OF a this] have "string_shrink s st = Some st" by auto
  with a show ?thesis by (auto simp: string_at_def)
qed

end
