(* ===== verification/Printf.thy ===== *)
theory Printf
  imports Machine "HOL-Library.Monad_Syntax"
begin

text \<open>
  \<open>c_test/printf.c\<close> in the configuration the programs are built with (\<open>debug_config.h\<close>: no
  floating point and no \<open>long long\<close> conversions; \<open>int\<close>, \<open>long\<close> and pointers of 32 bits, an
  unsigned \<open>char\<close>): the output functions, number formatting and \<open>_vsnprintf\<close>.

  \<open>va_list\<close> is the list of the argument words that are left. Asking for an argument that is not
  there is undefined in C and \<open>None\<close> here, as is a loop that does not end. The local array
  \<open>buf\<close> is the list of the bytes stored in it so far, so that \<open>len\<close> is its length.
\<close>

section \<open>Characters and flags\<close>

abbreviation c_space :: byte where "c_space \<equiv> 32"
abbreviation c_hash :: byte where "c_hash \<equiv> 35"
abbreviation c_percent :: byte where "c_percent \<equiv> 37"
abbreviation c_star :: byte where "c_star \<equiv> 42"
abbreviation c_plus :: byte where "c_plus \<equiv> 43"
abbreviation c_minus :: byte where "c_minus \<equiv> 45"
abbreviation c_dot :: byte where "c_dot \<equiv> 46"
abbreviation c_0 :: byte where "c_0 \<equiv> 48"
abbreviation c_9 :: byte where "c_9 \<equiv> 57"
abbreviation c_A :: byte where "c_A \<equiv> 65"
abbreviation c_X :: byte where "c_X \<equiv> 88"
abbreviation c_a :: byte where "c_a \<equiv> 97"
abbreviation c_b :: byte where "c_b \<equiv> 98"
abbreviation c_c :: byte where "c_c \<equiv> 99"
abbreviation c_d :: byte where "c_d \<equiv> 100"
abbreviation c_h :: byte where "c_h \<equiv> 104"
abbreviation c_i :: byte where "c_i \<equiv> 105"
abbreviation c_j :: byte where "c_j \<equiv> 106"
abbreviation c_l :: byte where "c_l \<equiv> 108"
abbreviation c_o :: byte where "c_o \<equiv> 111"
abbreviation c_p :: byte where "c_p \<equiv> 112"
abbreviation c_s :: byte where "c_s \<equiv> 115"
abbreviation c_t :: byte where "c_t \<equiv> 116"
abbreviation c_u :: byte where "c_u \<equiv> 117"
abbreviation c_x :: byte where "c_x \<equiv> 120"
abbreviation c_z :: byte where "c_z \<equiv> 122"
abbreviation c_newline :: byte where "c_newline \<equiv> 10"

text \<open>The flag bits, and the flags as the set of bits that are on.\<close>

definition FLAGS_ZEROPAD :: u32 where "FLAGS_ZEROPAD = 1"
definition FLAGS_LEFT :: u32 where "FLAGS_LEFT = 2"
definition FLAGS_PLUS :: u32 where "FLAGS_PLUS = 4"
definition FLAGS_SPACE :: u32 where "FLAGS_SPACE = 8"
definition FLAGS_HASH :: u32 where "FLAGS_HASH = 16"
definition FLAGS_UPPERCASE :: u32 where "FLAGS_UPPERCASE = 32"
definition FLAGS_CHAR :: u32 where "FLAGS_CHAR = 64"
definition FLAGS_SHORT :: u32 where "FLAGS_SHORT = 128"
definition FLAGS_LONG :: u32 where "FLAGS_LONG = 256"
definition FLAGS_LONG_LONG :: u32 where "FLAGS_LONG_LONG = 512"
definition FLAGS_PRECISION :: u32 where "FLAGS_PRECISION = 1024"

lemmas flag_bits = FLAGS_ZEROPAD_def FLAGS_LEFT_def FLAGS_PLUS_def FLAGS_SPACE_def FLAGS_HASH_def
  FLAGS_UPPERCASE_def FLAGS_CHAR_def FLAGS_SHORT_def FLAGS_LONG_def FLAGS_LONG_LONG_def
  FLAGS_PRECISION_def

definition has :: "u32 \<Rightarrow> u32 \<Rightarrow> bool" where
  "has flags f \<longleftrightarrow> flags AND f \<noteq> 0"

section \<open>Output of characters\<close>

definition put_char :: "byte \<Rightarrow> machine \<Rightarrow> machine" where
  "put_char character st = UART_write character st"

definition putchar :: "u32 \<Rightarrow> machine \<Rightarrow> u32 \<times> machine" where
  "putchar character st = (0, put_char (ucast character) st)"

partial_function (option) putstr_loop :: "u32 \<Rightarrow> machine \<Rightarrow> machine option" where
  "putstr_loop s st =
     (if mem st s = 0 then Some st else putstr_loop (s + 1) (put_char (mem st s) st))"

definition puts :: "u32 \<Rightarrow> machine \<Rightarrow> (u32 \<times> machine) option" where
  "puts s st = do { st \<leftarrow> putstr_loop s st; Some (0, put_char c_newline st) }"

definition fputc :: "u32 \<Rightarrow> u32 \<Rightarrow> machine \<Rightarrow> u32 \<times> machine" where
  "fputc c stream st = (c, put_char (ucast c) st)"

definition fputs :: "u32 \<Rightarrow> u32 \<Rightarrow> machine \<Rightarrow> (u32 \<times> machine) option" where
  "fputs s stream st = do { st \<leftarrow> putstr_loop s st; Some (0, st) }"

text \<open>The stream functions that do nothing.\<close>

definition fflush :: "u32 \<Rightarrow> machine \<Rightarrow> u32 \<times> machine" where
  "fflush stream st = (0, st)"
definition popen :: "u32 \<Rightarrow> u32 \<Rightarrow> machine \<Rightarrow> u32 \<times> machine" where
  "popen command mode st = (0, st)"
definition pclose :: "u32 \<Rightarrow> machine \<Rightarrow> u32 \<times> machine" where
  "pclose stream st = (0, st)"
definition fseek :: "u32 \<Rightarrow> u32 \<Rightarrow> u32 \<Rightarrow> machine \<Rightarrow> u32 \<times> machine" where
  "fseek stream offset whence st = (0, st)"
definition ftell :: "u32 \<Rightarrow> machine \<Rightarrow> u32 \<times> machine" where
  "ftell stream st = (0, st)"
definition feof :: "u32 \<Rightarrow> machine \<Rightarrow> u32 \<times> machine" where
  "feof stream st = (0, st)"

text \<open>
  The output functions passed around as \<open>out_fct_type\<close>: character, buffer, index, limit.
  \<open>out_fct\<close> calls through the wrapper object; the callback is a parameter.
\<close>

type_synonym out_fct_type = "byte \<Rightarrow> u32 \<Rightarrow> u32 \<Rightarrow> u32 \<Rightarrow> machine \<Rightarrow> machine"

definition out_buffer :: out_fct_type where
  "out_buffer character buffer idx maxlen st =
     (if idx < maxlen then st\<lparr>mem := (mem st)(buffer + idx := character)\<rparr> else st)"

definition out_null :: out_fct_type where
  "out_null character buffer idx maxlen st = st"

definition out_char :: out_fct_type where
  "out_char character buffer idx maxlen st =
     (if character \<noteq> 0 then put_char character st else st)"

definition out_fct :: "(byte \<Rightarrow> machine \<Rightarrow> machine) \<Rightarrow> out_fct_type" where
  "out_fct fct character buffer idx maxlen st =
     (if character \<noteq> 0 then fct character st else st)"

text \<open>\<open>out(c, buffer, idx++, maxlen)\<close>: the index and the machine are threaded together.\<close>

type_synonym outpos = "u32 \<times> machine"

definition emit :: "out_fct_type \<Rightarrow> u32 \<Rightarrow> u32 \<Rightarrow> byte \<Rightarrow> outpos \<Rightarrow> outpos" where
  "emit out buffer maxlen c o' = (fst o' + 1, out c buffer (fst o') maxlen (snd o'))"

section \<open>Scanning helpers\<close>

function strnlen_loop :: "memory \<Rightarrow> u32 \<Rightarrow> u32 \<Rightarrow> u32" where
  "strnlen_loop m s maxsize =
     (if m s \<noteq> 0 \<and> maxsize \<noteq> 0 then strnlen_loop m (s + 1) (maxsize - 1) else s)"
  by pat_completeness auto
termination
  by (relation "measure (\<lambda>(m, s, k). unat k)") (auto simp: unat_minus_one unat_gt_0)

declare strnlen_loop.simps [simp del]

definition strnlen_s :: "u32 \<Rightarrow> u32 \<Rightarrow> machine \<Rightarrow> u32" where
  "strnlen_s str maxsize st = strnlen_loop (mem st) str maxsize - str"

definition is_digit :: "byte \<Rightarrow> bool" where
  "is_digit ch \<longleftrightarrow> c_0 \<le> ch \<and> ch \<le> c_9"

partial_function (option) atoi_loop :: "memory \<Rightarrow> u32 \<Rightarrow> u32 \<Rightarrow> (u32 \<times> u32) option" where
  "atoi_loop m str i =
     (if is_digit (m str) then atoi_loop m (str + 1) (i * 10 + ucast (m str - c_0))
      else Some (i, str))"

definition atoi :: "u32 \<Rightarrow> machine \<Rightarrow> (u32 \<times> u32) option" where
  "atoi str st = atoi_loop (mem st) str 0"

section \<open>Numbers\<close>

definition NTOA_BUFFER_SIZE :: nat where "NTOA_BUFFER_SIZE = 32"

text \<open>\<open>_out_rev\<close>: the loop over \<open>buf\<close> from its end, and the left-justified padding loop.\<close>

fun rev_loop :: "out_fct_type \<Rightarrow> u32 \<Rightarrow> u32 \<Rightarrow> byte list \<Rightarrow> nat \<Rightarrow> outpos \<Rightarrow> outpos" where
  "rev_loop out buffer maxlen buf 0 o' = o'"
| "rev_loop out buffer maxlen buf (Suc len) o' =
     rev_loop out buffer maxlen buf len (emit out buffer maxlen (buf ! len) o')"

function pad_to :: "out_fct_type \<Rightarrow> u32 \<Rightarrow> u32 \<Rightarrow> u32 \<Rightarrow> u32 \<Rightarrow> outpos \<Rightarrow> outpos" where
  "pad_to out buffer maxlen start_idx width o' =
     (if fst o' - start_idx < width
      then pad_to out buffer maxlen start_idx width (emit out buffer maxlen c_space o') else o')"
  by pat_completeness auto
termination
proof (relation "measure (\<lambda>(out, buffer, maxlen, start, width, o'). unat width - unat (fst o' - start))")
  fix out :: out_fct_type and buffer maxlen start width :: u32 and o' :: outpos
  assume lt: "fst o' - start < width"
  have eq: "fst (emit out buffer maxlen c_space o') - start = fst o' - start + 1"
    by (simp add: emit_def)
  show "((out, buffer, maxlen, start, width, emit out buffer maxlen c_space o'),
      out, buffer, maxlen, start, width, o')
      \<in> measure (\<lambda>(out, buffer, maxlen, start, width, o'). unat width - unat (fst o' - start))"
    using lt unat_add1_lt [OF lt] by (simp add: eq word_less_nat_alt)
qed simp

declare pad_to.simps [simp del]

definition out_rev :: "out_fct_type \<Rightarrow> u32 \<Rightarrow> u32 \<Rightarrow> byte list \<Rightarrow> u32 \<Rightarrow> u32 \<Rightarrow> outpos \<Rightarrow> outpos" where
  "out_rev out buffer maxlen buf width flags o' =
     (let start_idx = fst o';
          o' = (if \<not> has flags FLAGS_LEFT \<and> \<not> has flags FLAGS_ZEROPAD
                then for_up (of_nat (length buf)) width (\<lambda>_. emit out buffer maxlen c_space) o' else o');
          o' = rev_loop out buffer maxlen buf (length buf) o'
      in if has flags FLAGS_LEFT then pad_to out buffer maxlen start_idx width o' else o')"

text \<open>\<open>while ((len < n) && (len < PRINTF_NTOA_BUFFER_SIZE)) buf[len++] = '0';\<close>\<close>

function zero_fill :: "u32 \<Rightarrow> byte list \<Rightarrow> byte list" where
  "zero_fill n buf =
     (if length buf < unat n \<and> length buf < NTOA_BUFFER_SIZE then zero_fill n (buf @ [c_0]) else buf)"
  by pat_completeness auto
termination by (relation "measure (\<lambda>(n, buf). NTOA_BUFFER_SIZE - length buf)") auto

declare zero_fill.simps [simp del]

text \<open>The three stages of \<open>_ntoa_format\<close> on \<open>buf\<close>: leading zeros, the base prefix, the sign.\<close>

definition ntoa_zeros :: "bool \<Rightarrow> u32 \<Rightarrow> u32 \<Rightarrow> u32 \<Rightarrow> byte list \<Rightarrow> byte list \<times> u32" where
  "ntoa_zeros negative prec width flags buf =
     (if \<not> has flags FLAGS_LEFT then
        let width = (if width \<noteq> 0 \<and> has flags FLAGS_ZEROPAD
                        \<and> (negative \<or> has flags (FLAGS_PLUS OR FLAGS_SPACE)) then width - 1 else width);
            buf = zero_fill prec buf;
            buf = (if has flags FLAGS_ZEROPAD then zero_fill width buf else buf)
        in (buf, width)
      else (buf, width))"

definition ntoa_hash :: "u32 \<Rightarrow> u32 \<Rightarrow> u32 \<Rightarrow> u32 \<Rightarrow> byte list \<Rightarrow> byte list" where
  "ntoa_hash base prec width flags buf =
     (if has flags FLAGS_HASH then
        let buf = (if \<not> has flags FLAGS_PRECISION \<and> length buf \<noteq> 0
                      \<and> (length buf = unat prec \<or> length buf = unat width)
                   then (let buf = butlast buf
                         in if length buf \<noteq> 0 \<and> base = 16 then butlast buf else buf)
                   else buf);
            buf = (if base = 16 \<and> \<not> has flags FLAGS_UPPERCASE \<and> length buf < NTOA_BUFFER_SIZE
                   then buf @ [c_x]
                   else if base = 16 \<and> has flags FLAGS_UPPERCASE \<and> length buf < NTOA_BUFFER_SIZE
                   then buf @ [c_X]
                   else if base = 2 \<and> length buf < NTOA_BUFFER_SIZE then buf @ [c_b] else buf)
        in if length buf < NTOA_BUFFER_SIZE then buf @ [c_0] else buf
      else buf)"

definition ntoa_sign :: "bool \<Rightarrow> u32 \<Rightarrow> byte list \<Rightarrow> byte list" where
  "ntoa_sign negative flags buf =
     (if length buf < NTOA_BUFFER_SIZE then
        if negative then buf @ [c_minus]
        else if has flags FLAGS_PLUS then buf @ [c_plus]
        else if has flags FLAGS_SPACE then buf @ [c_space] else buf
      else buf)"

definition ntoa_format :: "out_fct_type \<Rightarrow> u32 \<Rightarrow> u32 \<Rightarrow> byte list \<Rightarrow> bool \<Rightarrow> u32 \<Rightarrow> u32 \<Rightarrow> u32
    \<Rightarrow> u32 \<Rightarrow> outpos \<Rightarrow> outpos" where
  "ntoa_format out buffer maxlen buf negative base prec width flags o' =
     (let (buf, width) = ntoa_zeros negative prec width flags buf;
          buf = ntoa_hash base prec width flags buf;
          buf = ntoa_sign negative flags buf
      in out_rev out buffer maxlen buf width flags o')"

text \<open>The digit loop of \<open>_ntoa_long\<close>, least significant digit first.\<close>

definition digit_char :: "u32 \<Rightarrow> byte \<Rightarrow> byte" where
  "digit_char flags digit = (if digit < 10 then c_0 + digit
     else (if has flags FLAGS_UPPERCASE then c_A else c_a) + digit - 10)"

function digits_loop :: "u32 \<Rightarrow> u32 \<Rightarrow> u32 \<Rightarrow> byte list \<Rightarrow> byte list" where
  "digits_loop value base flags buf =
     (let digit = ucast (value mod base);
          buf = buf @ [digit_char flags digit];
          value = value div base
      in if value \<noteq> 0 \<and> length buf < NTOA_BUFFER_SIZE then digits_loop value base flags buf else buf)"
  by pat_completeness auto
termination by (relation "measure (\<lambda>(v, b, f, buf). NTOA_BUFFER_SIZE - length buf)") auto

declare digits_loop.simps [simp del]

definition ntoa_long :: "out_fct_type \<Rightarrow> u32 \<Rightarrow> u32 \<Rightarrow> u32 \<Rightarrow> bool \<Rightarrow> u32 \<Rightarrow> u32 \<Rightarrow> u32 \<Rightarrow> u32
    \<Rightarrow> outpos \<Rightarrow> outpos" where
  "ntoa_long out buffer maxlen value negative base prec width flags o' =
     (let flags = (if value = 0 then flags AND NOT FLAGS_HASH else flags);
          buf = (if \<not> has flags FLAGS_PRECISION \<or> value \<noteq> 0 then digits_loop value base flags [] else [])
      in ntoa_format out buffer maxlen buf negative base prec width flags o')"

section \<open>Format specifiers\<close>

text \<open>Flags: every flag character sets its bit.\<close>

definition flag_of :: "byte \<Rightarrow> u32" where
  "flag_of c = (if c = c_0 then FLAGS_ZEROPAD else if c = c_minus then FLAGS_LEFT
     else if c = c_plus then FLAGS_PLUS else if c = c_space then FLAGS_SPACE
     else if c = c_hash then FLAGS_HASH else 0)"

partial_function (option) parse_flags :: "memory \<Rightarrow> u32 \<Rightarrow> u32 \<Rightarrow> (u32 \<times> u32) option" where
  "parse_flags m format flags =
     (if flag_of (m format) \<noteq> 0 then parse_flags m (format + 1) (flags OR flag_of (m format))
      else Some (flags, format))"

text \<open>\<open>va_arg\<close>\<close>

fun va_arg :: "u32 list \<Rightarrow> (u32 \<times> u32 list) option" where
  "va_arg [] = None"
| "va_arg (v # va) = Some (v, va)"

text \<open>Width and precision; both return the flags, the format pointer and the arguments left.\<close>

definition parse_width :: "u32 \<Rightarrow> u32 \<Rightarrow> u32 list \<Rightarrow> machine \<Rightarrow> (u32 \<times> u32 \<times> u32 \<times> u32 list) option" where
  "parse_width flags format va st =
     (if is_digit (mem st format) then do {
        (width, format) \<leftarrow> atoi format st;
        Some (width, flags, format, va)
      } else if mem st format = c_star then do {
        (w, va) \<leftarrow> va_arg va;
        if sint w < 0 then Some (- w, flags OR FLAGS_LEFT, format + 1, va)
        else Some (w, flags, format + 1, va)
      } else Some (0, flags, format, va))"

definition parse_precision :: "u32 \<Rightarrow> u32 \<Rightarrow> u32 list \<Rightarrow> machine \<Rightarrow> (u32 \<times> u32 \<times> u32 \<times> u32 list) option" where
  "parse_precision flags format va st =
     (if mem st format = c_dot then
        let flags = flags OR FLAGS_PRECISION; format = format + 1
        in if is_digit (mem st format) then do {
             (precision, format) \<leftarrow> atoi format st;
             Some (precision, flags, format, va)
           } else if mem st format = c_star then do {
             (prec, va) \<leftarrow> va_arg va;
             Some (if sint prec > 0 then prec else 0, flags, format + 1, va)
           } else Some (0, flags, format, va)
      else Some (0, flags, format, va))"

text \<open>
  Length modifiers. \<open>ptrdiff_t\<close> and \<open>size_t\<close> have the size of \<open>long\<close>, \<open>intmax_t\<close> has not.
\<close>

definition parse_length :: "u32 \<Rightarrow> u32 \<Rightarrow> machine \<Rightarrow> u32 \<times> u32" where
  "parse_length flags format st =
     (let c = mem st format; c' = mem st (format + 1)
      in if c = c_l then
           if c' = c_l then (flags OR FLAGS_LONG OR FLAGS_LONG_LONG, format + 2)
           else (flags OR FLAGS_LONG, format + 1)
         else if c = c_h then
           if c' = c_h then (flags OR FLAGS_SHORT OR FLAGS_CHAR, format + 2)
           else (flags OR FLAGS_SHORT, format + 1)
         else if c = c_t then (flags OR FLAGS_LONG, format + 1)
         else if c = c_j then (flags OR FLAGS_LONG_LONG, format + 1)
         else if c = c_z then (flags OR FLAGS_LONG, format + 1)
         else (flags, format))"

section \<open>Conversions\<close>

definition int_specifier :: "byte \<Rightarrow> bool" where
  "int_specifier c \<longleftrightarrow> c = c_d \<or> c = c_i \<or> c = c_u \<or> c = c_x \<or> c = c_X \<or> c = c_o \<or> c = c_b"

text \<open>Base and flags of an integer conversion, in the order the code adjusts them.\<close>

definition int_base :: "byte \<Rightarrow> u32" where
  "int_base c = (if c = c_x \<or> c = c_X then 16 else if c = c_o then 8 else if c = c_b then 2 else 10)"

definition int_flags :: "byte \<Rightarrow> u32 \<Rightarrow> u32" where
  "int_flags c flags =
     (let flags = (if int_base c = 10 then flags AND NOT FLAGS_HASH else flags);
          flags = (if c = c_X then flags OR FLAGS_UPPERCASE else flags);
          flags = (if c \<noteq> c_i \<and> c \<noteq> c_d then flags AND NOT (FLAGS_PLUS OR FLAGS_SPACE) else flags)
      in if has flags FLAGS_PRECISION then flags AND NOT FLAGS_ZEROPAD else flags)"

text \<open>
  \<open>value > 0 ? value : 0 - value\<close>; without \<open>long long\<close> support an \<open>ll\<close> conversion takes no
  argument and prints nothing. A \<open>char\<close> is unsigned, a \<open>short\<close> is sign-extended.
\<close>

definition magnitude :: "u32 \<Rightarrow> u32" where
  "magnitude value = (if sint value > 0 then value else - value)"

definition signed_arg :: "u32 \<Rightarrow> u32 \<Rightarrow> u32" where
  "signed_arg flags v = (if has flags FLAGS_CHAR then ucast (ucast v :: 8 word)
     else if has flags FLAGS_SHORT then scast (ucast v :: 16 word) else v)"

definition unsigned_arg :: "u32 \<Rightarrow> u32 \<Rightarrow> u32" where
  "unsigned_arg flags v = (if has flags FLAGS_CHAR then ucast (ucast v :: 8 word)
     else if has flags FLAGS_SHORT then ucast (ucast v :: 16 word) else v)"

definition convert_int :: "out_fct_type \<Rightarrow> u32 \<Rightarrow> u32 \<Rightarrow> byte \<Rightarrow> u32 \<Rightarrow> u32 \<Rightarrow> u32 \<Rightarrow> u32 list
    \<Rightarrow> outpos \<Rightarrow> (u32 list \<times> outpos) option" where
  "convert_int out buffer maxlen c flags width precision va o' =
     (let base = int_base c; flags = int_flags c flags
      in if has flags FLAGS_LONG_LONG then Some (va, o')
         else do {
           (v, va) \<leftarrow> va_arg va;
           if c = c_i \<or> c = c_d then
             let value = (if has flags FLAGS_LONG then v else signed_arg flags v)
             in Some (va, ntoa_long out buffer maxlen (magnitude value) (sint value < 0) base
                  precision width flags o')
           else
             let value = (if has flags FLAGS_LONG then v else unsigned_arg flags v)
             in Some (va, ntoa_long out buffer maxlen value False base precision width flags o')
         })"

text \<open>\<open>while (l++ < width) out(' ', buffer, idx++, maxlen);\<close>\<close>

definition pad_spaces :: "out_fct_type \<Rightarrow> u32 \<Rightarrow> u32 \<Rightarrow> u32 \<Rightarrow> u32 \<Rightarrow> outpos \<Rightarrow> outpos" where
  "pad_spaces out buffer maxlen l width = for_up l width (\<lambda>_. emit out buffer maxlen c_space)"

definition convert_char :: "out_fct_type \<Rightarrow> u32 \<Rightarrow> u32 \<Rightarrow> u32 \<Rightarrow> u32 \<Rightarrow> u32 list
    \<Rightarrow> outpos \<Rightarrow> (u32 list \<times> outpos) option" where
  "convert_char out buffer maxlen flags width va o' = do {
     let o' = (if \<not> has flags FLAGS_LEFT then pad_spaces out buffer maxlen 1 width o' else o');
     (v, va) \<leftarrow> va_arg va;
     let o' = emit out buffer maxlen (ucast v) o';
     Some (va, if has flags FLAGS_LEFT then pad_spaces out buffer maxlen 1 width o' else o')
   }"

text \<open>\<open>while ((*p != 0) && (!(flags & FLAGS_PRECISION) || precision--))\<close>\<close>

partial_function (option) string_loop :: "out_fct_type \<Rightarrow> u32 \<Rightarrow> u32 \<Rightarrow> u32 \<Rightarrow> u32 \<Rightarrow> u32
    \<Rightarrow> outpos \<Rightarrow> outpos option" where
  "string_loop out buffer maxlen flags p precision o' =
     (if mem (snd o') p \<noteq> 0 \<and> (\<not> has flags FLAGS_PRECISION \<or> precision \<noteq> 0)
      then string_loop out buffer maxlen flags (p + 1)
             (if has flags FLAGS_PRECISION then precision - 1 else precision)
             (emit out buffer maxlen (mem (snd o') p) o')
      else Some o')"

definition convert_string :: "out_fct_type \<Rightarrow> u32 \<Rightarrow> u32 \<Rightarrow> u32 \<Rightarrow> u32 \<Rightarrow> u32 \<Rightarrow> u32 list
    \<Rightarrow> outpos \<Rightarrow> (u32 list \<times> outpos) option" where
  "convert_string out buffer maxlen flags width precision va o' = do {
     (p, va) \<leftarrow> va_arg va;
     let l = strnlen_s p (if precision \<noteq> 0 then precision else - 1) (snd o');
     let l = (if has flags FLAGS_PRECISION then (if l < precision then l else precision) else l);
     let o' = (if \<not> has flags FLAGS_LEFT then pad_spaces out buffer maxlen l width o' else o');
     o' \<leftarrow> string_loop out buffer maxlen flags p precision o';
     Some (va, if has flags FLAGS_LEFT then pad_spaces out buffer maxlen l width o' else o')
   }"

definition convert_pointer :: "out_fct_type \<Rightarrow> u32 \<Rightarrow> u32 \<Rightarrow> u32 \<Rightarrow> u32 \<Rightarrow> u32 list
    \<Rightarrow> outpos \<Rightarrow> (u32 list \<times> outpos) option" where
  "convert_pointer out buffer maxlen flags precision va o' = do {
     let width = 8;
     let flags = flags OR FLAGS_ZEROPAD OR FLAGS_UPPERCASE;
     (v, va) \<leftarrow> va_arg va;
     Some (va, ntoa_long out buffer maxlen v False 16 precision width flags o')
   }"

text \<open>
  The specifier switch. \<open>%f\<close> and the other floating point conversions are not compiled in and
  fall to the default, which prints the specifier character itself, as for \<open>%%\<close>.
\<close>

definition convert :: "out_fct_type \<Rightarrow> u32 \<Rightarrow> u32 \<Rightarrow> byte \<Rightarrow> u32 \<Rightarrow> u32 \<Rightarrow> u32 \<Rightarrow> u32 list
    \<Rightarrow> outpos \<Rightarrow> (u32 list \<times> outpos) option" where
  "convert out buffer maxlen c flags width precision va o' =
     (if int_specifier c then convert_int out buffer maxlen c flags width precision va o'
      else if c = c_c then convert_char out buffer maxlen flags width va o'
      else if c = c_s then convert_string out buffer maxlen flags width precision va o'
      else if c = c_p then convert_pointer out buffer maxlen flags precision va o'
      else if c = c_percent then Some (va, emit out buffer maxlen c_percent o')
      else Some (va, emit out buffer maxlen c o'))"

section \<open>The formatter\<close>

partial_function (option) format_loop :: "out_fct_type \<Rightarrow> u32 \<Rightarrow> u32 \<Rightarrow> u32 \<Rightarrow> u32 list
    \<Rightarrow> outpos \<Rightarrow> outpos option" where
  "format_loop out buffer maxlen format va o' =
     (if mem (snd o') format = 0 then Some o'
      else if mem (snd o') format \<noteq> c_percent then
        format_loop out buffer maxlen (format + 1) va
          (emit out buffer maxlen (mem (snd o') format) o')
      else do {
        (flags, format) \<leftarrow> parse_flags (mem (snd o')) (format + 1) 0;
        (width, flags, format, va) \<leftarrow> parse_width flags format va (snd o');
        (precision, flags, format, va) \<leftarrow> parse_precision flags format va (snd o');
        let (flags, format) = parse_length flags format (snd o');
        (va, o') \<leftarrow> convert out buffer maxlen (mem (snd o') format) flags width precision va o';
        format_loop out buffer maxlen (format + 1) va o'
      })"

text \<open>\<open>_vsnprintf\<close>: the index is the number of characters, cut or not.\<close>

definition vsnprintf_core :: "out_fct_type \<Rightarrow> u32 \<Rightarrow> u32 \<Rightarrow> u32 \<Rightarrow> u32 list \<Rightarrow> machine
    \<Rightarrow> (u32 \<times> machine) option" where
  "vsnprintf_core out buffer maxlen format va st = do {
     let out = (if buffer = 0 then out_null else out);
     (idx, st) \<leftarrow> format_loop out buffer maxlen format va (0, st);
     Some (idx, out 0 buffer (if idx < maxlen then idx else maxlen - 1) maxlen st)
   }"

text \<open>
  The entry points. \<open>stack\<close> is the address of the local object whose address is passed on: the
  one-byte \<open>buffer\<close> of \<open>printf\<close> and the wrapper object of \<open>fctprintf\<close>.
\<close>

definition printf :: "u32 \<Rightarrow> u32 \<Rightarrow> u32 list \<Rightarrow> machine \<Rightarrow> (u32 \<times> machine) option" where
  "printf stack format va st = vsnprintf_core out_char stack (- 1) format va st"

definition sprintf :: "u32 \<Rightarrow> u32 \<Rightarrow> u32 list \<Rightarrow> machine \<Rightarrow> (u32 \<times> machine) option" where
  "sprintf buffer format va st = vsnprintf_core out_buffer buffer (- 1) format va st"

definition snprintf :: "u32 \<Rightarrow> u32 \<Rightarrow> u32 \<Rightarrow> u32 list \<Rightarrow> machine \<Rightarrow> (u32 \<times> machine) option" where
  "snprintf buffer count format va st = vsnprintf_core out_buffer buffer count format va st"

definition vprintf :: "u32 \<Rightarrow> u32 \<Rightarrow> u32 list \<Rightarrow> machine \<Rightarrow> (u32 \<times> machine) option" where
  "vprintf stack format va st = vsnprintf_core out_char stack (- 1) format va st"

definition vsnprintf :: "u32 \<Rightarrow> u32 \<Rightarrow> u32 \<Rightarrow> u32 list \<Rightarrow> machine \<Rightarrow> (u32 \<times> machine) option" where
  "vsnprintf buffer count format va st = vsnprintf_core out_buffer buffer count format va st"

definition vsprintf :: "u32 \<Rightarrow> u32 \<Rightarrow> u32 list \<Rightarrow> machine \<Rightarrow> (u32 \<times> machine) option" where
  "vsprintf buffer format va st = vsnprintf buffer (- 1) format va st"

definition vfprintf :: "u32 \<Rightarrow> u32 \<Rightarrow> u32 list \<Rightarrow> machine \<Rightarrow> (u32 \<times> machine) option" where
  "vfprintf stream format va st = vsnprintf 0 (- 1) format va st"

text \<open>
  \<open>fctprintf\<close> stores the callback \<open>out\<close> and its argument in the wrapper object and passes that
  object as the buffer, with \<open>_out_buffer\<close> as the output function.
\<close>

definition fctprintf :: "u32 \<Rightarrow> u32 \<Rightarrow> u32 \<Rightarrow> u32 \<Rightarrow> u32 list \<Rightarrow> machine \<Rightarrow> (u32 \<times> machine) option" where
  "fctprintf stack out arg format va st =
     (let st = st\<lparr>mem := store32 (stack + 4) arg (store32 stack out (mem st))\<rparr>
      in vsnprintf_core out_buffer stack (- 1) format va st)"

end
