(* ===== verification/FormatSpec.thy ===== *)
theory FormatSpec
  imports Printf
begin

text \<open>
  What the formatter of \<open>printf.c\<close> is to print, as a function on lists: \<open>render\<close> maps the bytes
  of a format string and the arguments to the bytes printed. It knows nothing of pointers,
  output functions or memory. The digits and the number buffer are those of the code; what they
  mean is proved in \<open>NumberText\<close>.
\<close>

section \<open>Arguments and number text\<close>

text \<open>An argument word, or a pointer that is known to point to a C string.\<close>

datatype arg = Num u32 | Text u32 "byte list"

fun arg_word :: "arg \<Rightarrow> u32" where
  "arg_word (Num v) = v"
| "arg_word (Text p s) = p"

definition rev_text :: "byte list \<Rightarrow> u32 \<Rightarrow> u32 \<Rightarrow> byte list" where
  "rev_text buf width flags =
     (let spaces = replicate (unat width - length buf) c_space
      in if has flags FLAGS_LEFT then rev buf @ spaces
         else if has flags FLAGS_ZEROPAD then rev buf else spaces @ rev buf)"

text \<open>The contents of \<open>buf\<close> at the end of \<open>_ntoa_format\<close>, and the width it passes on.\<close>

definition ntoa_buf :: "bool \<Rightarrow> u32 \<Rightarrow> u32 \<Rightarrow> u32 \<Rightarrow> u32 \<Rightarrow> byte list \<Rightarrow> byte list \<times> u32" where
  "ntoa_buf negative base prec width flags buf =
     (let (buf, width) = ntoa_zeros negative prec width flags buf
      in (ntoa_sign negative flags (ntoa_hash base prec width flags buf), width))"

definition ntoa_text :: "u32 \<Rightarrow> bool \<Rightarrow> u32 \<Rightarrow> u32 \<Rightarrow> u32 \<Rightarrow> u32 \<Rightarrow> byte list" where
  "ntoa_text value negative base prec width flags =
     (let flags = (if value = 0 then flags AND NOT FLAGS_HASH else flags);
          digits = (if \<not> has flags FLAGS_PRECISION \<or> value \<noteq> 0 then digits_loop value base flags [] else []);
          (buf, width) = ntoa_buf negative base prec width flags digits
      in rev_text buf width flags)"

definition int_text :: "byte \<Rightarrow> u32 \<Rightarrow> u32 \<Rightarrow> u32 \<Rightarrow> u32 \<Rightarrow> byte list" where
  "int_text c flags width precision v =
     (let base = int_base c; flags = int_flags c flags
      in if c = c_i \<or> c = c_d then
           let value = (if has flags FLAGS_LONG then v else signed_arg flags v)
           in ntoa_text (magnitude value) (sint value < 0) base precision width flags
         else
           let value = (if has flags FLAGS_LONG then v else unsigned_arg flags v)
           in ntoa_text value False base precision width flags)"

definition pad_text :: "u32 \<Rightarrow> nat \<Rightarrow> u32 \<Rightarrow> byte list \<Rightarrow> byte list" where
  "pad_text flags k width t =
     (let spaces = replicate (unat width - k) c_space
      in if has flags FLAGS_LEFT then t @ spaces else spaces @ t)"

definition cut :: "u32 \<Rightarrow> u32 \<Rightarrow> byte list \<Rightarrow> byte list" where
  "cut flags precision s = (if has flags FLAGS_PRECISION then take (unat precision) s else s)"

definition conv_text :: "byte \<Rightarrow> u32 \<Rightarrow> u32 \<Rightarrow> u32 \<Rightarrow> arg list \<Rightarrow> (arg list \<times> byte list) option" where
  "conv_text c flags width precision args =
     (if int_specifier c then
        if has (int_flags c flags) FLAGS_LONG_LONG then Some (args, [])
        else (case args of [] \<Rightarrow> None
              | a # args \<Rightarrow> Some (args, int_text c flags width precision (arg_word a)))
      else if c = c_c then
        (case args of [] \<Rightarrow> None
         | a # args \<Rightarrow> Some (args, pad_text flags 1 width [ucast (arg_word a)]))
      else if c = c_s then
        (case args of Text p s # args \<Rightarrow>
           Some (args, pad_text flags (length (cut flags precision s)) width (cut flags precision s))
         | _ \<Rightarrow> None)
      else if c = c_p then
        (case args of [] \<Rightarrow> None
         | a # args \<Rightarrow> Some (args, ntoa_text (arg_word a) False 16 precision 8
             (flags OR FLAGS_ZEROPAD OR FLAGS_UPPERCASE)))
      else Some (args, [c]))"

section \<open>Reading a directive\<close>

fun r_flags :: "byte list \<Rightarrow> u32 \<Rightarrow> byte list \<times> u32" where
  "r_flags [] flags = ([], flags)"
| "r_flags (c # cs) flags =
     (if flag_of c \<noteq> 0 then r_flags cs (flags OR flag_of c) else (c # cs, flags))"

fun r_atoi :: "byte list \<Rightarrow> u32 \<Rightarrow> u32 \<times> byte list" where
  "r_atoi [] i = (i, [])"
| "r_atoi (c # cs) i = (if is_digit c then r_atoi cs (i * 10 + ucast (c - c_0)) else (i, c # cs))"

definition r_width :: "byte list \<Rightarrow> arg list \<Rightarrow> u32 \<Rightarrow> (u32 \<times> u32 \<times> byte list \<times> arg list) option" where
  "r_width cs args flags =
     (case cs of [] \<Rightarrow> Some (0, flags, [], args)
      | c # cs' \<Rightarrow>
        if is_digit c then (let (w, cs) = r_atoi cs 0 in Some (w, flags, cs, args))
        else if c = c_star then
          (case args of [] \<Rightarrow> None
           | a # args \<Rightarrow> if sint (arg_word a) < 0
               then Some (- arg_word a, flags OR FLAGS_LEFT, cs', args)
               else Some (arg_word a, flags, cs', args))
        else Some (0, flags, cs, args))"

definition r_precision :: "byte list \<Rightarrow> arg list \<Rightarrow> u32 \<Rightarrow> (u32 \<times> u32 \<times> byte list \<times> arg list) option" where
  "r_precision cs args flags =
     (case cs of c # cs \<Rightarrow>
        if c = c_dot then
          (case cs of [] \<Rightarrow> Some (0, flags OR FLAGS_PRECISION, [], args)
           | c # cs' \<Rightarrow>
             if is_digit c then (let (p, cs) = r_atoi cs 0 in Some (p, flags OR FLAGS_PRECISION, cs, args))
             else if c = c_star then
               (case args of [] \<Rightarrow> None
                | a # args \<Rightarrow> Some (if sint (arg_word a) > 0 then arg_word a else 0,
                    flags OR FLAGS_PRECISION, cs', args))
             else Some (0, flags OR FLAGS_PRECISION, cs, args))
        else Some (0, flags, c # cs, args)
      | [] \<Rightarrow> Some (0, flags, [], args))"

definition starts :: "byte \<Rightarrow> byte list \<Rightarrow> bool" where
  "starts c cs \<longleftrightarrow> (case cs of [] \<Rightarrow> False | x # _ \<Rightarrow> x = c)"

definition r_length :: "byte list \<Rightarrow> u32 \<Rightarrow> u32 \<times> byte list" where
  "r_length cs flags =
     (if starts c_l cs then
        if starts c_l (tl cs) then (flags OR FLAGS_LONG OR FLAGS_LONG_LONG, tl (tl cs))
        else (flags OR FLAGS_LONG, tl cs)
      else if starts c_h cs then
        if starts c_h (tl cs) then (flags OR FLAGS_SHORT OR FLAGS_CHAR, tl (tl cs))
        else (flags OR FLAGS_SHORT, tl cs)
      else if starts c_t cs then (flags OR FLAGS_LONG, tl cs)
      else if starts c_j cs then (flags OR FLAGS_LONG_LONG, tl cs)
      else if starts c_z cs then (flags OR FLAGS_LONG, tl cs)
      else (flags, cs))"

text \<open>
  What stands between a \<open>%\<close> and the conversion: the specifier, the flags, the width and the precision,
  and what is left of the format and of the arguments.
\<close>

definition scan :: "byte list \<Rightarrow> arg list \<Rightarrow> (byte \<times> u32 \<times> u32 \<times> u32 \<times> byte list \<times> arg list) option" where
  "scan cs args = (let (cs, flags) = r_flags cs 0 in do {
     (width, flags, cs, args) \<leftarrow> r_width cs args flags;
     (precision, flags, cs, args) \<leftarrow> r_precision cs args flags;
     let (flags, cs) = r_length cs flags;
     (case cs of [] \<Rightarrow> None | c # cs \<Rightarrow> Some (c, flags, width, precision, cs, args))
   })"

text \<open>What follows a \<open>%\<close>: the text, and what is left of the format and of the arguments.\<close>

definition directive :: "byte list \<Rightarrow> arg list \<Rightarrow> (byte list \<times> byte list \<times> arg list) option" where
  "directive cs args = do {
     (c, flags, width, precision, cs, args) \<leftarrow> scan cs args;
     (args, t) \<leftarrow> conv_text c flags width precision args;
     Some (t, cs, args)
   }"

lemma r_flags_length: "length (fst (r_flags cs fl)) \<le> length cs"
  by (induction cs fl rule: r_flags.induct) auto

lemma r_atoi_length: "length (snd (r_atoi cs i)) \<le> length cs"
  by (induction cs i rule: r_atoi.induct) auto

lemma r_width_length: "r_width cs args fl = Some (w, fl', cs', args') \<Longrightarrow> length cs' \<le> length cs"
  using r_atoi_length [of cs 0]
  by (auto simp: r_width_def split: list.splits if_splits prod.splits)

lemma r_precision_length: "r_precision cs args fl = Some (p, fl', cs', args') \<Longrightarrow> length cs' \<le> length cs"
  using r_atoi_length [of "tl cs" 0]
  by (auto simp: r_precision_def split: list.splits if_splits prod.splits)

lemma r_length_length: "length (snd (r_length cs fl)) \<le> length cs"
  by (auto simp: r_length_def)

lemma scanE:
  assumes "scan cs args = Some (c, fl, w, p, cs', args')"
  obtains cs1 fl1 fl2 cs2 args2 fl3 cs3 where
    "r_flags cs 0 = (cs1, fl1)" "r_width cs1 args fl1 = Some (w, fl2, cs2, args2)"
    "r_precision cs2 args2 fl2 = Some (p, fl3, cs3, args')" "r_length cs3 fl3 = (fl, c # cs')"
proof -
  obtain cs1 fl1 where f: "r_flags cs 0 = (cs1, fl1)" by (metis surj_pair)
  from assms obtain w' fl2 cs2 args2 where w: "r_width cs1 args fl1 = Some (w', fl2, cs2, args2)"
    by (auto simp: scan_def f bind_eq_Some_conv)
  from assms obtain p' fl3 cs3 args3 where p: "r_precision cs2 args2 fl2 = Some (p', fl3, cs3, args3)"
    by (auto simp: scan_def f w bind_eq_Some_conv)
  from assms have "r_length cs3 fl3 = (fl, c # cs')" "w' = w" "p' = p" "args3 = args'"
    by (auto simp: scan_def f w p bind_eq_Some_conv split: list.splits prod.splits)
  with f w p that show ?thesis by blast
qed

lemma scan_length: "scan cs args = Some (c, fl, w, p, cs', args') \<Longrightarrow> length cs' < length cs"
proof (erule scanE)
  fix cs1 fl1 fl2 cs2 args2 fl3 cs3
  assume d: "r_flags cs 0 = (cs1, fl1)" "r_width cs1 args fl1 = Some (w, fl2, cs2, args2)"
    "r_precision cs2 args2 fl2 = Some (p, fl3, cs3, args')" "r_length cs3 fl3 = (fl, c # cs')"
  have "length cs1 \<le> length cs" using r_flags_length [of cs 0] d(1) by simp
  moreover have "length cs' < length cs3" using r_length_length [of cs3 fl3] d(4) by simp
  ultimately show ?thesis using r_width_length [OF d(2)] r_precision_length [OF d(3)] by simp
qed

lemma directive_length: "directive cs args = Some (t, cs', args') \<Longrightarrow> length cs' < length cs"
  by (auto simp: directive_def bind_eq_Some_conv dest: scan_length)

section \<open>The text of a format string\<close>

text \<open>
  \<open>None\<close> where C leaves the call undefined: an argument is missing, a \<open>%s\<close> argument is no
  string, or the format string ends inside a directive.
\<close>

function render :: "byte list \<Rightarrow> arg list \<Rightarrow> byte list option" where
  "render [] args = Some []"
| "render (c # cs) args =
     (if c \<noteq> c_percent then map_option (Cons c) (render cs args)
      else case directive cs args of None \<Rightarrow> None
           | Some (t, cs', args') \<Rightarrow> map_option (append t) (render cs' args'))"
  by pat_completeness auto
termination
  by (relation "measure (\<lambda>(cs, args). length cs)") (auto dest: directive_length)

end
