(* ===== verification/Sinks.thy ===== *)
theory Sinks
  imports FormatSpec
begin

text \<open>
  The formatter of \<open>printf.c\<close> against its specification \<open>render\<close>, for every output function:
  the interface \<open>sink\<close> says which bytes an output function leaves alone, the refinement is
  proved once from it, and the output functions of \<open>printf.c\<close> are its instances.
\<close>

section \<open>Emitting a text\<close>

definition emits :: "out_fct_type \<Rightarrow> u32 \<Rightarrow> u32 \<Rightarrow> byte list \<Rightarrow> outpos \<Rightarrow> outpos" where
  "emits out buffer maxlen t o' = fold (emit out buffer maxlen) t o'"

lemma emits_simps [simp]:
  "emits out buffer maxlen [] o' = o'"
  "emits out buffer maxlen (c # t) o' = emits out buffer maxlen t (emit out buffer maxlen c o')"
  "emits out buffer maxlen (t @ t') o' = emits out buffer maxlen t' (emits out buffer maxlen t o')"
  by (simp_all add: emits_def)

lemma emits_idx: "fst (emits out buffer maxlen t o') = fst o' + of_nat (length t)"
  by (induction t arbitrary: o') (simp_all add: emit_def)

text \<open>The loops of the formatter that print the same character several times.\<close>

lemma for_up_const: "for_up i n (\<lambda>_. g) s = (g ^^ (unat n - unat i)) s"
proof -
  have "fold (\<lambda>_. g) xs s = (g ^^ length xs) s" for xs :: "u32 list"
    by (induction xs arbitrary: s) (simp_all add: funpow_swap1)
  then show ?thesis by (simp add: for_up_fold)
qed

lemma for_up_emits:
  "for_up i n (\<lambda>_. emit out buffer maxlen c) o'
    = emits out buffer maxlen (replicate (unat n - unat i) c) o'"
  by (simp add: for_up_const emits_def fold_replicate)

lemma pad_spaces_emits:
  "pad_spaces out buffer maxlen l width o'
    = emits out buffer maxlen (replicate (unat width - unat l) c_space) o'"
  by (simp add: pad_spaces_def for_up_emits)

lemma rev_loop_emits:
  "n \<le> length buf \<Longrightarrow> rev_loop out buffer maxlen buf n o' = emits out buffer maxlen (rev (take n buf)) o'"
  by (induction n arbitrary: o') (simp_all add: take_Suc_conv_app_nth)

lemma pad_to_emits:
  "pad_to out buffer maxlen start width o'
    = emits out buffer maxlen (replicate (unat width - unat (fst o' - start)) c_space) o'"
proof (induction out buffer maxlen start width o' rule: pad_to.induct)
  case (1 out buffer maxlen start width o')
  show ?case
  proof (cases "fst o' - start < width")
    case True
    have eq: "fst (emit out buffer maxlen c_space o') - start = fst o' - start + 1"
      by (simp add: emit_def)
    have "unat width - unat (fst o' - start) = Suc (unat width - unat (fst o' - start + 1))"
      using True unat_add1_lt [OF True] by (simp add: word_less_nat_alt)
    with True "1.IH" show ?thesis by (subst pad_to.simps) (simp add: eq)
  next
    case False
    then show ?thesis by (subst pad_to.simps) (simp add: word_less_nat_alt)
  qed
qed

lemma out_rev_emits:
  assumes "length buf \<le> 32"
  shows "out_rev out buffer maxlen buf width flags o' = emits out buffer maxlen (rev_text buf width flags) o'"
proof -
  have "unat (of_nat (length buf) :: u32) = length buf" using assms by (simp add: unat_of_nat32)
  then show ?thesis
    by (simp add: out_rev_def rev_text_def Let_def for_up_emits rev_loop_emits pad_to_emits emits_idx)
qed

section \<open>The number buffer\<close>

text \<open>No stage writes behind the 32 bytes of \<open>buf\<close>.\<close>

lemma digits_loop_length:
  "length buf < 32 \<Longrightarrow> length (digits_loop v base flags buf) \<le> 32"
proof (induction v base flags buf rule: digits_loop.induct)
  case (1 v base flags buf)
  then show ?case
    by (subst digits_loop.simps) (simp add: Let_def NTOA_BUFFER_SIZE_def)
qed

lemma zero_fill_eq:
  "zero_fill n buf = buf @ replicate (min (unat n) 32 - length buf) c_0"
proof (induction n buf rule: zero_fill.induct)
  case (1 n buf)
  show ?case
  proof (cases "length buf < unat n \<and> length buf < 32")
    case True
    then have "min (unat n) 32 - length buf = Suc (min (unat n) 32 - length (buf @ [c_0]))" by auto
    with True 1 show ?thesis by (subst zero_fill.simps) (simp add: NTOA_BUFFER_SIZE_def)
  next
    case False
    then have "min (unat n) 32 - length buf = 0" by auto
    with False show ?thesis by (subst zero_fill.simps) (auto simp: NTOA_BUFFER_SIZE_def)
  qed
qed

lemma ntoa_stage_lengths:
  "length buf \<le> 32 \<Longrightarrow> length (fst (ntoa_zeros negative prec width flags buf)) \<le> 32"
  "length buf \<le> 32 \<Longrightarrow> length (ntoa_hash base prec width flags buf) \<le> 32"
  "length buf \<le> 32 \<Longrightarrow> length (ntoa_sign negative flags buf) \<le> 32"
proof -
  assume len: "length buf \<le> 32"
  then show "length (fst (ntoa_zeros negative prec width flags buf)) \<le> 32"
    by (auto simp: ntoa_zeros_def zero_fill_eq Let_def)
  define b where "b = (if \<not> has flags FLAGS_PRECISION \<and> length buf \<noteq> 0
      \<and> (length buf = unat prec \<or> length buf = unat width)
    then (let buf = butlast buf in if length buf \<noteq> 0 \<and> base = 16 then butlast buf else buf) else buf)"
  have "length b \<le> 32" using len by (auto simp: b_def Let_def)
  then show "length (ntoa_hash base prec width flags buf) \<le> 32"
    unfolding ntoa_hash_def Let_def b_def [unfolded Let_def, symmetric]
    using len by (auto simp: NTOA_BUFFER_SIZE_def)
  show "length (ntoa_sign negative flags buf) \<le> 32"
    using len by (auto simp: ntoa_sign_def NTOA_BUFFER_SIZE_def)
qed

lemma ntoa_buf_length:
  "length buf \<le> 32 \<Longrightarrow> length (fst (ntoa_buf negative base prec width flags buf)) \<le> 32"
  using ntoa_stage_lengths(1) [of buf negative prec width flags]
  by (cases "ntoa_zeros negative prec width flags buf") (simp add: ntoa_buf_def ntoa_stage_lengths)

lemma ntoa_format_emits:
  assumes "length buf \<le> 32"
  shows "ntoa_format out buffer maxlen buf negative base prec width flags o'
    = (case ntoa_buf negative base prec width flags buf of
         (buf, width) \<Rightarrow> emits out buffer maxlen (rev_text buf width flags) o')"
proof -
  obtain b w where z: "ntoa_zeros negative prec width flags buf = (b, w)" by (metis surj_pair)
  with ntoa_stage_lengths(1) [OF assms] have "length b \<le> 32" by (metis fst_conv)
  then have "length (ntoa_sign negative flags (ntoa_hash base prec w flags b)) \<le> 32"
    by (intro ntoa_stage_lengths)
  then show ?thesis by (simp add: ntoa_format_def ntoa_buf_def z out_rev_emits)
qed

lemma ntoa_long_emits:
  "ntoa_long out buffer maxlen v negative base prec width flags o'
    = emits out buffer maxlen (ntoa_text v negative base prec width flags) o'"
proof -
  have len: "length (if P then digits_loop v base fl [] else []) \<le> 32" for P fl
    using digits_loop_length [of "[]" v base fl] by simp
  show ?thesis
    by (simp only: ntoa_long_def ntoa_text_def Let_def ntoa_format_emits [OF len])
      (simp only: split_def)
qed

section \<open>Scanning a C string\<close>

text \<open>\<open>rest_at p cs p' cs'\<close>: from \<open>p\<close> on \<open>cs\<close>, some characters further \<open>p'\<close> and \<open>cs'\<close>.\<close>

inductive rest_at :: "u32 \<Rightarrow> byte list \<Rightarrow> u32 \<Rightarrow> byte list \<Rightarrow> bool" where
  here [simp, intro]: "rest_at p cs p cs"
| later [intro]: "rest_at (p + 1) cs p' cs' \<Longrightarrow> rest_at p (c # cs) p' cs'"

inductive_simps rest_at_Nil [simp]: "rest_at p [] p' cs'"

lemma rest_at_trans: "rest_at p cs p' cs' \<Longrightarrow> rest_at p' cs' p'' cs'' \<Longrightarrow> rest_at p cs p'' cs''"
  by (induction rule: rest_at.induct) auto

lemma rest_at_2: "rest_at (p + 2) cs p' cs' \<Longrightarrow> rest_at p (c # d # cs) p' cs'"
  by (rule later, rule later) (simp add: add.assoc)

lemma rest_at_skip2 [simp]: "rest_at p (c # d # cs) (2 + p) cs"
  using rest_at_2 [OF rest_at.here [of "p + 2" cs]] by (simp add: add.commute)

lemma rest_at_cstr: "rest_at p cs p' cs' \<Longrightarrow> cstr m p cs \<Longrightarrow> cstr m p' cs'"
  by (induction rule: rest_at.induct) auto

text \<open>Each scanner of the code against its list version.\<close>

lemma flag_of_0 [simp]: "flag_of 0 = 0" "\<not> is_digit 0"
  by (simp_all add: flag_of_def is_digit_def)

lemma parse_flags_list:
  assumes "cstr m p cs" and "r_flags cs fl = (cs', fl')"
  shows "\<exists>p'. parse_flags m p fl = Some (fl', p') \<and> rest_at p cs p' cs'"
  using assms
proof (induction cs fl arbitrary: p rule: r_flags.induct)
  case (1 fl)
  then show ?case by (subst parse_flags.simps) simp
next
  case (2 c cs fl)
  then show ?case by (subst parse_flags.simps) (auto split: if_splits)
qed

lemma atoi_loop_list:
  assumes "cstr m p cs" and "r_atoi cs i = (n, cs')"
  shows "\<exists>p'. atoi_loop m p i = Some (n, p') \<and> rest_at p cs p' cs'"
  using assms
proof (induction cs i arbitrary: p rule: r_atoi.induct)
  case (1 i)
  then show ?case by (subst atoi_loop.simps) simp
next
  case (2 c cs i)
  then show ?case by (subst atoi_loop.simps) (auto split: if_splits)
qed

lemma cstr_hd: "cstr m p cs \<Longrightarrow> m p = (case cs of [] \<Rightarrow> 0 | c # _ \<Rightarrow> c)"
  by (cases cs) auto

lemma cstr_starts: "cstr m p cs \<Longrightarrow> c \<noteq> 0 \<Longrightarrow> starts c cs \<longleftrightarrow> m p = c"
  by (cases cs) (auto simp: starts_def)

lemma parse_width_list:
  assumes "cstr (mem st) p cs" and "r_width cs args fl = Some (w, fl', cs', args')"
  shows "\<exists>p'. parse_width fl p (map arg_word args) st = Some (w, fl', p', map arg_word args')
    \<and> rest_at p cs p' cs'"
proof (cases cs)
  case Nil
  with assms show ?thesis by (simp add: r_width_def parse_width_def)
next
  case (Cons c cs1)
  obtain n cs2 where a: "r_atoi cs 0 = (n, cs2)" by (metis surj_pair)
  from atoi_loop_list [OF assms(1) a] obtain p2 where "atoi_loop (mem st) p 0 = Some (n, p2)"
    "rest_at p cs p2 cs2" by blast
  then show ?thesis
    using assms a Cons by (cases args) (auto simp: r_width_def parse_width_def atoi_def split: if_splits)
qed

lemma parse_precision_list:
  assumes "cstr (mem st) p cs" and "r_precision cs args fl = Some (w, fl', cs', args')"
  shows "\<exists>p'. parse_precision fl p (map arg_word args) st = Some (w, fl', p', map arg_word args')
    \<and> rest_at p cs p' cs'"
proof (cases "starts c_dot cs")
  case False
  with assms show ?thesis
    using cstr_starts [OF assms(1), of c_dot]
    by (auto simp: r_precision_def parse_precision_def starts_def split: list.splits)
next
  case True
  then obtain cs1 where cs: "cs = c_dot # cs1" by (auto simp: starts_def split: list.splits)
  with assms(1) have c1: "mem st p = c_dot" "cstr (mem st) (p + 1) cs1" by auto
  obtain n cs2 where a: "r_atoi cs1 0 = (n, cs2)" by (metis surj_pair)
  from atoi_loop_list [OF c1(2) a] obtain p2 where "atoi_loop (mem st) (p + 1) 0 = Some (n, p2)"
    "rest_at (p + 1) cs1 p2 cs2" by blast
  then show ?thesis
    using assms(2) a c1 cs cstr_hd [OF c1(2)]
    by (cases cs1; cases args)
      (auto simp: r_precision_def parse_precision_def atoi_def Let_def split: if_splits)
qed

lemma parse_length_list:
  assumes "cstr (mem st) p cs" and "r_length cs fl = (fl', cs')"
  shows "\<exists>p'. parse_length fl p st = (fl', p') \<and> rest_at p cs p' cs'"
proof -
  consider "cs = []" | c where "cs = [c]" | c d ds where "cs = c # d # ds" by (metis neq_Nil_conv)
  then show ?thesis
  proof cases
    case 1
    with assms show ?thesis by (auto simp: r_length_def parse_length_def starts_def)
  next
    case (2 c)
    with assms(1) have "mem st p = c" "mem st (p + 1) = 0" by auto
    with assms 2 show ?thesis by (auto simp: r_length_def parse_length_def starts_def split: if_splits)
  next
    case (3 c d ds)
    with assms(1) have "mem st p = c" "mem st (p + 1) = d" by auto
    with assms(2) 3 show ?thesis
      by (auto simp: r_length_def parse_length_def starts_def intro: rest_at_2 split: if_splits)
  qed
qed

text \<open>Scanning only drops arguments, and a precision sets its flag.\<close>

lemma scan_args:
  "r_width cs args fl = Some (w, fl', cs', args') \<Longrightarrow> set args' \<subseteq> set args"
  "r_precision cs args fl = Some (w, fl', cs', args') \<Longrightarrow> set args' \<subseteq> set args"
  "conv_text c fl w p args = Some (args', t) \<Longrightarrow> set args' \<subseteq> set args"
  by (auto simp: r_width_def r_precision_def conv_text_def
      split: list.splits if_splits prod.splits arg.splits)

lemma has_OR: "has fl f \<Longrightarrow> has (fl OR g) f"
  by (auto simp: has_def bit.conj_disj_distrib2 or_eq_0_iff)

lemma has_self: "f \<noteq> 0 \<Longrightarrow> has (fl OR f) f"
  by (simp add: has_def bit.conj_disj_distrib2)

lemma precision_flag:
  assumes "r_precision cs args fl = Some (p, fl', cs', args')" and "p \<noteq> 0"
  shows "has fl' FLAGS_PRECISION"
proof -
  have "fl' = fl OR FLAGS_PRECISION"
    using assms by (auto simp: r_precision_def split: list.splits if_splits prod.splits)
  then show ?thesis by (simp add: has_self FLAGS_PRECISION_def)
qed

lemma r_length_has: "r_length cs fl = (fl', cs') \<Longrightarrow> has fl f \<Longrightarrow> has fl' f"
  by (auto simp: r_length_def has_OR split: if_splits)

text \<open>The scanners of the code read what \<open>scan\<close> reads.\<close>

lemma scan_list:
  assumes "scan cs args = Some (c, fl, w, p, cs', args')" and "cstr (mem st) fmt cs"
  obtains fl1 p1 fl2 p2 args2 fl3 p3 p4 where
    "parse_flags (mem st) fmt 0 = Some (fl1, p1)"
    "parse_width fl1 p1 (map arg_word args) st = Some (w, fl2, p2, map arg_word args2)"
    "parse_precision fl2 p2 (map arg_word args2) st = Some (p, fl3, p3, map arg_word args')"
    "parse_length fl3 p3 st = (fl, p4)" "rest_at fmt cs p4 (c # cs')"
    "p \<noteq> 0 \<Longrightarrow> has fl FLAGS_PRECISION" "set args' \<subseteq> set args"
proof -
  from assms(1) obtain cs1 fl1 fl2 cs2 args2 fl3 cs3 where
    f: "r_flags cs 0 = (cs1, fl1)" and w: "r_width cs1 args fl1 = Some (w, fl2, cs2, args2)"
    and p: "r_precision cs2 args2 fl2 = Some (p, fl3, cs3, args')" and l: "r_length cs3 fl3 = (fl, c # cs')"
    by (rule scanE)
  from parse_flags_list [OF assms(2) f] obtain p1 where
    f': "parse_flags (mem st) fmt 0 = Some (fl1, p1)" "rest_at fmt cs p1 cs1" by blast
  note c1 = rest_at_cstr [OF f'(2) assms(2)]
  from parse_width_list [OF c1 w] obtain p2 where
    w': "parse_width fl1 p1 (map arg_word args) st = Some (w, fl2, p2, map arg_word args2)"
      "rest_at p1 cs1 p2 cs2" by blast
  note c2 = rest_at_cstr [OF w'(2) c1]
  from parse_precision_list [OF c2 p] obtain p3 where
    p': "parse_precision fl2 p2 (map arg_word args2) st = Some (p, fl3, p3, map arg_word args')"
      "rest_at p2 cs2 p3 cs3" by blast
  from parse_length_list [OF rest_at_cstr [OF p'(2) c2] l] obtain p4 where
    l': "parse_length fl3 p3 st = (fl, p4)" "rest_at p3 cs3 p4 (c # cs')" by blast
  have "p \<noteq> 0 \<Longrightarrow> has fl FLAGS_PRECISION" using r_length_has [OF l precision_flag [OF p]] .
  moreover have "set args' \<subseteq> set args" using scan_args(1) [OF w] scan_args(2) [OF p] by auto
  moreover note rest_at_trans [OF rest_at_trans [OF rest_at_trans [OF f'(2) w'(2)] p'(2)] l'(2)]
  ultimately show ?thesis using f'(1) w'(1) p'(1) l'(1) that by blast
qed

section \<open>The interface of an output function\<close>

definition kept_str :: "(u32 \<Rightarrow> bool) \<Rightarrow> u32 \<Rightarrow> byte list \<Rightarrow> bool" where
  "kept_str kept p s \<longleftrightarrow> (\<forall>i \<le> length s. kept (p + of_nat i))"

lemma kept_str_Cons: "kept_str kept p (c # s) \<Longrightarrow> kept p \<and> kept_str kept (p + 1) s"
proof -
  assume s: "kept_str kept p (c # s)"
  then have "kept (p + of_nat (Suc i))" if "i \<le> length s" for i
    using that by (auto simp only: kept_str_def length_Cons)
  moreover have "kept (p + of_nat 0)" using s by (auto simp only: kept_str_def)
  ultimately show ?thesis by (simp add: kept_str_def add.assoc)
qed

text \<open>The strings among the arguments are there and stay there.\<close>

definition arg_ok :: "(u32 \<Rightarrow> bool) \<Rightarrow> memory \<Rightarrow> arg \<Rightarrow> bool" where
  "arg_ok kept m a \<longleftrightarrow> (case a of Num v \<Rightarrow> True | Text p s \<Rightarrow> cstr m p s \<and> kept_str kept p s)"

lemma strnlen_loop_cstr:
  "cstr m p s \<Longrightarrow> strnlen_loop m p k = p + of_nat (min (length s) (unat k))"
proof (induction s arbitrary: p k)
  case Nil
  then show ?case by (subst strnlen_loop.simps) simp
next
  case (Cons c s)
  show ?case
  proof (cases "k = 0")
    case True
    then show ?thesis by (subst strnlen_loop.simps) simp
  next
    case False
    then have "unat k = Suc (unat (k - 1))" by (simp add: unat_minus_one unat_gt_0)
    with False Cons show ?thesis by (subst strnlen_loop.simps) (simp add: add.assoc)
  qed
qed

lemma rest_at_kept: "rest_at p cs p' cs' \<Longrightarrow> kept_str kept p cs \<Longrightarrow> kept_str kept p' cs'"
  by (induction rule: rest_at.induct) (auto dest: kept_str_Cons)

text \<open>
  An output function that leaves the bytes \<open>kept\<close> alone, as long as the index is below \<open>limit\<close>.
\<close>

locale sink =
  fixes out :: out_fct_type and buffer maxlen :: u32 and kept :: "u32 \<Rightarrow> bool" and limit :: u32
  assumes out_keeps: "kept x \<Longrightarrow> idx < limit \<Longrightarrow> mem (out c buffer idx maxlen st) x = mem st x"
begin

lemma emits_keeps:
  "kept x \<Longrightarrow> unat (fst o') + length t \<le> unat limit \<Longrightarrow>
   mem (snd (emits out buffer maxlen t o')) x = mem (snd o') x"
proof (induction t arbitrary: o')
  case (Cons c t)
  then have lt: "fst o' < limit" by (simp add: word_less_nat_alt)
  have "mem (snd (emits out buffer maxlen t (emit out buffer maxlen c o'))) x
      = mem (snd (emit out buffer maxlen c o')) x"
    using Cons.prems unat_add1_lt [OF lt] by (intro Cons.IH) (simp_all add: emit_def)
  with Cons.prems(1) lt show ?case by (simp add: emit_def out_keeps)
qed simp

lemma emits_unat:
  "unat (fst o') + length t \<le> unat limit \<Longrightarrow>
   unat (fst (emits out buffer maxlen t o')) = unat (fst o') + length t"
proof (induction t arbitrary: o')
  case (Cons c t)
  then have lt: "fst o' < limit" by (simp add: word_less_nat_alt)
  have "unat (fst (emit out buffer maxlen c o')) = unat (fst o') + 1"
    using unat_add1_lt [OF lt] by (simp add: emit_def)
  with Cons show ?case by simp
qed simp

lemma emits_cstr:
  "kept_str kept p s \<Longrightarrow> unat (fst o') + length t \<le> unat limit \<Longrightarrow>
   cstr (mem (snd (emits out buffer maxlen t o'))) p s = cstr (mem (snd o')) p s"
  by (rule cstr_cong) (simp add: kept_str_def emits_keeps)

lemma string_loop_emits:
  assumes "cstr (mem (snd o')) p s" and "kept_str kept p s"
    and "unat (fst o') + length (cut flags precision s) \<le> unat limit"
  shows "string_loop out buffer maxlen flags p precision o'
    = Some (emits out buffer maxlen (cut flags precision s) o')"
  using assms
proof (induction s arbitrary: p precision o')
  case Nil
  then show ?case by (subst string_loop.simps) (simp add: cut_def)
next
  case (Cons c s)
  note st = kept_str_Cons [OF Cons.prems(2)]
  show ?case
  proof (cases "has flags FLAGS_PRECISION \<and> precision = 0")
    case True
    then show ?thesis by (subst string_loop.simps) (simp add: cut_def)
  next
    case False
    let ?prec = "if has flags FLAGS_PRECISION then precision - 1 else precision"
    have "unat precision = Suc (unat (precision - 1))" if "precision \<noteq> 0"
      using that by (simp add: unat_minus_one unat_gt_0)
    with False have cut: "cut flags precision (c # s) = c # cut flags ?prec s" by (auto simp: cut_def)
    with Cons.prems(3) have fit: "unat (fst o') + length [c] \<le> unat limit"
      "unat (fst o') + 1 + length (cut flags ?prec s) \<le> unat limit" by simp_all
    have "string_loop out buffer maxlen flags (p + 1) ?prec (emits out buffer maxlen [c] o')
        = Some (emits out buffer maxlen (cut flags ?prec s) (emits out buffer maxlen [c] o'))"
      using emits_cstr [OF _ fit(1), of "p + 1" s] emits_unat [OF fit(1)] st Cons.prems(1) fit(2)
      by (intro Cons.IH) (simp_all del: emits_simps)
    with False cut Cons.prems(1) show ?thesis by (subst string_loop.simps) simp
  qed
qed

lemma convert_string_emits:
  assumes "cstr (mem (snd o')) p s" and "kept_str kept p s"
    and "precision \<noteq> 0 \<Longrightarrow> has flags FLAGS_PRECISION"
    and t: "t = pad_text flags (length (cut flags precision s)) width (cut flags precision s)"
    and fit: "unat (fst o') + length t \<le> unat limit"
  shows "convert_string out buffer maxlen flags width precision (p # va) o'
    = Some (va, emits out buffer maxlen t o')"
proof -
  have len: "length s < 2 ^ 32" using cstr_length [OF assms(1)] .
  define l0 where "l0 = strnlen_s p (if precision \<noteq> 0 then precision else - 1) (snd o')"
  define l where "l = (if has flags FLAGS_PRECISION then (if l0 < precision then l0 else precision) else l0)"
  have l0: "l0 = of_nat (if precision \<noteq> 0 then min (length s) (unat precision) else length s)"
    using len strnlen_loop_cstr [OF assms(1)]
    by (auto simp: l0_def strnlen_s_def unsigned_minus_1_eq_mask mask_eq_exp_minus_1 min_def)
  have l: "unat l = length (cut flags precision s)"
    using len assms(3) unat_u32_bound [of precision]
    by (auto simp: l_def l0 cut_def unat_of_nat32 word_less_nat_alt)
  have loop: "string_loop out buffer maxlen flags p precision (emits out buffer maxlen t' o')
      = Some (emits out buffer maxlen (cut flags precision s) (emits out buffer maxlen t' o'))"
    if f: "unat (fst o') + length t' + length (cut flags precision s) \<le> unat limit" for t'
    using emits_cstr [OF assms(2), of o' t'] emits_unat [of o' t'] assms(1,2) f
    by (intro string_loop_emits) simp_all
  show ?thesis
    unfolding convert_string_def va_arg.simps bind.simps prod.case Let_def l0_def [symmetric] l_def [symmetric]
    using loop [of "[]", unfolded emits_simps] loop [of "replicate (unat width - unat l) c_space"] fit
    by (cases "has flags FLAGS_LEFT") (simp_all add: t pad_spaces_emits pad_text_def l)
qed

lemma convert_int_emits:
  "has (int_flags c flags) FLAGS_LONG_LONG \<Longrightarrow>
   convert_int out buffer maxlen c flags width precision va o' = Some (va, o')"
  "\<not> has (int_flags c flags) FLAGS_LONG_LONG \<Longrightarrow>
   convert_int out buffer maxlen c flags width precision (v # va) o'
     = Some (va, emits out buffer maxlen (int_text c flags width precision v) o')"
  by (simp_all add: convert_int_def int_text_def Let_def ntoa_long_emits)

lemma convert_char_emits:
  "convert_char out buffer maxlen flags width (v # va) o'
    = Some (va, emits out buffer maxlen (pad_text flags 1 width [ucast v]) o')"
  by (simp add: convert_char_def pad_text_def Let_def pad_spaces_emits)

lemma convert_pointer_emits:
  "convert_pointer out buffer maxlen flags precision (v # va) o' = Some (va,
     emits out buffer maxlen (ntoa_text v False 16 precision 8 (flags OR FLAGS_ZEROPAD OR FLAGS_UPPERCASE)) o')"
  by (simp add: convert_pointer_def Let_def ntoa_long_emits)

text \<open>A conversion prints its text and passes the arguments on.\<close>

lemma convert_emits:
  assumes "conv_text c flags width precision args = Some (args', t)"
    and "\<forall>a \<in> set args. arg_ok kept (mem (snd o')) a"
    and "precision \<noteq> 0 \<Longrightarrow> has flags FLAGS_PRECISION"
    and fit: "unat (fst o') + length t \<le> unat limit"
  shows "convert out buffer maxlen c flags width precision (map arg_word args) o'
    = Some (map arg_word args', emits out buffer maxlen t o')"
proof -
  consider "int_specifier c" | "\<not> int_specifier c" "c = c_c" | "\<not> int_specifier c" "c = c_s"
    | "\<not> int_specifier c" "c = c_p" | "\<not> int_specifier c" "c \<noteq> c_c" "c \<noteq> c_s" "c \<noteq> c_p" by blast
  then show ?thesis
  proof cases
    case 1
    with assms(1) show ?thesis
      by (cases args) (auto simp: conv_text_def convert_def convert_int_emits split: if_splits)
  next
    case 2
    with assms(1) show ?thesis
      by (cases args) (auto simp: conv_text_def convert_def convert_char_emits)
  next
    case 3
    with assms(1) obtain p s where args: "args = Text p s # args'"
      and t: "t = pad_text flags (length (cut flags precision s)) width (cut flags precision s)"
      by (auto simp: conv_text_def split: list.splits arg.splits)
    with assms(2) have "cstr (mem (snd o')) p s" "kept_str kept p s" by (auto simp: arg_ok_def)
    from convert_string_emits [OF this assms(3) HOL.refl] 3 fit show ?thesis by (simp add: args t convert_def)
  next
    case 4
    with assms(1) show ?thesis
      by (cases args) (auto simp: conv_text_def convert_def convert_pointer_emits)
  next
    case 5
    with assms(1) show ?thesis by (auto simp: conv_text_def convert_def)
  qed
qed

text \<open>The formatter prints the text of the format string and ends.\<close>

lemma format_loop_render:
  assumes "render cs args = Some t" and "cstr (mem (snd o')) fmt cs" and "kept_str kept fmt cs"
    and "\<forall>a \<in> set args. arg_ok kept (mem (snd o')) a" and "unat (fst o') + length t \<le> unat limit"
  shows "format_loop out buffer maxlen fmt (map arg_word args) o' = Some (emits out buffer maxlen t o')"
  using assms
proof (induction cs args arbitrary: fmt o' t rule: render.induct)
  case (1 args)
  then show ?case by (subst format_loop.simps) simp
next
  case (2 c cs args)
  have kept: "kept fmt" "kept_str kept (fmt + 1) cs" using kept_str_Cons [OF "2.prems"(3)] by simp_all
  have c: "mem (snd o') fmt = c" "c \<noteq> 0" "cstr (mem (snd o')) (fmt + 1) cs" using "2.prems"(2) by simp_all
  have again: "\<forall>a \<in> set as. arg_ok kept (mem (snd (emits out buffer maxlen t' o'))) a"
    if "set as \<subseteq> set args" "unat (fst o') + length t' \<le> unat limit" for as t'
    using that "2.prems"(4) by (fastforce simp: arg_ok_def emits_cstr split: arg.splits)
  show ?case
  proof (cases "c = c_percent")
    case False
    with "2.prems"(1) obtain t' where t: "render cs args = Some t'" "t = c # t'" by auto
    have fit: "unat (fst o') + length [c] \<le> unat limit" using "2.prems"(5) t(2) by simp
    have "format_loop out buffer maxlen (fmt + 1) (map arg_word args) (emits out buffer maxlen [c] o')
        = Some (emits out buffer maxlen t' (emits out buffer maxlen [c] o'))"
      using kept(2) c(3) again [of args "[c]"] emits_unat [OF fit] fit "2.prems"(5) t(2)
      by (intro "2.IH"(1) False t) (simp_all add: emits_cstr del: emits_simps)
    with False t(2) c show ?thesis by (subst format_loop.simps) simp
  next
    case True
    with "2.prems"(1) obtain t1 cs' args' t2 where d: "directive cs args = Some (t1, cs', args')"
      and t: "render cs' args' = Some t2" "t = t1 @ t2" by (auto split: option.splits)
    from d obtain d fl w p args3 where s: "scan cs args = Some (d, fl, w, p, cs', args3)"
      and x: "conv_text d fl w p args3 = Some (args', t1)"
      by (auto simp: directive_def bind_eq_Some_conv)
    from scan_list [OF s c(3)] obtain fl1 p1 fl2 p2 args2 fl3 p3 p4 where
      s': "parse_flags (mem (snd o')) (fmt + 1) 0 = Some (fl1, p1)"
        "parse_width fl1 p1 (map arg_word args) (snd o') = Some (w, fl2, p2, map arg_word args2)"
        "parse_precision fl2 p2 (map arg_word args2) (snd o') = Some (p, fl3, p3, map arg_word args3)"
        "parse_length fl3 p3 (snd o') = (fl, p4)"
      and r: "rest_at (fmt + 1) cs p4 (d # cs')" and prec: "p \<noteq> 0 \<Longrightarrow> has fl FLAGS_PRECISION"
      and sub3: "set args3 \<subseteq> set args" by blast
    note c4 = rest_at_cstr [OF r c(3)]
    have k4: "kept_str kept (p4 + 1) cs'" using rest_at_kept [OF r kept(2)] kept_str_Cons by blast
    have sub: "set args3 \<subseteq> set args" "set args' \<subseteq> set args" using sub3 scan_args(3) [OF x] by auto
    have fit: "unat (fst o') + length t1 \<le> unat limit" using "2.prems"(5) t(2) by simp
    have conv: "convert out buffer maxlen d fl w p (map arg_word args3) o'
        = Some (map arg_word args', emits out buffer maxlen t1 o')"
      using again [OF sub(1), of "[]"] prec fit by (intro convert_emits [OF x]) simp_all
    have "format_loop out buffer maxlen (p4 + 1) (map arg_word args') (emits out buffer maxlen t1 o')
        = Some (emits out buffer maxlen t2 (emits out buffer maxlen t1 o'))"
      using k4 c4 again [OF sub(2) fit] True d t(1) emits_unat [OF fit] fit "2.prems"(5) t(2)
      by (intro "2.IH"(2) [OF _ d refl refl]) (simp_all add: emits_cstr)
    then show ?thesis
      using True t(2) c s' conv c4
      by (subst format_loop.simps) simp
  qed
qed

end

section \<open>The output functions of the code\<close>

interpretation null: sink out_null buffer maxlen "\<lambda>_. True" limit for buffer maxlen limit
  by unfold_locales (simp add: out_null_def)

interpretation uart: sink out_char buffer maxlen "\<lambda>_. True" limit for buffer maxlen limit
  by unfold_locales (simp add: out_char_def put_char_def UART_write_def)

definition spared :: "u32 \<Rightarrow> u32 \<Rightarrow> u32 \<Rightarrow> u32 \<Rightarrow> bool" where
  "spared buffer maxlen limit x \<longleftrightarrow> \<not> (span buffer maxlen x \<and> span buffer limit x)"

interpretation buf: sink out_buffer buffer maxlen "spared buffer maxlen limit" limit
  for buffer maxlen limit
  by unfold_locales (auto simp: out_buffer_def spared_def)

text \<open>What a text does to the machine, per output function.\<close>

lemma emits_null: "emits out_null buffer maxlen t (i, st) = (i + of_nat (length t), st)"
  by (induction t arbitrary: i) (simp_all add: emit_def out_null_def add.assoc)

lemma emits_char:
  "emits out_char buffer maxlen t (i, st)
    = (i + of_nat (length t), st\<lparr>uart_out := uart_out st @ filter (\<lambda>c. c \<noteq> 0) t\<rparr>)"
  by (induction t arbitrary: i st)
    (simp_all add: emit_def out_char_def put_char_def UART_write_def add.assoc)

lemma write_bytes_single: "write_bytes p [c] m = m(p := c)"
  using write_bytes_Cons [of "[]" p m c] by simp

lemma write_bytes_snoc:
  "length xs < 2 ^ 32 \<Longrightarrow> (write_bytes p xs m)(p + of_nat (length xs) := c) = write_bytes p (xs @ [c]) m"
  using write_bytes_append [of xs "[c]" p m] by (simp add: write_bytes_single)

lemma emits_buffer:
  "length t < 2 ^ 32 \<Longrightarrow> emits out_buffer buffer maxlen t (0, st)
    = (of_nat (length t), st\<lparr>mem := write_bytes buffer (take (unat maxlen) t) (mem st)\<rparr>)"
proof (induction t rule: rev_induct)
  case (snoc c t)
  then show ?case
    using unat_of_nat32 [of "length t"]
    by (auto simp: emit_def out_buffer_def word_less_nat_alt write_bytes_snoc)
qed simp

text \<open>
  The terminator: behind the text if it fits, in the last byte of the buffer if not, nowhere if
  there is no buffer. In every case the buffer holds the longest prefix there is room for.
\<close>

lemma terminate_buffer:
  assumes "length t < 2 ^ 32 - 1" and "maxlen \<noteq> 0"
  shows "out_buffer 0 buffer (if of_nat (length t) < maxlen then of_nat (length t) else maxlen - 1) maxlen
      (st\<lparr>mem := write_bytes buffer (take (unat maxlen) t) m\<rparr>)
    = st\<lparr>mem := write_bytes buffer (take (unat maxlen - 1) t @ [0]) m\<rparr>"
proof (cases "of_nat (length t) < maxlen")
  case True
  then have "length t < unat maxlen" using assms(1) by (simp add: word_less_nat_alt unat_of_nat32)
  with True assms(1) show ?thesis
    using write_bytes_snoc [of t buffer m 0] by (simp add: out_buffer_def)
next
  case False
  let ?n = "unat maxlen - 1"
  have n: "unat maxlen = Suc ?n" using assms(2) by (simp add: unat_gt_0)
  have "unat maxlen \<le> length t" using False assms(1) by (simp add: word_less_nat_alt unat_of_nat32)
  then have t: "take (unat maxlen) t = take ?n t @ [t ! ?n]" and len: "length (take ?n t) = ?n"
    using n by (simp_all add: take_Suc_conv_app_nth [of ?n t, folded n])
  have b: "length (take ?n t) < 2 ^ 32" using unat_u32_bound [of maxlen] by simp
  have "maxlen - 1 < maxlen"
    using assms(2) by (simp add: word_less_nat_alt measure_unat)
  moreover have "maxlen - 1 = of_nat (length (take ?n t))"
    by (subst len) (simp only: unat_minus_one [OF assms(2), symmetric] of_nat_unat ucast_id)
  ultimately show ?thesis
    unfolding t write_bytes_snoc [OF b, symmetric] using False b
    by (simp add: out_buffer_def write_bytes_snoc [OF b, symmetric])
qed

text \<open>\<open>_vsnprintf\<close> for the three output functions.\<close>

lemma vsnprintf_core_buffer:
  assumes "render cs args = Some t" and "length t < 2 ^ 32 - 1" and "cstr (mem st) fmt cs"
    and kept_def: "kept = spared buffer count (of_nat (length t))"
    and "kept_str kept fmt cs" and "\<forall>a \<in> set args. arg_ok kept (mem st) a"
  shows "vsnprintf_core out_buffer buffer count fmt (map arg_word args) st = Some (of_nat (length t),
    if buffer = 0 \<or> count = 0 then st
    else st\<lparr>mem := write_bytes buffer (take (unat count - 1) t @ [0]) (mem st)\<rparr>)"
proof (cases "buffer = 0")
  case True
  have "format_loop out_null buffer count fmt (map arg_word args) (0, st)
      = Some (emits out_null buffer count t (0, st))"
  proof (rule null.format_loop_render [OF assms(1), where limit = "- 1"])
    show "cstr (mem (snd (0, st))) fmt cs" "kept_str (\<lambda>_. True) fmt cs" using assms(3)
      by (simp_all add: kept_str_def)
    show "\<forall>a\<in>set args. arg_ok (\<lambda>_. True) (mem (snd (0, st))) a"
      using assms(6) by (auto simp: arg_ok_def kept_str_def kept_def split: arg.splits)
    show "unat (fst (0, st)) + length t \<le> unat (- 1 :: u32)"
      using assms(2) by (simp add: unsigned_minus_1_eq_mask mask_eq_exp_minus_1)
  qed
  with True show ?thesis by (simp add: vsnprintf_core_def emits_null out_null_def)
next
  case False
  let ?st = "st\<lparr>mem := write_bytes buffer (take (unat count) t) (mem st)\<rparr>"
  have "format_loop out_buffer buffer count fmt (map arg_word args) (0, st)
      = Some (of_nat (length t), ?st)"
    using buf.format_loop_render [OF assms(1), of "(0, st)" fmt buffer count "of_nat (length t)"]
      assms(2,3,5,6)
    by (simp add: emits_buffer kept_def unat_of_nat32)
  moreover have "out_buffer 0 buffer i 0 st' = st'" for i st' by (simp add: out_buffer_def)
  ultimately show ?thesis
    using False terminate_buffer [OF assms(2), where maxlen = count and buffer = buffer and m = "mem st" and st = st]
    by (cases "count = 0") (simp_all add: vsnprintf_core_def split del: if_split)
qed

lemma vsnprintf_core_char:
  assumes "render cs args = Some t" and "length t < 2 ^ 32 - 1" and "cstr (mem st) fmt cs"
    and "\<forall>a \<in> set args. arg_ok (\<lambda>_. True) (mem st) a" and "stack \<noteq> 0"
  shows "vsnprintf_core out_char stack count fmt (map arg_word args) st
    = Some (of_nat (length t), st\<lparr>uart_out := uart_out st @ filter (\<lambda>c. c \<noteq> 0) t\<rparr>)"
proof -
  have "format_loop out_char stack count fmt (map arg_word args) (0, st)
      = Some (emits out_char stack count t (0, st))"
    using assms(2-4)
    by (intro uart.format_loop_render [OF assms(1), where limit = "- 1"])
      (simp_all add: kept_str_def unsigned_minus_1_eq_mask mask_eq_exp_minus_1)
  then show ?thesis using assms(5) by (simp add: vsnprintf_core_def emits_char out_char_def)
qed

end
