(* ===== verification/NumberText.thy ===== *)
theory NumberText
  imports Sinks
begin

text \<open>
  What the digits of the integer conversions mean: the digit loop against positional notation,
  and the value a string of digits denotes.
\<close>

section \<open>Positional notation\<close>

text \<open>The digits of \<open>n\<close> in base \<open>b\<close>, most significant first, and the value of a digit string.\<close>

fun base_digits :: "nat \<Rightarrow> nat \<Rightarrow> nat list" where
  "base_digits b n = (if b < 2 \<or> n < b then [n] else base_digits b (n div b) @ [n mod b])"

declare base_digits.simps [simp del]

definition digit_value :: "byte \<Rightarrow> nat" where
  "digit_value c = (if is_digit c then unat c - 48 else if c_a \<le> c \<and> c \<le> 102 then unat c - 87
     else if c_A \<le> c \<and> c \<le> 70 then unat c - 55 else 99)"

definition num_value :: "nat \<Rightarrow> byte list \<Rightarrow> nat" where
  "num_value b cs = foldl (\<lambda>a c. a * b + digit_value c) 0 cs"

lemma base_digits_value: "2 \<le> b \<Longrightarrow> foldl (\<lambda>a d. a * b + d) 0 (base_digits b n) = n"
proof (induction b n rule: base_digits.induct)
  case (1 b n)
  then show ?case by (subst base_digits.simps) auto
qed

lemma base_digits_less: "2 \<le> b \<Longrightarrow> d \<in> set (base_digits b n) \<Longrightarrow> d < b"
proof (induction b n rule: base_digits.induct)
  case (1 b n)
  from "1.prems"(2) show ?case
    using "1.IH" "1.prems"(1) by (subst (asm) base_digits.simps) (auto split: if_splits)
qed

lemma base_digits_hd: "2 \<le> b \<Longrightarrow> hd (base_digits b n) = 0 \<Longrightarrow> n = 0"
proof (induction b n rule: base_digits.induct)
  case (1 b n)
  have ne: "base_digits b k \<noteq> []" for k by (subst base_digits.simps) simp
  show ?case
  proof (cases "n < b")
    case True
    with "1.prems" show ?thesis by (subst (asm) base_digits.simps) simp
  next
    case False
    with "1.prems" have "hd (base_digits b (n div b)) = 0"
      by (subst (asm) base_digits.simps) (simp add: ne)
    with "1.IH" "1.prems"(1) False have "n div b = 0" by auto
    with False "1.prems"(1) show ?thesis by (simp add: div_eq_0_iff)
  qed
qed

lemma base_digits_length: "2 \<le> b \<Longrightarrow> n < b ^ Suc k \<Longrightarrow> length (base_digits b n) \<le> Suc k"
proof (induction k arbitrary: n)
  case 0
  then show ?case by (subst base_digits.simps) simp
next
  case (Suc k)
  show ?case
  proof (cases "n < b")
    case True
    then show ?thesis by (subst base_digits.simps) simp
  next
    case False
    have "n div b < b ^ Suc k" using Suc.prems by (simp add: less_mult_imp_div_less mult.commute)
    with Suc False show ?thesis by (subst base_digits.simps) simp
  qed
qed

lemma base_digits_u32: "2 \<le> b \<Longrightarrow> length (base_digits b (unat (v :: u32))) \<le> 32"
  using base_digits_length [of b "unat v" 31] unat_u32_bound [of v] power_mono [of 2 b 32] by simp

section \<open>The digit loop\<close>

lemma digits_loop_base:
  assumes "2 \<le> unat base" "unat base \<le> 16" and "length buf + length (base_digits (unat base) (unat v)) \<le> 32"
  shows "digits_loop v base flags buf
    = buf @ rev (map (\<lambda>d. digit_char flags (of_nat d)) (base_digits (unat base) (unat v)))"
  using assms
proof (induction v base flags buf rule: digits_loop.induct)
  case (1 v base flags buf)
  let ?b = "unat base"
  have dig: "(ucast (v mod base) :: byte) = of_nat (unat v mod ?b)"
    by (simp add: unat_mod [symmetric])
  have dv: "unat (v div base) = unat v div ?b" by (simp add: unat_div)
  show ?case
  proof (cases "unat v < ?b")
    case True
    then have "v div base = 0" using dv by (simp add: unat_eq_zero [symmetric])
    with True show ?thesis
      by (subst digits_loop.simps, subst base_digits.simps) (simp add: dig)
  next
    case False
    have nz: "v div base \<noteq> 0"
      using False "1.prems"(1) dv by (metis div_eq_0_iff not_numeral_le_zero unat_0)
    have bd: "base_digits ?b (unat v) = base_digits ?b (unat v div ?b) @ [unat v mod ?b]"
      using False "1.prems"(1) by (subst base_digits.simps) simp
    have ne: "base_digits ?b (unat v div ?b) \<noteq> []" by (subst base_digits.simps) simp
    have len: "length (buf @ [digit_char flags (ucast (v mod base))]) < 32"
      using "1.prems"(3) ne by (cases "base_digits ?b (unat v div ?b)") (simp_all add: bd)
    show ?thesis
      using "1.IH" [OF refl refl refl] "1.prems" nz len
      by (subst digits_loop.simps) (simp add: Let_def NTOA_BUFFER_SIZE_def bd dv dig)
  qed
qed

lemma digits_loop_digits:
  "2 \<le> unat base \<Longrightarrow> unat base \<le> 16 \<Longrightarrow> digits_loop v base flags []
    = rev (map (\<lambda>d. digit_char flags (of_nat d)) (base_digits (unat base) (unat v)))"
  using digits_loop_base [of base "[]" v flags] base_digits_u32 [of "unat base" v] by simp

lemma digit_value_char:
  assumes "d < 16"
  shows "digit_value (digit_char flags (of_nat d)) = d"
proof -
  have "\<forall>d \<in> set [0..<16]. digit_value (digit_char flags (of_nat d)) = d"
    by (simp add: upt_rec digit_char_def digit_value_def is_digit_def)
  with assms show ?thesis by simp
qed

lemma num_value_digits:
  assumes "2 \<le> b" "b \<le> 16"
  shows "num_value b (map (\<lambda>d. digit_char flags (of_nat d)) (base_digits b n)) = n"
proof -
  have "foldl (\<lambda>a c. a * b + digit_value c) x (map (\<lambda>d. digit_char flags (of_nat d)) ds)
      = foldl (\<lambda>a d. a * b + d) x ds" if "\<forall>d \<in> set ds. d < b" for ds x
    using that assms(2) by (induction ds arbitrary: x) (auto simp: digit_value_char)
  then show ?thesis
    using base_digits_less [OF assms(1)] base_digits_value [OF assms(1)] by (simp add: num_value_def)
qed

section \<open>Plain conversions\<close>

text \<open>The numeral of a natural number, as the conversions write it.\<close>

definition numeral_text :: "u32 \<Rightarrow> nat \<Rightarrow> nat \<Rightarrow> byte list" where
  "numeral_text flags b n = map (\<lambda>d. digit_char flags (of_nat d)) (base_digits b n)"

text \<open>A digit string without superfluous zeros that denotes \<open>n\<close> in base \<open>b\<close>.\<close>

definition is_numeral :: "nat \<Rightarrow> nat \<Rightarrow> byte list \<Rightarrow> bool" where
  "is_numeral b n t \<longleftrightarrow> t \<noteq> [] \<and> num_value b t = n \<and> (\<forall>c \<in> set t. digit_value c < b)
     \<and> (digit_value (hd t) = 0 \<longrightarrow> n = 0)"

lemma numeral_text_is_numeral:
  assumes "2 \<le> b" "b \<le> 16"
  shows "is_numeral b n (numeral_text flags b n)"
proof -
  have ne: "base_digits b n \<noteq> []" by (subst base_digits.simps) simp
  have dv: "digit_value (digit_char flags (of_nat d)) = d" if "d \<in> set (base_digits b n)" for d
    using base_digits_less [OF assms(1) that] assms(2) by (intro digit_value_char) simp
  then show ?thesis
    using ne num_value_digits [OF assms] base_digits_less [OF assms(1)] base_digits_hd [OF assms(1)]
    by (auto simp: is_numeral_def numeral_text_def hd_map)
qed

lemma ntoa_text_plain:
  assumes "2 \<le> unat base" "unat base \<le> 16" and "flags = 0 \<or> flags = FLAGS_UPPERCASE"
    and "negative \<longrightarrow> length (base_digits (unat base) (unat v)) < 32"
  shows "ntoa_text v negative base 0 0 flags
    = (if negative then c_minus # numeral_text flags (unat base) (unat v)
       else numeral_text flags (unat base) (unat v))"
proof -
  have flags: "flags AND NOT FLAGS_HASH = flags" and no: "\<not> has flags FLAGS_LEFT"
    "\<not> has flags FLAGS_ZEROPAD" "\<not> has flags FLAGS_HASH" "\<not> has flags FLAGS_PLUS"
    "\<not> has flags FLAGS_SPACE" "\<not> has flags FLAGS_PRECISION"
    using assms(3) by (auto simp: has_def flag_bits)
  have "digits_loop v base flags [] = rev (numeral_text flags (unat base) (unat v))"
    using digits_loop_digits [OF assms(1,2)] by (simp add: numeral_text_def)
  moreover have "length (numeral_text flags (unat base) (unat v)) < 32" if negative
    using assms(4) that by (simp add: numeral_text_def)
  ultimately show ?thesis
    by (auto simp: ntoa_text_def ntoa_buf_def ntoa_zeros_def ntoa_hash_def ntoa_sign_def rev_text_def
        Let_def flags no zero_fill_eq NTOA_BUFFER_SIZE_def)
qed

lemma directive_plain:
  assumes "c \<in> {c_d, c_i, c_u, c_x, c_X, c_o, c_b}"
  shows "directive (c # cs) (Num v # args) = Some (int_text c 0 0 0 v, cs, args)"
  using assms
  by (elim insertE emptyE) (simp_all add: directive_def scan_def flag_of_def r_width_def r_precision_def r_length_def starts_def
      is_digit_def conv_text_def int_specifier_def int_flags_def int_base_def has_def flag_bits)

lemma int_text_unsigned:
  assumes "c \<in> {c_u, c_x, c_X, c_o, c_b}"
  shows "int_text c 0 0 0 v
    = numeral_text (if c = c_X then FLAGS_UPPERCASE else 0) (unat (int_base c)) (unat v)"
proof -
  have "int_flags c 0 = (if c = c_X then FLAGS_UPPERCASE else 0)"
    using assms by (auto simp: int_flags_def int_base_def has_def flag_bits)
  moreover have "unsigned_arg 0 v = v" "unsigned_arg FLAGS_UPPERCASE v = v"
    by (simp_all add: unsigned_arg_def has_def flag_bits)
  moreover have "2 \<le> unat (int_base c)" "unat (int_base c) \<le> 16" "c \<noteq> c_i" "c \<noteq> c_d"
    using assms by (auto simp: int_base_def)
  ultimately show ?thesis
    by (simp add: int_text_def Let_def ntoa_text_plain)
qed

lemma sint_magnitude: "unat (magnitude v) = nat \<bar>sint v\<bar>"
proof -
  have r: "- (2 ^ 31) \<le> sint v" "sint v < 2 ^ 31"
    using sint_ge [of v] sint_lt [of v] by simp_all
  have small: "uint (word_of_int k :: u32) = k" if "0 \<le> k" "k \<le> 2 ^ 31" for k
    using that by (simp add: unsigned_of_int take_bit_int_eq_self_iff)
  show ?thesis
  proof (cases "sint v > 0")
    case True
    then have "uint v = sint v" using small [of "sint v"] r by simp
    with True show ?thesis by (simp add: magnitude_def flip: nat_uint_eq)
  next
    case False
    have "- v = word_of_int (- sint v)" by simp
    then have "uint (- v) = - sint v" using small [of "- sint v"] r False by (metis add.inverse_inverse
          neg_0_le_iff_le neg_le_iff_le not_less)
    with False show ?thesis by (simp add: magnitude_def flip: nat_uint_eq)
  qed
qed

lemma int_text_signed:
  assumes "c \<in> {c_d, c_i}"
  shows "int_text c 0 0 0 v
    = (if sint v < 0 then c_minus # numeral_text 0 10 (nat \<bar>sint v\<bar>) else numeral_text 0 10 (nat \<bar>sint v\<bar>))"
proof -
  have "int_flags c 0 = 0" "int_base c = 10"
    using assms by (auto simp: int_flags_def int_base_def has_def flag_bits)
  moreover have "signed_arg 0 v = v" by (simp add: signed_arg_def has_def flag_bits)
  moreover have "length (base_digits 10 (unat (magnitude v))) < 32"
    using base_digits_length [of 10 "unat (magnitude v)" 9] unat_u32_bound [of "magnitude v"] by simp
  ultimately show ?thesis
    using assms by (auto simp: int_text_def Let_def ntoa_text_plain sint_magnitude)
qed

end
