(* ===== verification/PrintfSpec.thy ===== *)
theory PrintfSpec
  imports NumberText
begin

text \<open>
  The properties of \<open>printf.c\<close>: the formatter implements \<open>render\<close> for every output function,
  what \<open>printf\<close> and \<open>snprintf\<close> leave behind, what the integer conversions print, the bound of the
  number buffer, and four places where the code does something else than its interface says.
\<close>

text \<open>A machine with a C string at address 100, for the witnesses.\<close>

definition with_format :: "byte list \<Rightarrow> machine" where
  "with_format cs = boot (write_bytes 100 (cs @ [0]) (\<lambda>_. 0))"

lemma with_format_cstr: "0 \<notin> set cs \<Longrightarrow> length cs < 2 ^ 32 \<Longrightarrow> cstr (mem (with_format cs)) 100 cs"
  by (simp add: with_format_def cstr_write_bytes)

lemma demo_render: "render [c_percent, c_d] [Num (- 42)] = Some [c_minus, 52, 50]"
  by code_simp

lemma demo_cstr: "cstr (mem (with_format [c_percent, c_d])) 100 [c_percent, c_d]"
  by (rule with_format_cstr) simp_all

lemma printf_renders:
  assumes "render cs args = Some t" and "length t < 2 ^ 32 - 1" and "cstr (mem st) fmt cs"
    and "\<forall>a \<in> set args. arg_ok (\<lambda>_. True) (mem st) a" and "stack \<noteq> 0"
  shows "printf stack fmt (map arg_word args) st
    = Some (of_nat (length t), st\<lparr>uart_out := uart_out st @ filter (\<lambda>c. c \<noteq> 0) t\<rparr>)"
  unfolding printf_def using vsnprintf_core_char [OF assms] .

lemma has_unhash:
  "has (if P then flags AND NOT FLAGS_HASH else flags) FLAGS_ZEROPAD = has flags FLAGS_ZEROPAD"
  "has (if P then flags AND NOT FLAGS_HASH else flags) FLAGS_LEFT = has flags FLAGS_LEFT"
  by (simp_all add: has_def flag_bits and.assoc)

lemma ntoa_buf_width: "unat (snd (ntoa_buf negative base prec width flags buf)) \<le> unat width"
  by (auto simp: ntoa_buf_def ntoa_zeros_def Let_def word_le_nat_alt [symmetric] word_gt_0
      intro: sub1_le split: prod.splits)

text \<open>
  C2. The formatter refines \<open>render\<close> for every output function: if the format string and the
  string arguments are not overwritten by the output, \<open>_vsnprintf\<close> terminates and hands exactly
  the rendered bytes to the output function, in order, with indices 0, 1, 2, ...
\<close>

theorem formatter_refines_render:
  assumes "\<And>c idx s x. kept x \<Longrightarrow> idx < of_nat (length t) \<Longrightarrow> mem (out c buffer idx maxlen s) x = mem s x"
    and "render cs args = Some t" and "length t < 2 ^ 32"
    and "cstr (mem st) fmt cs" and "kept_str kept fmt cs" and "\<forall>a \<in> set args. arg_ok kept (mem st) a"
  shows "format_loop out buffer maxlen fmt (map arg_word args) (0, st)
    = Some (emits out buffer maxlen t (0, st))"
proof -
  have "sink out buffer maxlen kept (of_nat (length t))"
    by unfold_locales (rule assms(1))
  from sink.format_loop_render [OF this assms(2)] assms(3-6) show ?thesis
    by (simp add: unat_of_nat32)
qed

theorem formatter_refines_render_witness:
  "format_loop (out_fct UART_write) 0 0 100 [- 42] (0, with_format [c_percent, c_d])
    = Some (3, (with_format [c_percent, c_d])\<lparr>uart_out := [c_minus, 52, 50]\<rparr>)"
proof -
  have "mem (out_fct UART_write c 0 idx 0 s) x = mem s x" for c idx s x
    by (simp add: out_fct_def UART_write_def)
  then show ?thesis
    using formatter_refines_render [OF _ demo_render _ demo_cstr, where kept = "\<lambda>_. True"
      and out = "out_fct UART_write" and buffer = 0 and maxlen = 0]
    by (simp add: kept_str_def arg_ok_def emit_def out_fct_def UART_write_def with_format_def)
qed

text \<open>
  C10. \<open>snprintf\<close>: it stores the longest prefix of the rendered text that fits \<open>count - 1\<close> bytes,
  always followed by a terminator, writes no byte outside of \<open>[buffer, buffer + count)\<close>, and
  returns the length of the whole text, cut or not; without a buffer or with \<open>count = 0\<close> it
  stores nothing.
\<close>

theorem snprintf_spec:
  assumes "render cs args = Some t" and "length t < 2 ^ 32 - 1" and "cstr (mem st) fmt cs"
    and "kept_str (spared buffer count (of_nat (length t))) fmt cs"
    and "\<forall>a \<in> set args. arg_ok (spared buffer count (of_nat (length t))) (mem st) a"
  shows "snprintf buffer count fmt (map arg_word args) st = Some (of_nat (length t),
    if buffer = 0 \<or> count = 0 then st
    else st\<lparr>mem := write_bytes buffer (take (unat count - 1) t @ [0]) (mem st)\<rparr>)"
  unfolding snprintf_def using vsnprintf_core_buffer [OF assms(1-3) HOL.refl assms(4,5)] .

theorem snprintf_spec_witness:
  "\<exists>st'. snprintf 200 3 100 [- 42] (with_format [c_percent, c_d]) = Some (3, st')
     \<and> cstr (mem st') 200 [c_minus, 52] \<and> mem st' 203 = 0"
proof -
  have "kept_str (spared 200 3 (of_nat (length [c_minus, 52, 50]))) 100 [c_percent, c_d]"
  proof -
    have "spared 200 3 (of_nat (length [c_minus, 52, 50])) (100 + of_nat i)" if "i = 0 \<or> i = 1 \<or> i = 2" for i
      using that by (auto simp: spared_def span_def)
    moreover have "i = 0 \<or> i = 1 \<or> i = 2" if "i \<le> length [c_percent, c_d]" for i using that by auto
    ultimately show ?thesis by (simp only: kept_str_def) blast
  qed
  from snprintf_spec [OF demo_render _ demo_cstr this] show ?thesis
    by (simp add: arg_ok_def write_bytes_def with_format_def)
qed

text \<open>
  C22. \<open>printf\<close> sends the rendered text to the UART, its NUL characters left out, changes nothing
  else and returns the length of the text.
\<close>

theorem printf_spec:
  assumes "render cs args = Some t" and "length t < 2 ^ 32 - 1" and "cstr (mem st) fmt cs"
    and "\<forall>a \<in> set args. arg_ok (\<lambda>_. True) (mem st) a" and "stack \<noteq> 0"
  shows "printf stack fmt (map arg_word args) st
    = Some (of_nat (length t), st\<lparr>uart_out := uart_out st @ filter (\<lambda>c. c \<noteq> 0) t\<rparr>)"
  using assms by (rule printf_renders)

theorem printf_spec_witness:
  "\<exists>st'. printf 4 100 [- 42] (with_format [c_percent, c_d]) = Some (3, st') \<and> uart_out st' = [c_minus, 52, 50]"
  using printf_spec [OF demo_render _ demo_cstr, of 4] by (simp add: arg_ok_def with_format_def)

text \<open>One conversion in a format, printed.\<close>

lemma render_literal:
  "c_percent \<notin> set pre \<Longrightarrow> render cs args = Some t \<Longrightarrow> render (pre @ cs) args = Some (pre @ t)"
  by (induction pre) simp_all

lemma printf_number:
  assumes "c \<in> {c_d, c_i, c_u, c_x, c_X, c_o, c_b}" and "cstr (mem st) fmt (pre @ [c_percent, c] @ post)"
    and "c_percent \<notin> set pre \<union> set post" and "length (pre @ int_text c 0 0 0 v @ post) < 2 ^ 32 - 1" and "stack \<noteq> 0"
    and "0 \<notin> set (int_text c 0 0 0 v)"
  shows "printf stack fmt [v] st = Some (of_nat (length (pre @ int_text c 0 0 0 v @ post)),
    st\<lparr>uart_out := uart_out st @ pre @ int_text c 0 0 0 v @ post\<rparr>)"
proof -
  let ?t = "int_text c 0 0 0 v"
  have "render post [] = Some post" using assms(3) render_literal [of post "[]" "[]" "[]"] by simp
  then have "render ([c_percent, c] @ post) [Num v] = Some (?t @ post)"
    by (simp add: directive_plain [OF assms(1)])
  with assms(3) have r: "render (pre @ [c_percent, c] @ post) [Num v] = Some (pre @ ?t @ post)"
    by (intro render_literal) simp_all
  have "0 \<notin> set (pre @ [c_percent, c] @ post)" using assms(2) unfolding cstr_iff by (rule conjunct1)
  with assms(6) have "filter (\<lambda>c. c \<noteq> 0) (pre @ ?t @ post) = pre @ ?t @ post" by (intro filter_True) auto
  then show ?thesis
    using printf_renders [OF r assms(4,2) _ assms(5)] by (simp add: arg_ok_def)
qed

lemma numeral_text_char:
  assumes "2 \<le> b" "b \<le> 16" and "c \<in> set (numeral_text flags b n)"
  shows "c \<noteq> 0 \<and> (is_digit c \<or> (if has flags FLAGS_UPPERCASE then c_A \<le> c \<and> c \<le> 70 else c_a \<le> c \<and> c \<le> 102))"
proof -
  from assms(3) obtain d where d: "d \<in> set (base_digits b n)" "c = digit_char flags (of_nat d)"
    by (auto simp: numeral_text_def)
  have "d < 16" using base_digits_less [OF assms(1) d(1)] assms(2) by simp
  then have "d \<in> set [0..<16]" by simp
  moreover have "\<forall>d \<in> set [0..<16]. digit_char flags (of_nat d) \<noteq> 0 \<and> (is_digit (digit_char flags (of_nat d)) \<or>
      (if has flags FLAGS_UPPERCASE then c_A \<le> digit_char flags (of_nat d) \<and> digit_char flags (of_nat d) \<le> 70
       else c_a \<le> digit_char flags (of_nat d) \<and> digit_char flags (of_nat d) \<le> 102))"
    by (simp add: upt_rec digit_char_def is_digit_def)
  ultimately show ?thesis unfolding d(2) by (rule bspec [rotated])
qed

lemma numeral_text_u32_length: "2 \<le> b \<Longrightarrow> length (numeral_text flags b (unat (v :: u32))) \<le> 32"
  using base_digits_u32 [of b v] by (simp add: numeral_text_def)

text \<open>
  C30. \<open>printf\<close> with one \<open>%d\<close> or \<open>%i\<close> in its format sends the text before it, the signed value and the
  text after it to the UART, changes nothing else and returns their length. The value is a minus sign exactly for
  negative values, then the decimal numeral of its absolute value without leading zeros, also for \<open>INT_MIN\<close>.
\<close>

theorem signed_conversion:
  assumes "c \<in> {c_d, c_i}" and "cstr (mem st) fmt (pre @ [c_percent, c] @ post)"
    and "c_percent \<notin> set pre \<union> set post" and "length pre + length post < 2 ^ 32 - 34" and "stack \<noteq> 0"
  shows "\<exists>t n. is_numeral 10 (nat \<bar>sint v\<bar>) n \<and> t = pre @ (if sint v < 0 then c_minus # n else n) @ post
    \<and> printf stack fmt [v] st = Some (of_nat (length t), st\<lparr>uart_out := uart_out st @ t\<rparr>)"
proof -
  let ?n = "numeral_text 0 10 (nat \<bar>sint v\<bar>)"
  have "length ?n \<le> 32" using numeral_text_u32_length [of 10 0 "magnitude v"] by (simp add: sint_magnitude)
  moreover have "0 \<notin> set ?n" using numeral_text_char [of 10 0] by force
  ultimately have "printf stack fmt [v] st = Some (of_nat (length (pre @ int_text c 0 0 0 v @ post)),
      st\<lparr>uart_out := uart_out st @ pre @ int_text c 0 0 0 v @ post\<rparr>)"
    using assms(1,4) by (intro printf_number [OF _ assms(2,3) _ assms(5)]) (auto simp: int_text_signed [OF assms(1)])
  then show ?thesis unfolding int_text_signed [OF assms(1)]
    using numeral_text_is_numeral [of 10 "nat \<bar>sint v\<bar>" 0]
    by (intro exI [of _ "pre @ (if sint v < 0 then c_minus # ?n else ?n) @ post"] exI [of _ ?n]) simp
qed

theorem signed_conversion_witness:
  "\<exists>n st'. printf 4 100 [0x80000000] (with_format [c_percent, c_d]) = Some (of_nat (Suc (length n)), st')
     \<and> uart_out st' = c_minus # n \<and> num_value 10 n = 2147483648"
  using signed_conversion [of c_d "with_format [c_percent, c_d]" 100 "[]" "[]" 4 "0x80000000"] demo_cstr
  by (force simp: is_numeral_def with_format_def)

text \<open>
  C31. \<open>printf\<close> with one \<open>%u\<close>, \<open>%x\<close>, \<open>%X\<close>, \<open>%o\<close> or \<open>%b\<close> in its format prints the text around it and
  the unsigned value in base 10, 16, 16, 8 and 2, without leading zeros, the digits from ten in
  upper case for \<open>%X\<close> and in lower case otherwise; \<open>%b\<close> may need all 32 bytes of the number buffer.
\<close>

theorem unsigned_conversion:
  assumes "c \<in> {c_u, c_x, c_X, c_o, c_b}" and "cstr (mem st) fmt (pre @ [c_percent, c] @ post)"
    and "c_percent \<notin> set pre \<union> set post" and "length pre + length post < 2 ^ 32 - 33" and "stack \<noteq> 0"
  shows "\<exists>t n. is_numeral (if c = c_b then 2 else if c = c_o then 8 else if c = c_u then 10 else 16) (unat v) n
    \<and> t = pre @ n @ post
    \<and> (\<forall>x \<in> set n. is_digit x \<or> (if c = c_X then c_A \<le> x \<and> x \<le> 70 else c_a \<le> x \<and> x \<le> 102))
    \<and> printf stack fmt [v] st = Some (of_nat (length t), st\<lparr>uart_out := uart_out st @ t\<rparr>)"
proof -
  let ?b = "unat (int_base c)" and ?f = "if c = c_X then FLAGS_UPPERCASE else 0"
  let ?n = "numeral_text ?f ?b (unat v)"
  have b: "?b = (if c = c_b then 2 else if c = c_o then 8 else if c = c_u then 10 else 16)"
    "2 \<le> ?b" "?b \<le> 16" using assms(1) by (auto simp: int_base_def)
  have f: "has ?f FLAGS_UPPERCASE \<longleftrightarrow> c = c_X" by (simp add: has_def flag_bits)
  note n = int_text_unsigned [OF assms(1), of v] numeral_text_char [OF b(2,3), of _ ?f "unat v"]
  from n(2) have z: "0 \<notin> set ?n" by blast
  have "printf stack fmt [v] st = Some (of_nat (length (pre @ ?n @ post)), st\<lparr>uart_out := uart_out st @ pre @ ?n @ post\<rparr>)"
    using printf_number [of c st fmt pre post v stack, OF _ assms(2,3) _ assms(5)] assms(1,4) z
      numeral_text_u32_length [OF b(2), of ?f v] unfolding n(1) by simp
  with n(2) f b show ?thesis using numeral_text_is_numeral [OF b(2,3), of "unat v" ?f]
    by (intro exI [of _ "pre @ ?n @ post"] exI [of _ ?n]) auto
qed

theorem unsigned_conversion_witness:
  "\<exists>n st'. printf 4 100 [0xBEEF] (with_format [c_percent, c_X]) = Some (of_nat (length n), st')
     \<and> uart_out st' = n \<and> num_value 16 n = 0xBEEF"
proof -
  have "cstr (mem (with_format [c_percent, c_X])) 100 [c_percent, c_X]" by (rule with_format_cstr) simp_all
  with unsigned_conversion [of c_X "with_format [c_percent, c_X]" 100 "[]" "[]" 4 "0xBEEF"] show ?thesis
    by (force simp: is_numeral_def with_format_def)
qed

text \<open>
  The number buffer of 32 bytes is never overrun, whatever precision, width and flags ask
  for. Its price: with the \<open>0\<close> flag a number is never longer than 32 characters, so a larger
  field width is not filled; otherwise the text is at most as long as the field or 32.
\<close>

theorem number_text_bounded:
  "length (digits_loop v base flags []) \<le> 32
   \<and> length (fst (ntoa_buf negative base prec width flags (digits_loop v base flags []))) \<le> 32
   \<and> length (ntoa_text v negative base prec width flags)
     \<le> (if has flags FLAGS_ZEROPAD \<and> \<not> has flags FLAGS_LEFT then 32 else max 32 (unat width))"
proof (intro conjI)
  show d: "length (digits_loop v base fl []) \<le> 32" for fl
    using digits_loop_length [of "[]"] by simp
  show "length (fst (ntoa_buf negative base prec width flags (digits_loop v base flags []))) \<le> 32"
    by (intro ntoa_buf_length d)
  let ?fl = "if v = 0 then flags AND NOT FLAGS_HASH else flags"
  let ?digits = "if \<not> has ?fl FLAGS_PRECISION \<or> v \<noteq> 0 then digits_loop v base ?fl [] else []"
  obtain buf w where b: "ntoa_buf negative base prec width ?fl ?digits = (buf, w)" by (metis surj_pair)
  have "length ?digits \<le> 32" using d [of ?fl] by simp
  from ntoa_buf_length [OF this, of negative base prec width ?fl]
  have buf: "length buf \<le> 32" by (simp only: b fst_conv)
  from ntoa_buf_width [of negative base prec width ?fl ?digits]
  have w: "unat w \<le> unat width" by (simp only: b snd_conv)
  have t: "ntoa_text v negative base prec width flags = rev_text buf w ?fl"
    using b unfolding ntoa_text_def Let_def by simp
  show "length (ntoa_text v negative base prec width flags)
     \<le> (if has flags FLAGS_ZEROPAD \<and> \<not> has flags FLAGS_LEFT then 32 else max 32 (unat width))"
    unfolding t using buf w by (auto simp: rev_text_def Let_def has_unhash)
qed

text \<open>
  Floating point conversions are not compiled in: each of their specifiers prints just its own
  letter and takes no argument, so that the next conversion gets the wrong one.
\<close>

theorem float_conversion_echoes:
  assumes "c \<in> {102, 70, 101, 69, 103, 71}"
  shows "directive (c # cs) args = Some ([c], cs, args)"
  using assms
  by (elim insertE emptyE)
    (simp_all add: directive_def scan_def flag_of_def r_width_def r_precision_def r_length_def starts_def
      is_digit_def conv_text_def int_specifier_def)

theorem float_conversion_echoes_witness:
  "render [c_percent, 102, c_space, c_percent, c_d] [Num 1, Num 2] = Some [102, c_space, 49]"
proof -
  have "directive [102, c_space, c_percent, c_d] [Num 1, Num 2]
      = Some ([102], [c_space, c_percent, c_d], [Num 1, Num 2])"
    by (rule float_conversion_echoes) simp
  moreover have "render [c_space, c_percent, c_d] [Num 1, Num 2] = Some [c_space, 49]" by code_simp
  ultimately show ?thesis by (subst render.simps) simp
qed

text \<open>
  A format string that ends in \<open>%\<close> is read past its end: the terminator is taken for the
  specifier, printed as a character, and the formatter goes on with the byte behind it.
\<close>

theorem trailing_percent_overread:
  assumes "mem (snd o') fmt = c_percent" and "mem (snd o') (fmt + 1) = 0"
  shows "format_loop out buffer maxlen fmt va o'
    = format_loop out buffer maxlen (fmt + 2) va (emit out buffer maxlen 0 o')"
  using assms
  by (subst format_loop.simps, subst parse_flags.simps)
    (simp add: parse_width_def parse_precision_def parse_length_def convert_def int_specifier_def add.assoc)

theorem trailing_percent_overread_witness:
  "format_loop out_char 4 0 100 [] (0, boot (write_bytes 100 [c_percent, 0, c_A, 0] (\<lambda>_. 0)))
    = Some (2, (boot (write_bytes 100 [c_percent, 0, c_A, 0] (\<lambda>_. 0)))\<lparr>uart_out := [c_A]\<rparr>)"
proof -
  let ?st = "boot (write_bytes 100 [c_percent, 0, c_A, 0] (\<lambda>_. 0))"
  have m: "mem ?st 100 = c_percent" "mem ?st 101 = 0" "mem ?st 102 = c_A" "mem ?st 103 = 0"
    by (simp_all add: write_bytes_def)
  have "format_loop out_char 4 0 100 [] (0, ?st)
      = format_loop out_char 4 0 102 [] (emit out_char 4 0 0 (0, ?st))"
    using trailing_percent_overread [of "(0, ?st)" 100 out_char 4 0 "[]"] m by simp
  also have "emit out_char 4 0 0 (0, ?st) = (1, ?st)" by (simp add: emit_def out_char_def)
  also have "format_loop out_char 4 0 102 [] (1, ?st) = Some (2, ?st\<lparr>uart_out := [c_A]\<rparr>)"
    using m format_loop.simps [of out_char 4 0 102 "[]" "(1, ?st)"]
      format_loop.simps [of out_char 4 0 103 "[]" "(2, ?st\<lparr>uart_out := [c_A]\<rparr>)"]
    by (simp add: emit_def out_char_def put_char_def UART_write_def)
  finally show ?thesis .
qed

text \<open>
  \<open>fctprintf\<close> never calls its callback: it passes \<open>_out_buffer\<close> together with the address of
  its wrapper object, so the text is stored over the wrapper and whatever lies behind it on the
  stack, and nothing else happens.
\<close>

theorem fctprintf_overwrites_wrapper:
  fixes st :: machine and stack fct arg :: u32
  defines "m \<equiv> store32 (stack + 4) arg (store32 stack fct (mem st))"
  assumes "render cs args = Some t" and "length t < 2 ^ 32 - 1" and "stack \<noteq> 0"
    and "cstr m fmt cs" and "kept_str (spared stack (- 1) (of_nat (length t))) fmt cs"
    and "\<forall>a \<in> set args. arg_ok (spared stack (- 1) (of_nat (length t))) m a"
  shows "fctprintf stack fct arg fmt (map arg_word args) st
    = Some (of_nat (length t), st\<lparr>mem := write_bytes stack (t @ [0]) m\<rparr>)"
proof -
  have "take (unat (- 1 :: u32) - 1) t = t"
    using assms(3) by (simp add: unsigned_minus_1_eq_mask mask_eq_exp_minus_1)
  then show ?thesis
    using vsnprintf_core_buffer [OF assms(2,3) _ HOL.refl assms(6), of "st\<lparr>mem := m\<rparr>"] assms(4,5,7)
    by (simp add: fctprintf_def m_def [symmetric])
qed

theorem fctprintf_overwrites_wrapper_witness:
  "\<exists>st'. fctprintf 200 0x80001000 7 100 [- 42] (with_format [c_percent, c_d]) = Some (3, st')
     \<and> uart_out st' = [] \<and> mem st' 200 = c_minus \<and> mem st' 203 = 0"
proof -
  let ?m = "store32 204 7 (store32 200 0x80001000 (mem (with_format [c_percent, c_d])))"
  have i: "i = 0 \<or> i = 1 \<or> i = 2" if "i \<le> length [c_percent, c_d]" for i using that by auto
  have "spared 200 (- 1) (of_nat (length [c_minus, 52, 50])) (100 + of_nat i)"
    if "i = 0 \<or> i = 1 \<or> i = 2" for i
    using that by (auto simp: spared_def span_def)
  with i have k: "kept_str (spared 200 (- 1) (of_nat (length [c_minus, 52, 50]))) 100 [c_percent, c_d]"
    by (simp only: kept_str_def) blast
  have "cstr ?m 100 [c_percent, c_d] = cstr (mem (with_format [c_percent, c_d])) 100 [c_percent, c_d]"
  proof (rule cstr_cong)
    fix i assume "i \<le> length [c_percent, c_d]"
    with i have "i = 0 \<or> i = 1 \<or> i = 2" by blast
    then show "?m (100 + of_nat i) = mem (with_format [c_percent, c_d]) (100 + of_nat i)"
      by (auto simp: store32_def)
  qed
  with demo_cstr have "cstr ?m 100 [c_percent, c_d]" by simp
  with fctprintf_overwrites_wrapper [OF demo_render, where stack = 200 and fct = "0x80001000"
      and arg = 7 and fmt = 100 and st = "with_format [c_percent, c_d]"] k show ?thesis
    by (simp add: arg_ok_def write_bytes_def with_format_def)
qed

end
