(* ===== verification/Standard.thy ===== *)
theory Standard
  imports StringObj PrintfSpec
begin

text \<open>
  \<open>c_test/standard.c\<close> and \<open>c_test/signal.c\<close>: \<open>str2int\<close> with its static result, \<open>get_string\<close> that
  reads a line from the UART into a heap string, and the library functions that do nothing.
  \<open>lit\<close> and \<open>stack\<close> are the addresses of a string literal and of the local buffer of \<open>printf\<close>.
\<close>

section \<open>Numbers\<close>

definition char2int :: "byte \<Rightarrow> u32" where
  "char2int c = ucast c - 48"

text \<open>The loop ends at the terminator with sign and value, or at the first bad character.\<close>

datatype scanned = Number bool u32 | Bad u32

partial_function (option) str2int_loop :: "memory \<Rightarrow> u32 \<Rightarrow> u32 \<Rightarrow> bool \<Rightarrow> u32 \<Rightarrow> scanned option" where
  "str2int_loop m base input negative value =
     (if m input = 0 then Some (Number negative value)
      else if m input = c_minus then str2int_loop m base (input + 1) True value
      else if c_0 \<le> m input \<and> m input \<le> c_9
        then str2int_loop m base (input + 1) negative (value * base + char2int (m input))
      else Some (Bad input))"

text \<open>The result is NULL or the address of the static variable \<open>output\<close>.\<close>

datatype int_ptr = NullPtr | OutputPtr

definition str2int :: "u32 \<Rightarrow> u32 \<Rightarrow> u32 \<Rightarrow> u32 \<Rightarrow> machine \<Rightarrow> (int_ptr \<times> machine) option" where
  "str2int stack lit input base st = do {
     r \<leftarrow> str2int_loop (mem st) base input False 0;
     (case r of
        Number negative value \<Rightarrow>
          Some (OutputPtr, st\<lparr>str2int_output := (if negative then - value else value)\<rparr>)
      | Bad p \<Rightarrow> do {
          (_, st) \<leftarrow> printf stack lit [p] st;
          Some (NullPtr, st)
        })
   }"

section \<open>Input lines\<close>

partial_function (option) get_string_loop :: "u32 \<Rightarrow> machine \<Rightarrow> machine option" where
  "get_string_loop str st = do {
     (c, st) \<leftarrow> UART_read st;
     if c = c_newline then Some st
     else do {
       st \<leftarrow> string_append_char str c st;
       get_string_loop str st
     }
   }"

definition get_string :: "u32 \<Rightarrow> machine \<Rightarrow> (u32 \<times> machine) option" where
  "get_string lit_empty st = do {
     (str, st) \<leftarrow> string_new lit_empty st;
     st \<leftarrow> get_string_loop str st;
     st \<leftarrow> string_shrink str st;
     (data, st) \<leftarrow> string_data str st;
     Some (data, free str st)
   }"

section \<open>Functions that do nothing\<close>

text \<open>\<open>exit\<close> and \<open>longjmp\<close> do not return.\<close>

definition exit :: "u32 \<Rightarrow> machine \<Rightarrow> machine option" where
  "exit status st = None"
definition longjmp :: "u32 \<Rightarrow> u32 \<Rightarrow> machine \<Rightarrow> machine option" where
  "longjmp env val st = None"
definition setjmp :: "u32 \<Rightarrow> machine \<Rightarrow> u32 \<times> machine" where
  "setjmp env st = (0, st)"
definition atexit :: "u32 \<Rightarrow> machine \<Rightarrow> u32 \<times> machine" where
  "atexit func st = (0, st)"
definition fopen :: "u32 \<Rightarrow> u32 \<Rightarrow> machine \<Rightarrow> u32 \<times> machine" where
  "fopen filename mode st = (0, st)"
definition fclose :: "u32 \<Rightarrow> machine \<Rightarrow> u32 \<times> machine" where
  "fclose stream st = (0, st)"
definition fread :: "u32 \<Rightarrow> u32 \<Rightarrow> u32 \<Rightarrow> u32 \<Rightarrow> machine \<Rightarrow> u32 \<times> machine" where
  "fread ptr sz nmemb stream st = (0, st)"
definition fwrite :: "u32 \<Rightarrow> u32 \<Rightarrow> u32 \<Rightarrow> u32 \<Rightarrow> machine \<Rightarrow> u32 \<times> machine" where
  "fwrite ptr sz nmemb stream st = (0, st)"
definition fprintf :: "u32 \<Rightarrow> u32 \<Rightarrow> u32 list \<Rightarrow> machine \<Rightarrow> u32 \<times> machine" where
  "fprintf stream format va st = (0, st)"
definition fscanf :: "u32 \<Rightarrow> u32 \<Rightarrow> u32 list \<Rightarrow> machine \<Rightarrow> u32 \<times> machine" where
  "fscanf stream format va st = (0, st)"
definition vfscanf :: "u32 \<Rightarrow> u32 \<Rightarrow> u32 list \<Rightarrow> machine \<Rightarrow> u32 \<times> machine" where
  "vfscanf stream format va st = (0, st)"
definition vsscanf :: "u32 \<Rightarrow> u32 \<Rightarrow> u32 list \<Rightarrow> machine \<Rightarrow> u32 \<times> machine" where
  "vsscanf str format va st = (0, st)"
definition isoc99_vsscanf :: "u32 \<Rightarrow> u32 \<Rightarrow> u32 list \<Rightarrow> machine \<Rightarrow> u32 \<times> machine" where
  "isoc99_vsscanf str format va st = (0, st)"
definition isoc99_vfscanf :: "u32 \<Rightarrow> u32 \<Rightarrow> u32 list \<Rightarrow> machine \<Rightarrow> u32 \<times> machine" where
  "isoc99_vfscanf str format va st = (0, st)"
definition signal :: "u32 \<Rightarrow> u32 \<Rightarrow> machine \<Rightarrow> u32 \<times> machine" where
  "signal signum handler st = (0, st)"
definition raise :: "u32 \<Rightarrow> machine \<Rightarrow> u32 \<times> machine" where
  "raise signum st = (0, st)"

section \<open>What str2int reads\<close>

definition digits_value :: "u32 \<Rightarrow> u32 \<Rightarrow> byte list \<Rightarrow> u32" where
  "digits_value base v s = foldl (\<lambda>a c. a * base + char2int c) v (filter (\<lambda>c. c \<noteq> c_minus) s)"

definition numeric :: "byte \<Rightarrow> bool" where
  "numeric c \<longleftrightarrow> c = c_minus \<or> is_digit c"

lemma str2int_loop_good:
  assumes "cstr m p s" and "\<forall>c \<in> set s. numeric c"
  shows "str2int_loop m base p negative v
    = Some (Number (negative \<or> c_minus \<in> set s) (digits_value base v s))"
  using assms
proof (induction s arbitrary: p negative v)
  case Nil
  then show ?case by (subst str2int_loop.simps) (simp add: digits_value_def)
next
  case (Cons c s)
  then show ?case
    by (subst str2int_loop.simps) (auto simp: digits_value_def numeric_def is_digit_def)
qed

lemma str2int_loop_bad:
  assumes "cstr m p (s @ c # s')" and "\<forall>c \<in> set s. numeric c" and "\<not> numeric c"
  shows "str2int_loop m base p negative v = Some (Bad (p + of_nat (length s)))"
  using assms
proof (induction s arbitrary: p negative v)
  case Nil
  then show ?case by (subst str2int_loop.simps) (auto simp: numeric_def is_digit_def)
next
  case (Cons d s)
  from Cons.prems have "cstr m (p + 1) (s @ c # s')" "numeric d" "m p = d" "d \<noteq> 0" by auto
  note IH = Cons.IH [OF this(1)]
  show ?case
    using IH Cons.prems \<open>numeric d\<close> \<open>m p = d\<close> \<open>d \<noteq> 0\<close>
    by (subst str2int_loop.simps) (auto simp: numeric_def is_digit_def add.assoc)
qed

text \<open>The message of the error branch.\<close>

definition msg_not_a_number :: "byte list" where
  "msg_not_a_number = [c_percent, c_s, 32, 73, 115, 32, 110, 111, 116, 32, 97, 32, 78, 117, 109,
     98, 101, 114, 33, c_newline]"

lemma render_plain: "c_percent \<notin> set cs \<Longrightarrow> render cs args = Some cs"
  by (induction cs) auto

lemma directive_s: "directive (c_s # cs) (Text p s # args) = Some (s, cs, args)"
  by (simp add: directive_def scan_def flag_of_def r_width_def r_precision_def r_length_def starts_def
      is_digit_def conv_text_def int_specifier_def cut_def pad_text_def has_def)

lemma render_not_a_number:
  "render msg_not_a_number [Text p s] = Some (s @ drop 2 msg_not_a_number)"
proof -
  have "render (drop 2 msg_not_a_number) [] = Some (drop 2 msg_not_a_number)"
    by (rule render_plain) (simp add: msg_not_a_number_def)
  then show ?thesis by (simp add: msg_not_a_number_def directive_s)
qed

text \<open>Decimal numerals are read back.\<close>

lemma digits_value_numeral: "digits_value 10 0 (numeral_text 0 10 n) = of_nat n"
proof -
  have dig: "\<forall>d \<in> set [0..<10]. char2int (digit_char 0 (of_nat d)) = of_nat d \<and> digit_char 0 (of_nat d) \<noteq> c_minus"
    by (simp add: upt_rec char2int_def digit_char_def)
  have fold: "foldl (\<lambda>a c. a * 10 + char2int c) (of_nat x)
      (filter (\<lambda>c. c \<noteq> c_minus) (map (\<lambda>d. digit_char 0 (of_nat d)) ds)) = (of_nat (foldl (\<lambda>a d. a * 10 + d) x ds) :: u32)"
    if "\<forall>d \<in> set ds. d < 10" for ds x
    using that
  proof (induction ds arbitrary: x)
    case (Cons d ds)
    then have "char2int (digit_char 0 (of_nat d)) = of_nat d" "digit_char 0 (of_nat d) \<noteq> c_minus"
      using dig by simp_all
    with Cons.prems Cons.IH [of "x * 10 + d"] show ?case by simp
  qed simp
  have "\<forall>d \<in> set (base_digits 10 n). d < 10" using base_digits_less [of 10] by auto
  from fold [OF this, of 0] show ?thesis
    using base_digits_value [of 10 n] by (simp add: digits_value_def numeral_text_def)
qed

lemma numeral_text_digits: "\<forall>c \<in> set (numeral_text 0 10 n). is_digit c"
proof -
  have "\<forall>d \<in> set [0..<10]. is_digit (digit_char 0 (of_nat d))"
    by (simp add: upt_rec is_digit_def digit_char_def)
  then show ?thesis using base_digits_less [of 10 _ n] by (fastforce simp: numeral_text_def)
qed

lemma numeral_text_length: "length (numeral_text 0 10 (nat \<bar>sint (v :: u32)\<bar>)) \<le> 10"
proof -
  have "nat \<bar>sint v\<bar> < 10 ^ Suc 9" using sint_ge [of v] sint_lt [of v] by simp
  then show ?thesis using base_digits_length [of 10 "nat \<bar>sint v\<bar>" 9] by (simp add: numeral_text_def)
qed

lemma word_of_abs_sint:
  "(if sint v < 0 then - of_nat (nat \<bar>sint v\<bar>) else of_nat (nat \<bar>sint v\<bar>)) = (v :: u32)"
proof -
  have "(of_nat (nat \<bar>sint v\<bar>) :: u32) = word_of_int \<bar>sint v\<bar>" by simp
  then show ?thesis by (cases "sint v < 0") simp_all
qed

section \<open>Reading a line\<close>

text \<open>Outside the heap nothing of the string operations is seen.\<close>

lemma outside_string:
  assumes "string_at st L s d cap xs" and "\<not> in_heap x"
  shows "client in_heap L x \<and> \<not> span s 12 x \<and> \<not> span d cap x"
  using heap_owns_arena [OF string_atD(1) [OF assms(1)] string_atD(2) [OF assms(1)]]
    heap_owns_arena [OF string_atD(1) [OF assms(1)] string_atD(3) [OF assms(1)]] assms(2)
  by (auto simp: client_def)

lemma string_at_uart_in: "string_at (st\<lparr>uart_in := u\<rparr>) L s d cap xs = string_at st L s d cap xs"
proof -
  have "heap_owns (st\<lparr>uart_in := u\<rparr>) L = heap_owns st L"
    by (simp add: heap_owns_def heap_inv_def)
  then show ?thesis by (simp add: string_at_def str_data_def str_length_def str_capacity_def)
qed

lemma grown_double:
  assumes "length xs < unat cap"
  shows "grown (unat cap) (length xs + 1) = (if length xs + 1 = unat cap then 2 * unat cap else unat cap)"
  using assms by (auto simp: grown_def)

text \<open>
  One line: the characters before the newline are appended one by one. \<open>U\<close> bounds the heap space
  the doubling buffers take: \<open>18\<close> bytes per byte of the current capacity.
\<close>

lemma get_string_loop_line:
  assumes "string_at st L s d cap xs" and "length xs < unat cap" and "unat cap \<le> 2 * length xs + 1"
    and "heap_used L \<le> U + 18 * unat cap" and "uart_in st = line @ c_newline # rest"
    and "c_newline \<notin> set line" and "U + 40 * (length xs + length line) + 37 < HEAP_SIZE"
  shows "\<exists>L' d' cap' st'. get_string_loop s st = Some st' \<and> string_at st' L' s d' cap' (xs @ line)
    \<and> length (xs @ line) < unat cap' \<and> unat cap' \<le> 2 * length (xs @ line) + 1
    \<and> heap_used L' \<le> U + 18 * unat cap' \<and> uart_in st' = rest \<and> uart_out st' = uart_out st
    \<and> (\<forall>x. \<not> in_heap x \<longrightarrow> mem st' x = mem st x)"
  using assms
proof (induction line arbitrary: st L d cap xs)
  case Nil
  have "get_string_loop s st = Some (st\<lparr>uart_in := rest\<rparr>)"
    using Nil.prems(5) by (subst get_string_loop.simps) (simp add: UART_read_def)
  then show ?case
    using Nil.prems string_at_uart_in by (intro exI [of _ L] exI [of _ d] exI [of _ cap] exI [of _ "st\<lparr>uart_in := rest\<rparr>"]) simp
next
  case (Cons c line)
  let ?st = "st\<lparr>uart_in := line @ c_newline # rest\<rparr>"
  let ?g = "grown (unat cap) (length xs + 1)"
  let ?cap = "of_nat ?g :: u32"
  have at: "string_at ?st L s d cap xs" using Cons.prems(1) by (simp add: string_at_uart_in)
  have g: "?g = (if length xs + 1 = unat cap then 2 * unat cap else unat cap)"
    using Cons.prems(2) by (rule grown_double)
  have bound: "unat cap \<le> 2 * length xs + 1" "U + 40 * length xs + 77 < HEAP_SIZE"
    using Cons.prems(3,7) by simp_all
  have capg: "unat ?cap = ?g" using g bound by (simp add: unat_of_nat32 HEAP_SIZE_def)
  have room: "heap_used L + 16 + ?g < HEAP_SIZE" using g bound Cons.prems(4) by simp
  from append_char_at [OF at room, of c] obtain d' st1 where
    a: "string_append_char s c ?st = Some st1" "string_at st1 (grown_owns L d' ?cap cap) s d' ?cap (xs @ [c])"
      "\<forall>x. client in_heap L x \<longrightarrow> \<not> span s 12 x \<longrightarrow> \<not> span d cap x \<longrightarrow> mem st1 x = mem ?st x"
    by blast
  let ?L = "grown_owns L d' ?cap cap"
  have eq: "?cap = cap \<longleftrightarrow> ?g = unat cap" using capg by (metis word_unat_eq_iff)
  have used: "heap_used ?L \<le> U + 18 * unat ?cap"
    using Cons.prems(4) g capg eq by (auto simp: grown_owns_def)
  have out1: "mem st1 x = mem st x" if "\<not> in_heap x" for x
    using a(3) outside_string [OF at that] by simp
  have io: "uart_in st1 = line @ c_newline # rest" "uart_out st1 = uart_out st"
    using string_append_char_io [OF a(1)] by simp_all
  have "length (xs @ [c]) < unat ?cap" "unat ?cap \<le> 2 * length (xs @ [c]) + 1"
    unfolding capg using g Cons.prems(2,3) by auto
  from Cons.IH [OF a(2) this used io(1)] Cons.prems(6,7) obtain L' d'' cap' st' where
    b: "get_string_loop s st1 = Some st'" "string_at st' L' s d'' cap' ((xs @ [c]) @ line)"
      "length ((xs @ [c]) @ line) < unat cap'" "unat cap' \<le> 2 * length ((xs @ [c]) @ line) + 1"
      "heap_used L' \<le> U + 18 * unat cap'" "uart_in st' = rest" "uart_out st' = uart_out st1"
      "\<forall>x. \<not> in_heap x \<longrightarrow> mem st' x = mem st1 x"
    by auto
  have "get_string_loop s st = get_string_loop s st1"
    using Cons.prems(5,6) a(1) by (subst get_string_loop.simps) (simp add: UART_read_def)
  with b out1 io show ?case
    by (intro exI [of _ L'] exI [of _ d''] exI [of _ cap'] exI [of _ st']) simp
qed

lemma get_string_line:
  assumes "heap_owns st L" and "mem st lit_empty = 0" and "uart_in st = line @ c_newline # rest"
    and "c_newline \<notin> set line" and "heap_used L + 100 + 40 * length line < HEAP_SIZE"
  shows "\<exists>data cap L' st'. get_string lit_empty st = Some (data, st') \<and> data \<noteq> 0
    \<and> heap_owns st' L' \<and> (data, cap) \<in> set L' \<and> length line < unat cap
    \<and> bytes (mem st') data (length (line @ [0])) = line @ [0]
    \<and> uart_in st' = rest \<and> uart_out st' = uart_out st
    \<and> heap_used L' \<le> heap_used L + 100 + 40 * length line
    \<and> (\<forall>x. \<not> in_heap x \<longrightarrow> mem st' x = mem st x)"
proof -
  let ?s = "adr (heap_used L + 13)" and ?d = "adr (heap_used L + 41)"
  have rd: "readable L lit_empty 0" by (simp add: readable_def)
  have "heap_used L + 45 + unat (0 :: u32) < HEAP_SIZE" using assms(5) by simp
  from string_new_len_at [OF assms(1) rd this] obtain st1 where
    n: "string_new_len lit_empty 0 st = Some (?s, st1)" "string_at st1 [(?d, 1), (?s, 12)] ?s ?d 1 [] \<or> True"
      "string_at st1 ((?d, 0 + 1) # (?s, 12) # L) ?s ?d (0 + 1) (bytes (mem st) lit_empty (unat (0 :: u32)))"
      "\<forall>x. client in_heap L x \<longrightarrow> mem st1 x = mem st x" by blast
  then have at: "string_at st1 ((?d, 1) # (?s, 12) # L) ?s ?d 1 []" by simp
  have new: "string_new lit_empty st = Some (?s, st1)"
    using n(1) strlen_cstr [of st lit_empty "[]"] assms(2) by (simp add: string_new_def)
  have io1: "uart_in st1 = line @ c_newline # rest" "uart_out st1 = uart_out st"
    using string_new_len_io [OF n(1)] assms(3) by simp_all
  have one: "unat (1 :: u32) = 1" by simp
  from get_string_loop_line [OF at, of "heap_used L + 27" line rest] io1(1) assms(4,5)
  obtain L2 d2 cap2 st2 where
    l: "get_string_loop ?s st1 = Some st2" "string_at st2 L2 ?s d2 cap2 line" "length line < unat cap2"
      "unat cap2 \<le> 2 * length line + 1" "heap_used L2 \<le> heap_used L + 27 + 18 * unat cap2"
      "uart_in st2 = rest" "uart_out st2 = uart_out st1" "\<forall>x. \<not> in_heap x \<longrightarrow> mem st2 x = mem st1 x"
    by (auto simp: one)
  note s2 = string_atD [OF l(2)]
  have "string_shrink ?s st2 = Some st2"
  proof -
    have "unat (of_nat (length line) + 1 :: u32) = length line + 1"
      using assms(5) unat_of_nat32 [of "length line + 1"] by (simp add: HEAP_SIZE_def add.commute)
    then show ?thesis using l(3) by (simp add: string_shrink_def string_grow_def s2(6,7) word_le_nat_alt)
  qed
  have g: "grown (unat cap2) (length line + 1) = (if length line + 1 = unat cap2 then 2 * unat cap2 else unat cap2)"
    using l(3) by (rule grown_double)
  have room: "heap_used L2 + 16 + grown (unat cap2) (length line + 1) < HEAP_SIZE"
    using g l(4,5) assms(5) by simp
  let ?cap = "of_nat (grown (unat cap2) (length line + 1)) :: u32"
  from append_char_at [OF l(2) room, of 0] obtain d3 st3 where
    a: "string_append_char ?s 0 st2 = Some st3" "string_at st3 (grown_owns L2 d3 ?cap cap2) ?s d3 ?cap (line @ [0])"
      "\<forall>x. client in_heap L2 x \<longrightarrow> \<not> span ?s 12 x \<longrightarrow> \<not> span d2 cap2 x \<longrightarrow> mem st3 x = mem st2 x" by blast
  let ?L3 = "grown_owns L2 d3 ?cap cap2"
  note s3 = string_atD [OF a(2)]
  let ?st4 = "free ?s st3"
  have own4: "heap_owns ?st4 ?L3" and keep4: "keeps (set ?L3) (mem st3) (mem ?st4)"
    using heap.release_ok [OF s3(1,2)] by blast+
  have "get_string lit_empty st = Some (d3, ?st4)"
    by (simp add: get_string_def new l(1) \<open>string_shrink ?s st2 = Some st2\<close> string_data_def a(1) s3(5))
  moreover have "bytes (mem ?st4) d3 (length (line @ [0])) = line @ [0]"
    using keeps_bytes [OF keep4 s3(3,8)] s3(9) by simp
  moreover have "heap_used ?L3 \<le> heap_used L + 100 + 40 * length line"
  proof -
    have "unat ?cap = grown (unat cap2) (length line + 1)"
      using room by (simp add: unat_of_nat32 HEAP_SIZE_def)
    then show ?thesis using l(4,5) g by (auto simp: grown_owns_def)
  qed
  moreover have "uart_in ?st4 = rest" "uart_out ?st4 = uart_out st"
    using string_append_char_io [OF a(1)] l(6,7) io1 by (simp_all add: free_io)
  moreover have "mem ?st4 x = mem st x" if "\<not> in_heap x" for x
    using that free_arena [OF s3(1,2) that] a(3) outside_string [OF l(2) that] l(8) n(4)
    by (simp add: client_def)
  moreover have "d3 \<noteq> 0" using heap_owns_size(2) [OF s3(1,3)] .
  moreover have "length line < unat ?cap" using s3(8) by simp
  ultimately show ?thesis using own4 s3(3) by blast
qed

section \<open>Properties\<close>

text \<open>
  C21. \<open>str2int\<close> on a C string: it accepts exactly the strings of digits and minus signs, in any
  order, and stores their value in the given base, modulo \<open>2^32\<close>, negated if there is a minus
  sign anywhere (so the empty string is 0). Otherwise it prints the rest from the first bad
  character on with its message and returns NULL; the static result keeps its old value.
\<close>

theorem str2int_spec:
  assumes "cstr (mem st) p s" and "cstr (mem st) lit msg_not_a_number" and "stack \<noteq> 0"
    and "length s < 2 ^ 31"
  shows "str2int stack lit p base st = Some (
    let bad = dropWhile numeric s; v = digits_value base 0 s
    in if bad = [] then (OutputPtr, st\<lparr>str2int_output := (if c_minus \<in> set s then - v else v)\<rparr>)
       else (NullPtr, st\<lparr>uart_out := uart_out st @ bad @ drop 2 msg_not_a_number\<rparr>))"
proof (cases "dropWhile numeric s")
  case Nil
  then have "\<forall>c \<in> set s. numeric c" by (simp add: dropWhile_eq_Nil_conv)
  from str2int_loop_good [OF assms(1) this] Nil show ?thesis by (simp add: str2int_def)
next
  case (Cons c s')
  let ?g = "takeWhile numeric s" and ?q = "p + of_nat (length (takeWhile numeric s))"
  have s: "s = ?g @ c # s'" using takeWhile_dropWhile_id [of numeric s] Cons by simp
  have bad: "\<not> numeric c" using hd_dropWhile [of numeric s] Cons by simp
  have good: "\<forall>c \<in> set ?g. numeric c" using set_takeWhileD by fast
  have "cstr (mem st) p (?g @ c # s')" using assms(1) s by simp
  note loop = str2int_loop_bad [OF this good bad]
  have q: "cstr (mem st) ?q (c # s')" using cstr_append \<open>cstr (mem st) p (?g @ c # s')\<close> .
  have "0 \<notin> set (c # s')" using q unfolding cstr_bytes by blast
  then have nz: "filter (\<lambda>c. c \<noteq> 0) (c # s' @ drop 2 msg_not_a_number) = c # s' @ drop 2 msg_not_a_number"
    by (auto simp: msg_not_a_number_def filter_id_conv)
  have "length (c # s') \<le> length s" by (subst s) simp
  then have len: "length ((c # s') @ drop 2 msg_not_a_number) < 2 ^ 32 - 1"
    using assms(4) by (simp add: msg_not_a_number_def)
  have arg: "\<forall>a \<in> set [Text ?q (c # s')]. arg_ok (\<lambda>_. True) (mem st) a"
    using q by (simp add: arg_ok_def kept_str_def)
  from vsnprintf_core_char [OF render_not_a_number len assms(2) arg assms(3), of "- 1"] nz
  have "printf stack lit [?q] st = Some (of_nat (length ((c # s') @ drop 2 msg_not_a_number)),
      st\<lparr>uart_out := uart_out st @ (c # s') @ drop 2 msg_not_a_number\<rparr>)"
    by (simp add: printf_def)
  with loop Cons show ?thesis by (simp add: str2int_def)
qed

theorem str2int_spec_witness:
  "str2int 4 100 200 10 (boot (write_bytes 200 [49, 120, 0] (write_bytes 100 (msg_not_a_number @ [0]) (\<lambda>_. 0))))
   = Some (NullPtr, (boot (write_bytes 200 [49, 120, 0] (write_bytes 100 (msg_not_a_number @ [0]) (\<lambda>_. 0))))
       \<lparr>uart_out := 120 # drop 2 msg_not_a_number\<rparr>)"
proof -
  let ?m = "write_bytes 200 [49, 120, 0] (write_bytes 100 (msg_not_a_number @ [0]) (\<lambda>_. 0))"
  have "cstr ?m 200 [49, 120]" using cstr_write_bytes [of "[49, 120]" 200] by simp
  moreover have "cstr ?m 100 msg_not_a_number"
    unfolding msg_not_a_number_def by (simp add: write_bytes_def)
  ultimately show ?thesis
    using str2int_spec [of "boot ?m" 200 "[49, 120]" 100 4 10]
    by (simp add: numeric_def is_digit_def)
qed

text \<open>
  C12. Printing and parsing are inverse: a value printed with \<open>sprintf(buffer, "%d", v)\<close> is read
  back by \<open>str2int(buffer, 10)\<close> as the same 32-bit value, for every \<open>v\<close>.
\<close>

theorem sprintf_str2int:
  assumes "cstr (mem st) fmt [c_percent, c_d]" and "kept_str (spared buffer (- 1) 11) fmt [c_percent, c_d]"
    and "buffer \<noteq> 0"
  shows "\<exists>n st'. sprintf buffer fmt [v] st = Some (n, st')
    \<and> str2int stack lit buffer 10 st' = Some (OutputPtr, st'\<lparr>str2int_output := v\<rparr>)"
proof -
  define d where "d = numeral_text 0 10 (nat \<bar>sint v\<bar>)"
  define t where "t = (if sint v < 0 then c_minus # d else d)"
  have r: "render [c_percent, c_d] [Num v] = Some t"
    using directive_plain [of c_d "[]" v "[]"] int_text_signed [of c_d v] by (simp add: t_def d_def)
  have dl: "length t \<le> 11" using numeral_text_length [of v] by (auto simp: t_def d_def)
  then have "(of_nat (length t) :: u32) \<le> 11" using unat_of_nat32 [of "length t"] by (simp add: word_le_nat_alt)
  then have kept: "kept_str (spared buffer (- 1) (of_nat (length t))) fmt [c_percent, c_d]"
    using assms(2) by (auto simp: kept_str_def spared_def dest: span_less)
  have digs: "\<forall>c \<in> set d. is_digit c" unfolding d_def by (rule numeral_text_digits)
  then have nz: "0 \<notin> set t" and num: "\<forall>c \<in> set t. numeric c" and min: "c_minus \<in> set t \<longleftrightarrow> sint v < 0"
    by (auto simp: t_def numeric_def is_digit_def)
  let ?st = "st\<lparr>mem := write_bytes buffer (t @ [0]) (mem st)\<rparr>"
  have "take (unat (- 1 :: u32) - 1) t = t"
    using dl by (simp add: unsigned_minus_1_eq_mask mask_eq_exp_minus_1)
  then have "sprintf buffer fmt [v] st = Some (of_nat (length t), ?st)"
    using vsnprintf_core_buffer [OF r _ assms(1) HOL.refl kept] dl assms(3)
    by (simp add: sprintf_def arg_ok_def)
  moreover have "cstr (mem ?st) buffer t" using cstr_write_bytes [OF nz] dl by simp
  from str2int_loop_good [OF this num, of 10 False 0]
  have "str2int stack lit buffer 10 ?st = Some (OutputPtr, ?st\<lparr>str2int_output :=
      (if sint v < 0 then - digits_value 10 0 t else digits_value 10 0 t)\<rparr>)"
    by (simp add: str2int_def min)
  moreover have "digits_value 10 0 t = digits_value 10 0 d" by (simp add: t_def digits_value_def)
  ultimately show ?thesis
    using word_of_abs_sint [of v] by (auto simp: d_def digits_value_numeral)
qed

theorem sprintf_str2int_witness:
  "\<exists>n st'. sprintf 200 100 [- 42] (with_format [c_percent, c_d]) = Some (n, st')
     \<and> (\<exists>st''. str2int 4 0 200 10 st' = Some (OutputPtr, st'') \<and> sint (str2int_output st'') = - 42)"
proof -
  have "spared 200 (- 1) 11 (100 + of_nat i)" if "i = 0 \<or> i = 1 \<or> i = 2" for i
    using that by (auto simp: spared_def span_def)
  moreover have "i = 0 \<or> i = 1 \<or> i = 2" if "i \<le> length [c_percent, c_d]" for i using that by auto
  ultimately have "kept_str (spared 200 (- 1) 11) 100 [c_percent, c_d]" by (simp only: kept_str_def) blast
  from sprintf_str2int [OF demo_cstr this, of "- 42" 4 0] show ?thesis by auto
qed

text \<open>
  C20. \<open>get_string\<close> returns exactly one input line: if a newline comes and the heap has room, the
  buffer holds the line's bytes followed by a NUL (a C string of the line unless the line itself
  holds a NUL), the input is consumed up to and with the newline, and nothing outside the heap
  changes. The buffer is a block of the heap, which stays intact.
\<close>

theorem get_string_spec:
  assumes "heap_owns st L" and "mem st lit_empty = 0" and "uart_in st = line @ c_newline # rest"
    and "c_newline \<notin> set line" and "heap_used L + 100 + 40 * length line < HEAP_SIZE"
  shows "\<exists>data cap L' st'. get_string lit_empty st = Some (data, st') \<and> data \<noteq> 0
    \<and> heap_owns st' L' \<and> (data, cap) \<in> set L'
    \<and> bytes (mem st') data (length line + 1) = line @ [0] \<and> (0 \<notin> set line \<longrightarrow> cstr (mem st') data line)
    \<and> uart_in st' = rest \<and> uart_out st' = uart_out st
    \<and> (\<forall>x. \<not> in_heap x \<longrightarrow> mem st' x = mem st x)"
proof -
  from get_string_line [OF assms] obtain data cap L' st' where g: "get_string lit_empty st = Some (data, st')"
    "data \<noteq> 0" "heap_owns st' L'" "(data, cap) \<in> set L'"
    "bytes (mem st') data (length (line @ [0])) = line @ [0]" "uart_in st' = rest"
    "uart_out st' = uart_out st" "\<forall>x. \<not> in_heap x \<longrightarrow> mem st' x = mem st x" by blast
  then have "cstr (mem st') data line" if "0 \<notin> set line" using that by (intro cstr_of_bytes) simp_all
  with g show ?thesis by auto
qed

theorem get_string_spec_witness:
  "\<exists>data st'. get_string 0 ((boot (\<lambda>_. 0))\<lparr>uart_in := [52, 50, c_newline, 55]\<rparr>) = Some (data, st')
     \<and> cstr (mem st') data [52, 50] \<and> uart_in st' = [55]"
proof -
  let ?st = "(boot (\<lambda>_. 0))\<lparr>uart_in := [52, 50] @ c_newline # [55]\<rparr>"
  have "heap_owns ?st []" by simp
  from get_string_spec [OF this, of 0 "[52, 50]" "[55]"] show ?thesis
    by (auto simp: HEAP_SIZE_def)
qed

end
