(* ===== verification/Console.thy ===== *)
theory Console
  imports Standard
begin

text \<open>
  What the programs of \<open>c_test\<close> share when they print: string literals, which the compiler places
  in the program image, and \<open>printf\<close> of a literal with its exact effect on the console. A program
  takes the placement of its literals as a function \<open>at\<close> from the bytes of a literal to its address.
\<close>

section \<open>Texts\<close>

text \<open>A C string literal, written as a HOL string; \<open>textln\<close> ends it with a newline.\<close>

definition ascii :: "string \<Rightarrow> byte list" where
  "ascii s = map of_char s"

definition textln :: "string \<Rightarrow> byte list" where
  "textln s = ascii s @ [c_newline]"

type_synonym rodata = "byte list \<Rightarrow> u32"

text \<open>A literal stands in memory, outside the heap.\<close>

definition literal :: "machine \<Rightarrow> u32 \<Rightarrow> byte list \<Rightarrow> bool" where
  "literal st p s \<longleftrightarrow> cstr (mem st) p s \<and> (\<forall>i \<le> length s. \<not> in_heap (p + of_nat i))"

definition literals_at :: "rodata \<Rightarrow> byte list list \<Rightarrow> machine \<Rightarrow> bool" where
  "literals_at at ss st \<longleftrightarrow> (\<forall>s \<in> set ss. literal st (at s) s)"

lemma literal_cong:
  assumes "literal st p s" and "\<And>x. \<not> in_heap x \<Longrightarrow> mem st' x = mem st x"
  shows "literal st' p s"
  using assms cstr_cong [of s "mem st'" p "mem st"] by (auto simp: literal_def)

lemma literals_at_cong:
  "literals_at at ss st \<Longrightarrow> (\<And>x. \<not> in_heap x \<Longrightarrow> mem st' x = mem st x) \<Longrightarrow> literals_at at ss st'"
  by (auto simp: literals_at_def intro: literal_cong)

lemma literal_kept: "literal st p s \<Longrightarrow> kept_str (\<lambda>_. True) p s"
  by (simp add: kept_str_def)

lemma literal_readable: "literal st p s \<Longrightarrow> readable L p (of_nat (length s))"
  unfolding readable_def
proof (intro allI impI)
  fix x assume s: "literal st p s" and "span p (of_nat (length s)) x"
  then obtain i where i: "x = p + i" "i < of_nat (length s)" by (metis spanE)
  have "length s < 2 ^ 32" using s cstr_length by (auto simp: literal_def)
  with i(2) have "unat i \<le> length s" by (simp add: word_less_nat_alt unat_of_nat32)
  then have "\<not> in_heap (p + of_nat (unat i))" using s unfolding literal_def by blast
  then show "client in_heap L x" by (simp add: client_def i(1))
qed

text \<open>A literal below the heap, for concrete program images.\<close>

lemma literal_low:
  assumes "bytes (mem st) p (length (s @ [0])) = s @ [0]" and "0 \<notin> set s"
    and "unat p + length s < 2 ^ 31"
  shows "literal st p s"
proof -
  have "\<not> in_heap (p + of_nat i)" if "i \<le> length s" for i
  proof -
    have "unat (p + of_nat i) = unat p + i" using that assms(3) by (simp add: unat_plus_if' unat_of_nat32)
    then show ?thesis using that assms(3) by (simp add: in_heap_def HEAP_START_def word_le_nat_alt)
  qed
  then show ?thesis using cstr_of_bytes [OF assms(1,2)] by (simp add: literal_def)
qed

section \<open>Laying out literals\<close>

text \<open>
  The simplest placement: the literals one after the other from \<open>p\<close> on, each with its terminator.
  It shows that the assumption on literals can be met by a program image.
\<close>

fun lay_out :: "u32 \<Rightarrow> byte list list \<Rightarrow> memory \<Rightarrow> memory" where
  "lay_out p [] m = m"
| "lay_out p (s # ss) m = write_bytes p (s @ [0]) (lay_out (p + of_nat (length s + 1)) ss m)"

fun place :: "u32 \<Rightarrow> byte list list \<Rightarrow> rodata" where
  "place p [] s = p"
| "place p (t # ts) s = (if s = t then p else place (p + of_nat (length t + 1)) ts s)"

definition image_size :: "byte list list \<Rightarrow> nat" where
  "image_size ss = sum_list (map (\<lambda>s. length s + 1) ss)"

lemma image_size_simps [simp]:
  "image_size [] = 0" "image_size (s # ss) = length s + 1 + image_size ss"
  by (simp_all add: image_size_def)

lemma unat_next: "unat p + n < 2 ^ 31 \<Longrightarrow> unat (p + of_nat n :: u32) = unat p + n"
  by (simp add: unat_plus_if' unat_of_nat32)

lemma place_bounds:
  "unat p + image_size ss < 2 ^ 31 \<Longrightarrow> s \<in> set ss \<Longrightarrow>
   unat p \<le> unat (place p ss s) \<and> unat (place p ss s) + length s < unat p + image_size ss"
proof (induction ss arbitrary: p)
  case (Cons t ts)
  show ?case
  proof (cases "s = t")
    case False
    have "unat (p + of_nat (length t + 1)) = unat p + (length t + 1)"
      using Cons.prems(1) by (intro unat_next) simp
    with Cons.IH [of "p + of_nat (length t + 1)"] Cons.prems False show ?thesis by simp
  qed simp
qed simp

lemma lay_out_bytes:
  "unat p + image_size ss < 2 ^ 31 \<Longrightarrow> s \<in> set ss \<Longrightarrow>
   bytes (lay_out p ss m) (place p ss s) (length (s @ [0])) = s @ [0]"
proof (induction ss arbitrary: p)
  case (Cons t ts)
  let ?q = "p + of_nat (length t + 1)"
  show ?case
  proof (cases "s = t")
    case True
    then show ?thesis using bytes_write_bytes [of "s @ [0]" p] Cons.prems by simp
  next
    case False
    have q: "unat ?q = unat p + (length t + 1)" using Cons.prems(1) by (intro unat_next) simp
    with Cons.prems False have at: "unat ?q + image_size ts < 2 ^ 31" "s \<in> set ts" by simp_all
    note b = place_bounds [OF this]
    have "length (t @ [0]) \<le> unat (place ?q ts s + of_nat i - p)" if "i < length (s @ [0])" for i
    proof -
      have "unat (place ?q ts s + of_nat i) = unat (place ?q ts s) + i"
        using b at that by (intro unat_next) simp
      moreover from this have "unat (place ?q ts s + of_nat i - p) = unat (place ?q ts s) + i - unat p"
        using b q by (simp add: unat_sub_if')
      moreover have "unat p + length (t @ [0]) \<le> unat (place ?q ts s) + i" using b q by simp
      ultimately show ?thesis by linarith
    qed
    then have "bytes (write_bytes p (t @ [0]) (lay_out ?q ts m)) (place ?q ts s) (length (s @ [0]))
        = bytes (lay_out ?q ts m) (place ?q ts s) (length (s @ [0]))"
      by (intro bytes_cong) (auto intro: write_bytes_other)
    then show ?thesis using Cons.IH [OF at] False by simp
  qed
qed simp

lemma literals_lay_out:
  assumes "mem st = lay_out p ss m" and "unat p + image_size ss < 2 ^ 31" and "\<forall>s \<in> set ss. 0 \<notin> set s"
  shows "literals_at (place p ss) ss st"
  unfolding literals_at_def
proof
  fix s assume s: "s \<in> set ss"
  have "unat (place p ss s) + length s < 2 ^ 31" using place_bounds [OF assms(2) s] assms(2) by simp
  with lay_out_bytes [OF assms(2) s, of m] s assms(1,3) show "literal st (place p ss s) s"
    by (intro literal_low) auto
qed

text \<open>Nothing is laid out in the heap.\<close>

lemma lay_out_high:
  assumes "unat p + image_size ss < 2 ^ 31" and "in_heap x"
  shows "lay_out p ss m x = m x"
  using assms(1)
proof (induction ss arbitrary: p)
  case (Cons s ss)
  have q: "unat (p + of_nat (length s + 1)) = unat p + (length s + 1)"
    using Cons.prems by (intro unat_next) simp
  have "2 ^ 31 \<le> unat x" using assms(2) by (simp add: in_heap_def HEAP_START_def word_le_nat_alt)
  then have "length (s @ [0]) \<le> unat (x - p)" using Cons.prems by (simp add: unat_sub_if')
  with Cons.IH [of "p + of_nat (length s + 1)"] Cons.prems q show ?case by (simp add: write_bytes_other)
qed simp

section \<open>Printing\<close>

definition print_if :: "bool \<Rightarrow> u32 \<Rightarrow> u32 \<Rightarrow> u32 list \<Rightarrow> machine \<Rightarrow> machine option" where
  "print_if c stack fmt va st = (if c then map_option snd (printf stack fmt va st) else Some st)"

definition say :: "u32 \<Rightarrow> rodata \<Rightarrow> byte list \<Rightarrow> u32 list \<Rightarrow> machine \<Rightarrow> machine option" where
  "say stack at fmt va st = map_option snd (printf stack (at fmt) va st)"

text \<open>The console after more text.\<close>

definition said :: "byte list \<Rightarrow> machine \<Rightarrow> machine" where
  "said t st = st\<lparr>uart_out := uart_out st @ t\<rparr>"

lemma said_simps [simp]:
  "mem (said t st) = mem st" "uart_in (said t st) = uart_in st"
  "uart_out (said t st) = uart_out st @ t" "heap_end (said t st) = heap_end st"
  "mem_head (said t st) = mem_head st" "str2int_output (said t st) = str2int_output st"
  by (simp_all add: said_def)

lemma said_said [simp]: "said t (said s st) = said (s @ t) st" "said [] st = st"
  by (simp_all add: said_def)

lemma literals_at_said [simp]: "literals_at at ss (said t st) = literals_at at ss st"
  by (simp add: literals_at_def literal_def)

lemma print_exact:
  assumes "literal st p s" and "render s args = Some t" and "length t < 2 ^ 32 - 1" and "0 \<notin> set t"
    and "\<forall>a \<in> set args. arg_ok (\<lambda>_. True) (mem st) a" and "stack \<noteq> 0"
  shows "print_if c stack p (map arg_word args) st = Some (if c then said t st else st)"
proof -
  have "cstr (mem st) p s" using assms(1) by (simp add: literal_def)
  moreover have "filter (\<lambda>c. c \<noteq> 0) t = t" using assms(4) by (auto intro: filter_True)
  ultimately show ?thesis using vsnprintf_core_char [OF assms(2,3) _ assms(5,6)]
    by (simp add: print_if_def printf_def said_def)
qed

lemma say_exact:
  assumes "literals_at at ss st" and "s \<in> set ss" and "render s args = Some t"
    and "length t < 2 ^ 32 - 1" and "0 \<notin> set t"
    and "\<forall>a \<in> set args. arg_ok (\<lambda>_. True) (mem st) a" and "stack \<noteq> 0"
  shows "say stack at s (map arg_word args) st = Some (said t st)"
  using print_exact [of st "at s" s args t stack True] assms
  by (simp add: say_def print_if_def literals_at_def)

lemma render_append: "c_percent \<notin> set s \<Longrightarrow> render (s @ cs) args = map_option (append s) (render cs args)"
  by (induction s; cases "render cs args") auto

lemma render_s_inside:
  assumes "c_percent \<notin> set s" and "c_percent \<notin> set t"
  shows "render (s @ c_percent # c_s # t) [Text p u] = Some (s @ u @ t)"
  unfolding render_append [OF assms(1)] using render_plain [OF assms(2), of "[]"] by (simp add: directive_s)

lemma directive_d: "directive (c_d # cs) (Num v # args) = Some (int_text c_d 0 0 0 v, cs, args)"
  by (simp add: directive_def scan_def flag_of_def r_width_def r_precision_def r_length_def starts_def
      is_digit_def conv_text_def int_specifier_def int_flags_def int_base_def has_def flag_bits)

text \<open>A directive inside a longer format, with the arguments behind it.\<close>

lemma render_s_next:
  "c_percent \<notin> set s \<Longrightarrow> render (s @ c_percent # c_s # cs) (Text p u # args) = map_option (\<lambda>t. s @ u @ t) (render cs args)"
  by (cases "render cs args") (simp_all add: render_append directive_s)

lemma render_d_next:
  "c_percent \<notin> set s \<Longrightarrow>
   render (s @ c_percent # c_d # cs) (Num v # args) = map_option (\<lambda>t. s @ int_text c_d 0 0 0 v @ t) (render cs args)"
  by (cases "render cs args") (simp_all add: render_append directive_d)

text \<open>A literal without directives prints itself.\<close>

lemma say_plain:
  assumes "literals_at at ss st" and "s \<in> set ss" and "c_percent \<notin> set s" and "stack \<noteq> 0"
    and "length s < 2 ^ 31"
  shows "say stack at s [] st = Some (said s st)"
proof -
  have "literal st (at s) s" using assms(1,2) by (simp add: literals_at_def)
  then have "0 \<notin> set s" by (simp add: literal_def cstr_iff)
  with say_exact [OF assms(1,2) render_plain [OF assms(3)], of "[]"] assms(4,5) show ?thesis by simp
qed

lemma heap_owns_other [simp]:
  "heap_owns (st\<lparr>uart_out := u\<rparr>) L = heap_owns st L"
  "heap_owns (st\<lparr>str2int_output := v\<rparr>) L = heap_owns st L"
  "heap_owns (said t st) L = heap_owns st L"
  by (simp_all add: heap_owns_def heap_inv_def said_def)

end
