(* ===== verification/Fib.thy ===== *)
theory Fib
  imports Console
begin

text \<open>
  The program \<open>c_test/fib.c\<close>: the three Fibonacci functions over 32-bit \<open>int\<close> and the prompt
  loop \<open>get_input\<close>. The addresses of the string literals are the fields of a record.
\<close>

section \<open>The three functions\<close>

function cursed_fib :: "u32 \<Rightarrow> u32" where
  "cursed_fib n = (if sint n < 1 then 0 else if sint n < 2 then 1
     else cursed_fib (n - 1) + cursed_fib (n - 2))"
  by pat_completeness auto

function fib :: "u32 \<Rightarrow> u32" where
  "fib n = (if n = 0 then 0 else if n = 1 then 1 else fib (n - 1) + fib (n - 2))"
  by pat_completeness auto

text \<open>\<open>for (int i = 2; i <= n; i++) { int c = a + b; a = b; b = c; }\<close>\<close>

partial_function (option) fast_loop :: "u32 \<Rightarrow> u32 \<Rightarrow> u32 \<Rightarrow> u32 \<Rightarrow> u32 option" where
  "fast_loop n i a b = (if sint i \<le> sint n then fast_loop n (i + 1) b (a + b) else Some b)"

definition fast_fib :: "u32 \<Rightarrow> u32 option" where
  "fast_fib n = (if n = 0 then Some 0 else fast_loop n 2 0 1)"

lemma sint_sub_small:
  assumes "k \<le> sint (n :: u32)" and "0 \<le> k" and "k < 2 ^ 31"
  shows "sint (n - word_of_int k) = sint n - k"
proof -
  have "sint n < 2 ^ 31" using sint_lt [of n] by simp
  then have "sint (word_of_int (sint n - k) :: u32) = sint n - k"
    using assms by (intro sint_of_int32) simp_all
  moreover have "n - word_of_int k = word_of_int (sint n - k)" by simp
  ultimately show ?thesis by (simp only:)
qed

termination cursed_fib
  using sint_sub_small [of 1] sint_sub_small [of 2]
  by (relation "measure (\<lambda>n. nat (sint n))") auto

termination fib
proof (relation "measure unat")
  fix n :: u32
  assume n: "n \<noteq> 0" "n \<noteq> 1"
  have "unat n \<noteq> 0" "unat n \<noteq> 1" using n by (simp_all add: word_unat_eq_iff)
  then have "2 \<le> unat n" by simp
  then show "(n - 1, n) \<in> measure unat" "(n - 2, n) \<in> measure unat"
    by (auto simp: unat_sub_if')
qed simp

declare cursed_fib.simps [simp del] fib.simps [simp del]

section \<open>The Fibonacci numbers\<close>

fun Fib_nat :: "nat \<Rightarrow> nat" where
  "Fib_nat 0 = 0"
| "Fib_nat (Suc 0) = 1"
| "Fib_nat (Suc (Suc n)) = Fib_nat (Suc n) + Fib_nat n"

lemma of_nat_Suc_Suc: "(of_nat (Suc (Suc k)) :: u32) - 1 = of_nat (Suc k)"
  "(of_nat (Suc (Suc k)) :: u32) - 2 = of_nat k"
  by simp_all

lemma sint_of_nat32: "k < 2 ^ 31 \<Longrightarrow> sint (of_nat k :: u32) = int k"
  using sint_of_int32 [of "int k"] by simp

lemma cursed_fib_nat: "k < 2 ^ 31 \<Longrightarrow> cursed_fib (of_nat k) = of_nat (Fib_nat k)"
proof (induction k rule: Fib_nat.induct)
  case (3 k)
  have s: "sint (of_nat (Suc (Suc k)) :: u32) = int (Suc (Suc k))"
    using sint_of_nat32 [OF "3.prems"] .
  have "cursed_fib (of_nat (Suc (Suc k))) = cursed_fib (of_nat (Suc k)) + cursed_fib (of_nat k)"
    by (subst cursed_fib.simps) (simp only: s of_nat_Suc_Suc, simp)
  with 3 show ?case by simp
qed (subst cursed_fib.simps, simp)+

lemma word_ge_2: "2 \<le> unat (w :: u32) \<Longrightarrow> w \<noteq> 0 \<and> w \<noteq> 1"
  by auto

lemma fib_nat: "k < 2 ^ 31 \<Longrightarrow> fib (of_nat k) = of_nat (Fib_nat k)"
proof (induction k rule: Fib_nat.induct)
  case (3 k)
  have u: "unat (of_nat (Suc (Suc k)) :: u32) = Suc (Suc k)"
    using "3.prems" by (intro unat_of_nat32) simp
  then have "(of_nat (Suc (Suc k)) :: u32) \<noteq> 0" "(of_nat (Suc (Suc k)) :: u32) \<noteq> 1"
    using word_ge_2 [of "of_nat (Suc (Suc k))"] by simp_all
  then have "fib (of_nat (Suc (Suc k))) = fib (of_nat (Suc k)) + fib (of_nat k)"
    by (subst fib.simps) (simp only: of_nat_Suc_Suc if_False)
  with 3 show ?case by simp
qed (subst fib.simps, simp)+

text \<open>The loop invariant: before round \<open>i\<close>, \<open>a\<close> and \<open>b\<close> are the numbers \<open>i - 2\<close> and \<open>i - 1\<close>.\<close>

lemma fast_loop_nat:
  "i \<le> Suc k \<Longrightarrow> Suc (Suc k) < 2 ^ 31 \<Longrightarrow>
   fast_loop (of_nat k) (of_nat (Suc i)) (of_nat (Fib_nat (i - 1))) (of_nat (Fib_nat i))
     = Some (of_nat (Fib_nat (max i k)))" if "0 < i" for i
  using that
proof (induction "k - i" arbitrary: i)
  case 0
  have "\<not> sint (of_nat (Suc i) :: u32) \<le> sint (of_nat k :: u32)"
    using 0 sint_of_nat32 [of "Suc i"] sint_of_nat32 [of k] by auto
  then show ?case using 0 by (subst fast_loop.simps) (simp add: max_def)
next
  case (Suc d)
  then have i: "Suc i \<le> k" by simp
  then have le: "sint (of_nat (Suc i) :: u32) \<le> sint (of_nat k :: u32)"
    using Suc.prems sint_of_nat32 [of "Suc i"] sint_of_nat32 [of k] by simp
  obtain j where j: "i = Suc j" using Suc.prems by (cases i) auto
  have "fast_loop (of_nat k) (of_nat (Suc (Suc i))) (of_nat (Fib_nat (Suc i - 1))) (of_nat (Fib_nat (Suc i)))
      = Some (of_nat (Fib_nat (max (Suc i) k)))"
    using Suc i by (intro Suc.hyps) simp_all
  moreover have "(of_nat (Suc i) :: u32) + 1 = of_nat (Suc (Suc i))" by simp
  moreover have "(of_nat (Fib_nat (i - 1)) :: u32) + of_nat (Fib_nat i) = of_nat (Fib_nat (Suc i))"
    by (simp add: j add.commute)
  ultimately show ?case using le i
    by (subst fast_loop.simps) (simp only: if_True, simp add: max_def)
qed

lemma fast_fib_nat: "Suc (Suc k) < 2 ^ 31 \<Longrightarrow> fast_fib (of_nat k) = Some (of_nat (Fib_nat k))"
proof (cases "k = 0")
  case False
  assume k: "Suc (Suc k) < 2 ^ 31"
  then have "(of_nat k :: u32) \<noteq> 0" using False unat_of_nat32 [of k] by auto
  moreover have "max 1 k = k" using False by simp
  ultimately show ?thesis using fast_loop_nat [of 1 k] k by (simp add: fast_fib_def)
qed (simp add: fast_fib_def)

lemma Fib_nat_mono: "m \<le> n \<Longrightarrow> Fib_nat m \<le> Fib_nat n"
proof (rule lift_Suc_mono_le [of Fib_nat])
  show "Fib_nat n \<le> Fib_nat (Suc n)" for n by (induction n rule: Fib_nat.induct) auto
qed

text \<open>A linear computation, to evaluate the largest number the program asks for.\<close>

fun fib_iter :: "nat \<Rightarrow> int \<Rightarrow> int \<Rightarrow> int" where
  "fib_iter 0 a b = a"
| "fib_iter (Suc n) a b = fib_iter n b (a + b)"

lemma fib_iter_Fib: "fib_iter n (int (Fib_nat k)) (int (Fib_nat (Suc k))) = int (Fib_nat (n + k))"
proof (induction n arbitrary: k)
  case (Suc n)
  have "fib_iter (Suc n) (int (Fib_nat k)) (int (Fib_nat (Suc k)))
      = fib_iter n (int (Fib_nat (Suc k))) (int (Fib_nat (Suc (Suc k))))"
    by (simp add: add.commute)
  also have "\<dots> = int (Fib_nat (n + Suc k))" by (rule Suc.IH)
  finally show ?case by (simp only: add_Suc add_Suc_right)
qed simp

lemma fib_iter_numeral: "fib_iter (numeral n) a b = fib_iter (pred_numeral n) b (a + b)"
  by (simp add: numeral_eq_Suc)

lemma Fib_nat_45: "int (Fib_nat 45) = 1134903170"
proof -
  have "fib_iter 45 0 1 = 1134903170" by (simp add: fib_iter_numeral)
  then show ?thesis using fib_iter_Fib [of 45 0] by simp
qed

section \<open>The prompt\<close>

record literals =
  l_enter :: u32
  l_input :: u32
  l_not_a_number :: u32
  l_must :: u32
  l_negative :: u32
  l_large :: u32
  l_empty :: u32
  l_stack :: u32

definition MAX_INPUT :: u32 where "MAX_INPUT = 45"

text \<open>
  One round of the loop; \<open>input = *res\<close> with \<open>res\<close> NULL is undefined. \<open>Inl\<close> asks for another
  round.
\<close>

definition get_input_round :: "literals \<Rightarrow> machine \<Rightarrow> ((unit + u32) \<times> machine) option" where
  "get_input_round l st = do {
     st \<leftarrow> print_if True (l_stack l) (l_enter l) [] st;
     (buffer, st) \<leftarrow> get_string (l_empty l) st;
     st \<leftarrow> print_if True (l_stack l) (l_input l) [buffer] st;
     (res, st) \<leftarrow> str2int (l_stack l) (l_not_a_number l) buffer 10 st;
     let st = free buffer st;
     st \<leftarrow> print_if (res = NullPtr) (l_stack l) (l_must l) [] st;
     input \<leftarrow> (case res of NullPtr \<Rightarrow> None | OutputPtr \<Rightarrow> Some (str2int_output st));
     st \<leftarrow> print_if (sint input < 0) (l_stack l) (l_negative l) [] st;
     st \<leftarrow> print_if (sint input > sint MAX_INPUT) (l_stack l) (l_large l) [MAX_INPUT] st;
     Some (if sint input > sint MAX_INPUT \<or> sint input < 0 then Inl () else Inr input, st)
   }"

partial_function (option) get_input :: "literals \<Rightarrow> machine \<Rightarrow> (u32 \<times> machine) option" where
  "get_input l st = do {
     (r, st) \<leftarrow> get_input_round l st;
     (case r of Inl _ \<Rightarrow> get_input l st | Inr input \<Rightarrow> Some (input, st))
   }"

text \<open>The messages, as they stand in the program image, outside the heap.\<close>

definition msg_enter :: "byte list" where
  "msg_enter = [69, 110, 116, 101, 114, 32, 97, 32, 110, 117, 109, 98, 101, 114, 58, 32]"
definition msg_input :: "byte list" where
  "msg_input = [73, 110, 112, 117, 116, 58, 32, c_percent, c_s, c_newline]"
definition msg_must :: "byte list" where
  "msg_must = [73, 110, 112, 117, 116, 32, 109, 117, 115, 116, 32, 98, 101, 32, 97, 32, 110, 117,
     109, 98, 101, 114, 33, c_newline]"
definition msg_negative :: "byte list" where
  "msg_negative = [78, 101, 103, 97, 116, 105, 118, 101, 32, 110, 117, 109, 98, 101, 114, 115, 32,
     97, 114, 101, 32, 110, 111, 116, 32, 97, 108, 108, 111, 119, 101, 100, 33, c_newline]"
definition msg_large :: "byte list" where
  "msg_large = [73, 110, 112, 117, 116, 32, 116, 111, 111, 32, 108, 97, 114, 103, 101, 44, 32, 80,
     108, 101, 97, 115, 101, 32, 112, 114, 111, 118, 105, 100, 101, 32, 97, 32, 110, 117, 109, 98,
     101, 114, 32, 115, 109, 97, 108, 108, 101, 114, 32, 116, 104, 97, 110, 32, c_percent, c_d, 33,
     c_newline]"

definition literals_ok :: "literals \<Rightarrow> machine \<Rightarrow> bool" where
  "literals_ok l st \<longleftrightarrow> literal st (l_enter l) msg_enter \<and> literal st (l_input l) msg_input
     \<and> literal st (l_not_a_number l) msg_not_a_number \<and> literal st (l_must l) msg_must
     \<and> literal st (l_negative l) msg_negative \<and> literal st (l_large l) msg_large
     \<and> literal st (l_empty l) [] \<and> l_stack l \<noteq> 0"

lemma literals_ok_cong:
  assumes "literals_ok l st" and "\<And>x. \<not> in_heap x \<Longrightarrow> mem st' x = mem st x"
  shows "literals_ok l st'"
  using assms literal_cong [of st _ _ st'] by (auto simp: literals_ok_def)

lemma render_messages:
  "render msg_enter [] = Some msg_enter" "render msg_must [] = Some msg_must"
  "render msg_negative [] = Some msg_negative"
  "render msg_input [Text p s] = Some (take 7 msg_input @ s @ [c_newline])"
  "render msg_large [Num 45] = Some (take 54 msg_large @ [52, 53] @ drop 56 msg_large)"
proof -
  show "render msg_enter [] = Some msg_enter" "render msg_must [] = Some msg_must"
    "render msg_negative [] = Some msg_negative"
    by (rule render_plain, simp add: msg_enter_def msg_must_def msg_negative_def)+
  have "msg_input = take 7 msg_input @ [c_percent, c_s, c_newline]" by (simp add: msg_input_def)
  moreover have "c_percent \<notin> set (take 7 msg_input)" by (simp add: msg_input_def)
  ultimately show "render msg_input [Text p s] = Some (take 7 msg_input @ s @ [c_newline])"
    using render_append [of "take 7 msg_input" "[c_percent, c_s, c_newline]" "[Text p s]"]
    by (simp add: directive_s)
  show "render msg_large [Num 45] = Some (take 54 msg_large @ [52, 53] @ drop 56 msg_large)"
    by code_simp
qed

definition line_value :: "byte list \<Rightarrow> u32" where
  "line_value line = (if c_minus \<in> set line then - digits_value 10 0 line else digits_value 10 0 line)"

lemma free_outside:
  "heap_owns st L \<Longrightarrow> (p, n) \<in> set L \<Longrightarrow> \<not> in_heap x \<Longrightarrow> mem (free p st) x = mem st x"
  by (rule free_arena)

definition large_text :: "byte list" where
  "large_text = take 54 msg_large @ [52, 53] @ drop 56 msg_large"

text \<open>What one round prints for a line that is a number.\<close>

definition round_text :: "byte list \<Rightarrow> byte list" where
  "round_text line = msg_enter @ take 7 msg_input @ line @ [c_newline]
     @ (if sint (line_value line) < 0 then msg_negative else [])
     @ (if 45 < sint (line_value line) then large_text else [])"

lemma print_literals:
  assumes "literals_ok l st"
  shows "print_if c (l_stack l) (l_enter l) [] st = Some (if c then said msg_enter st else st)"
    and "print_if c (l_stack l) (l_negative l) [] st = Some (if c then said msg_negative st else st)"
    and "print_if c (l_stack l) (l_large l) [45] st = Some (if c then said large_text st else st)"
    and "cstr (mem st) b s \<Longrightarrow> length s < 2 ^ 31 \<Longrightarrow> print_if c (l_stack l) (l_input l) [b] st
      = Some (if c then said (take 7 msg_input @ s @ [c_newline]) st else st)"
proof -
  note lits = assms [unfolded literals_ok_def]
  have "length msg_enter < 2 ^ 32 - 1" "length msg_negative < 2 ^ 32 - 1" "length large_text < 2 ^ 32 - 1"
    "0 \<notin> set msg_enter" "0 \<notin> set msg_negative" "0 \<notin> set large_text"
    by (simp_all add: msg_enter_def msg_negative_def msg_large_def large_text_def)
  then show "print_if c (l_stack l) (l_enter l) [] st = Some (if c then said msg_enter st else st)"
    "print_if c (l_stack l) (l_negative l) [] st = Some (if c then said msg_negative st else st)"
    "print_if c (l_stack l) (l_large l) [45] st = Some (if c then said large_text st else st)"
    using print_exact [of st "l_enter l" msg_enter "[]" msg_enter "l_stack l" c]
      print_exact [of st "l_negative l" msg_negative "[]" msg_negative "l_stack l" c]
      print_exact [of st "l_large l" msg_large "[Num 45]" large_text "l_stack l" c] lits
    by (simp_all add: render_messages large_text_def arg_ok_def)
  assume s: "cstr (mem st) b s" "length s < 2 ^ 31"
  then have "0 \<notin> set (take 7 msg_input @ s @ [c_newline])"
    using cstr_iff [of "mem st" b s] by (auto simp: msg_input_def)
  then show "print_if c (l_stack l) (l_input l) [b] st
      = Some (if c then said (take 7 msg_input @ s @ [c_newline]) st else st)"
    using print_exact [of st "l_input l" msg_input "[Text b s]" "take 7 msg_input @ s @ [c_newline]"
        "l_stack l" c] lits s
    by (simp add: render_messages arg_ok_def kept_str_def)
qed

text \<open>
  The start of a round, whatever the line is: the prompt, the line read into a heap buffer and
  its echo.
\<close>

lemma round_start:
  assumes lits: "literals_ok l st" and own: "heap_owns st L" and inp: "uart_in st = line @ c_newline # rest"
    and nl: "c_newline \<notin> set line" and nz: "0 \<notin> set line"
    and room: "heap_used L + 100 + 40 * length line < HEAP_SIZE"
  obtains buffer cap L2 st2 where
    "print_if True (l_stack l) (l_enter l) [] st = Some (said msg_enter st)"
    "get_string (l_empty l) (said msg_enter st) = Some (buffer, st2)"
    "print_if True (l_stack l) (l_input l) [buffer] st2
      = Some (said (take 7 msg_input @ line @ [c_newline]) st2)"
    "literals_ok l st2" "heap_owns st2 L2" "(buffer, cap) \<in> set L2" "cstr (mem st2) buffer line"
    "uart_in st2 = rest" "uart_out st2 = uart_out st @ msg_enter"
    "heap_used L2 \<le> heap_used L + 100 + 40 * length line"
    "\<And>x. \<not> in_heap x \<Longrightarrow> mem st2 x = mem st x"
proof -
  let ?st1 = "said msg_enter st"
  have "heap_owns ?st1 L" "mem ?st1 (l_empty l) = 0" "uart_in ?st1 = line @ c_newline # rest"
    using own lits inp by (auto simp: literals_ok_def literal_def)
  from get_string_line [OF this nl room] obtain buffer cap L2 st2 where
    g: "get_string (l_empty l) ?st1 = Some (buffer, st2)" "heap_owns st2 L2" "(buffer, cap) \<in> set L2"
      "bytes (mem st2) buffer (length (line @ [0])) = line @ [0]" "uart_in st2 = rest"
      "uart_out st2 = uart_out ?st1" "heap_used L2 \<le> heap_used L + 100 + 40 * length line"
      "\<forall>x. \<not> in_heap x \<longrightarrow> mem st2 x = mem ?st1 x" by blast
  have out: "mem st2 x = mem st x" if "\<not> in_heap x" for x using g(8) that by simp
  have lits2: "literals_ok l st2" using literals_ok_cong [OF lits out] .
  have line: "cstr (mem st2) buffer line" using cstr_of_bytes [OF g(4) nz] .
  have "length line < 2 ^ 31" using room by (simp add: HEAP_SIZE_def)
  with that [OF _ g(1) _ lits2 g(2,3) line g(5) _ g(7)] out g(6) print_literals(1) [OF lits, of True]
    print_literals(4) [OF lits2 line, of True] show ?thesis by simp
qed

lemma get_input_round_number:
  assumes lits: "literals_ok l st" and own: "heap_owns st L" and inp: "uart_in st = line @ c_newline # rest"
    and num: "\<forall>c \<in> set line. numeric c" and room: "heap_used L + 100 + 40 * length line < HEAP_SIZE"
  defines "v \<equiv> line_value line"
  shows "\<exists>st' L'. get_input_round l st
      = Some (if sint v > 45 \<or> sint v < 0 then Inl () else Inr v, st')
    \<and> heap_owns st' L' \<and> literals_ok l st' \<and> uart_in st' = rest
    \<and> heap_used L' \<le> heap_used L + 100 + 40 * length line
    \<and> uart_out st' = uart_out st @ round_text line
    \<and> (\<forall>x. \<not> in_heap x \<longrightarrow> mem st' x = mem st x)"
proof -
  have nz: "0 \<notin> set line" "c_newline \<notin> set line" using num by (auto simp: numeric_def is_digit_def)
  from round_start [OF lits own inp nz(2,1) room] obtain buffer cap L2 st2 where
    g: "print_if True (l_stack l) (l_enter l) [] st = Some (said msg_enter st)"
      "get_string (l_empty l) (said msg_enter st) = Some (buffer, st2)"
      "print_if True (l_stack l) (l_input l) [buffer] st2
        = Some (said (take 7 msg_input @ line @ [c_newline]) st2)"
      "literals_ok l st2" "heap_owns st2 L2" "(buffer, cap) \<in> set L2" "cstr (mem st2) buffer line"
      "uart_in st2 = rest" "uart_out st2 = uart_out st @ msg_enter"
      "heap_used L2 \<le> heap_used L + 100 + 40 * length line"
      "\<And>x. \<not> in_heap x \<Longrightarrow> mem st2 x = mem st x" by metis
  let ?echo = "said (take 7 msg_input @ line @ [c_newline]) st2"
  let ?set = "?echo\<lparr>str2int_output := v\<rparr>"
  have s: "str2int (l_stack l) (l_not_a_number l) buffer 10 ?echo = Some (OutputPtr, ?set)"
    using str2int_loop_good [OF g(7) num, of 10 False 0]
    by (simp add: str2int_def v_def line_value_def)
  define st3 where "st3 = free buffer ?set"
  have own2: "heap_owns ?set L2" using g(5) by simp
  have own3: "heap_owns st3 L2" unfolding st3_def using heap.release_ok [OF own2 g(6)] by blast
  have out3: "mem st3 x = mem ?set x" if "\<not> in_heap x" for x
    unfolding st3_def by (rule free_arena [OF own2 g(6) that])
  have out: "mem st3 x = mem st x" if "\<not> in_heap x" for x using out3 [OF that] g(11) [OF that] by simp
  have lits3: "literals_ok l st3" using literals_ok_cong [OF lits out] .
  have v3: "str2int_output st3 = v" "uart_in st3 = rest" "uart_out st3 = uart_out ?echo"
    using g(8) by (simp_all add: st3_def free_io free_def set_free_def)
  let ?st4 = "if sint v < 0 then said msg_negative st3 else st3"
  have lits4: "literals_ok l ?st4" using literals_ok_cong [OF lits3, of ?st4] by simp
  let ?st5 = "if 45 < sint v then said large_text ?st4 else ?st4"
  have "sint MAX_INPUT = 45" "MAX_INPUT = 45" by (simp_all add: MAX_INPUT_def)
  then have "get_input_round l st = Some (if sint v > 45 \<or> sint v < 0 then Inl () else Inr v, ?st5)"
    using g(1-3) s print_literals(2) [OF lits3, of "sint v < 0"] print_literals(3) [OF lits4, of "45 < sint v"] v3(1)
    by (simp add: get_input_round_def st3_def [symmetric] print_if_def [of False])
  moreover have "literals_ok l ?st5" using literals_ok_cong [OF lits4, of ?st5] by simp
  moreover have "uart_out ?st5 = uart_out st @ round_text line"
    using v3(3) g(9) by (simp add: round_text_def v_def)
  moreover have "heap_owns ?st5 L2" "uart_in ?st5 = rest" using own3 v3(2) by simp_all
  moreover have "\<forall>x. \<not> in_heap x \<longrightarrow> mem ?st5 x = mem st x" using out by simp
  ultimately show ?thesis using g(10) by blast
qed

lemma get_input_bad:
  assumes "literals_ok l st" and "heap_owns st L" and "uart_in st = line @ c_newline # rest"
    and "c_newline \<notin> set line" and "0 \<notin> set line" and "\<exists>c \<in> set line. \<not> numeric c"
    and "heap_used L + 100 + 40 * length line < HEAP_SIZE"
  shows "get_input l st = None"
proof -
  from round_start [OF assms(1-5,7)] obtain buffer st2 where
    g: "print_if True (l_stack l) (l_enter l) [] st = Some (said msg_enter st)"
      "get_string (l_empty l) (said msg_enter st) = Some (buffer, st2)"
      "print_if True (l_stack l) (l_input l) [buffer] st2
        = Some (said (take 7 msg_input @ line @ [c_newline]) st2)"
      "cstr (mem st2) buffer line" by metis
  let ?echo = "said (take 7 msg_input @ line @ [c_newline]) st2"
  obtain c s' where d: "dropWhile numeric line = c # s'"
    using assms(6) by (metis dropWhile_eq_Nil_conv neq_Nil_conv)
  have "line = takeWhile numeric line @ c # s'" using takeWhile_dropWhile_id [of numeric line] d by simp
  then have "cstr (mem st2) buffer (takeWhile numeric line @ c # s')" using g(4) by simp
  moreover have "\<forall>c \<in> set (takeWhile numeric line). numeric c" using set_takeWhileD by fast
  moreover have "\<not> numeric c" using hd_dropWhile [of numeric line] d by simp
  ultimately obtain q where "str2int_loop (mem st2) 10 buffer False 0 = Some (Bad q)"
    using str2int_loop_bad by blast
  then have s: "str2int (l_stack l) (l_not_a_number l) buffer 10 ?echo
      = map_option (\<lambda>r. (NullPtr, snd r)) (printf (l_stack l) (l_not_a_number l) [q] ?echo)"
    by (cases "printf (l_stack l) (l_not_a_number l) [q] ?echo") (auto simp: str2int_def)
  have "get_input_round l st = None"
    using g(1-3) s by (cases "printf (l_stack l) (l_not_a_number l) [q] ?echo")
      (simp_all add: get_input_round_def Option.bind_rzero)
  then show ?thesis by (subst get_input.simps) simp
qed

text \<open>The whole prompt loop: lines out of range, then one in range.\<close>

definition session_lines :: "byte list list \<Rightarrow> byte list" where
  "session_lines ls = concat (map (\<lambda>b. b @ [c_newline]) ls)"

definition session_room :: "(u32 \<times> u32) list \<Rightarrow> byte list list \<Rightarrow> bool" where
  "session_room L ls \<longleftrightarrow> heap_used L + sum_list (map (\<lambda>b. 100 + 40 * length b) ls) < HEAP_SIZE"

lemma get_input_rejects:
  assumes "literals_ok l st" and "heap_owns st L" and "uart_in st = session_lines bads @ rest"
    and "\<forall>b \<in> set bads. (\<forall>c \<in> set b. numeric c) \<and> (sint (line_value b) < 0 \<or> 45 < sint (line_value b))"
    and "session_room L (bads @ ls)"
  shows "\<exists>st' L'. get_input l st = get_input l st' \<and> literals_ok l st' \<and> heap_owns st' L' \<and> uart_in st' = rest
    \<and> session_room L' ls \<and> uart_out st' = uart_out st @ concat (map round_text bads)
    \<and> (\<forall>x. \<not> in_heap x \<longrightarrow> mem st' x = mem st x)"
  using assms
proof (induction bads arbitrary: st L)
  case Nil
  then show ?case by (intro exI [of _ st] exI [of _ L]) (simp add: session_lines_def)
next
  case (Cons b bads)
  let ?rest = "session_lines bads @ rest"
  have "uart_in st = b @ c_newline # ?rest" "\<forall>c \<in> set b. numeric c"
    "heap_used L + 100 + 40 * length b < HEAP_SIZE"
    using Cons.prems by (simp_all add: session_lines_def session_room_def)
  from get_input_round_number [OF Cons.prems(1,2) this] Cons.prems(4) obtain st' L' where
    r: "get_input_round l st = Some (Inl (), st')" "heap_owns st' L'" "literals_ok l st'"
      "uart_in st' = ?rest" "heap_used L' \<le> heap_used L + 100 + 40 * length b"
      "uart_out st' = uart_out st @ round_text b" "\<forall>x. \<not> in_heap x \<longrightarrow> mem st' x = mem st x"
    by auto
  have "session_room L' (bads @ ls)" using Cons.prems(5) r(5) by (simp add: session_room_def)
  from Cons.IH [OF r(3,2,4) _ this] Cons.prems(4) obtain st'' L'' where
    "get_input l st' = get_input l st''" "literals_ok l st''" "heap_owns st'' L''" "uart_in st'' = rest"
    "session_room L'' ls" "uart_out st'' = uart_out st' @ concat (map round_text bads)"
    "\<forall>x. \<not> in_heap x \<longrightarrow> mem st'' x = mem st' x" by auto
  with r show ?case by (subst get_input.simps) auto
qed

lemma get_input_lines:
  assumes "literals_ok l st" and "heap_owns st L" and "uart_in st = session_lines (bads @ [line]) @ rest"
    and "\<forall>b \<in> set bads. (\<forall>c \<in> set b. numeric c) \<and> (sint (line_value b) < 0 \<or> 45 < sint (line_value b))"
    and "session_room L (bads @ [line])"
  shows "(\<forall>c \<in> set line. numeric c) \<Longrightarrow> 0 \<le> sint (line_value line) \<Longrightarrow> sint (line_value line) \<le> 45 \<Longrightarrow>
      \<exists>st' L'. get_input l st = Some (line_value line, st') \<and> uart_in st' = rest \<and> heap_owns st' L'
        \<and> uart_out st' = uart_out st @ concat (map round_text (bads @ [line]))
        \<and> (\<forall>x. \<not> in_heap x \<longrightarrow> mem st' x = mem st x)"
    and "\<not> (\<forall>c \<in> set line. numeric c) \<Longrightarrow> c_newline \<notin> set line \<Longrightarrow> 0 \<notin> set line \<Longrightarrow> get_input l st = None"
proof -
  have "uart_in st = session_lines bads @ line @ c_newline # rest" using assms(3) by (simp add: session_lines_def)
  from get_input_rejects [OF assms(1,2) this assms(4,5)] obtain st1 L1 where
    s: "get_input l st = get_input l st1" "literals_ok l st1" "heap_owns st1 L1" "uart_in st1 = line @ c_newline # rest"
      "uart_out st1 = uart_out st @ concat (map round_text bads)" "\<forall>x. \<not> in_heap x \<longrightarrow> mem st1 x = mem st x"
    and room: "heap_used L1 + 100 + 40 * length line < HEAP_SIZE" by (auto simp: session_room_def)
  show "\<exists>st' L'. get_input l st = Some (line_value line, st') \<and> uart_in st' = rest \<and> heap_owns st' L'
      \<and> uart_out st' = uart_out st @ concat (map round_text (bads @ [line]))
      \<and> (\<forall>x. \<not> in_heap x \<longrightarrow> mem st' x = mem st x)"
    if num: "\<forall>c \<in> set line. numeric c" and v: "0 \<le> sint (line_value line)" "sint (line_value line) \<le> 45"
  proof -
    from get_input_round_number [OF s(2-4) num room] v obtain st' L' where
      "get_input_round l st1 = Some (Inr (line_value line), st')" "heap_owns st' L'" "uart_in st' = rest"
      "uart_out st' = uart_out st1 @ round_text line" "\<forall>x. \<not> in_heap x \<longrightarrow> mem st' x = mem st1 x" by auto
    with s show ?thesis unfolding s(1) by (subst get_input.simps) auto
  qed
  show "get_input l st = None"
    if "\<not> (\<forall>c \<in> set line. numeric c)" "c_newline \<notin> set line" "0 \<notin> set line"
    using get_input_bad [OF s(2-4) that(2,3) _ room] that(1) s(1) by simp
qed

section \<open>The program\<close>

text \<open>\<open>main\<close>; \<open>at\<close> places its own literals, \<open>l\<close> those of the functions it calls.\<close>

definition fib_main :: "literals \<Rightarrow> rodata \<Rightarrow> machine \<Rightarrow> (u32 \<times> machine) option" where
  "fib_main l at st = do {
     st \<leftarrow> say (l_stack l) at (textln ''Fibonacci :D'') [] st;
     (input, st) \<leftarrow> get_input l st;
     st \<leftarrow> say (l_stack l) at (textln []) [] st;
     st \<leftarrow> say (l_stack l) at (textln ''Calculating using fast algorithm...'') [] st;
     v \<leftarrow> fast_fib input;
     st \<leftarrow> say (l_stack l) at (textln ''Value: %d'') [v] st;
     st \<leftarrow> say (l_stack l) at (textln ''Finished calculating using fast algorithm'') [] st;
     st \<leftarrow> say (l_stack l) at (textln ''Calculating using cursed algorithm...'') [] st;
     st \<leftarrow> say (l_stack l) at (textln ''Value: %d'') [cursed_fib input] st;
     st \<leftarrow> say (l_stack l) at (textln ''Finished calculating using cursed algorithm'') [] st;
     st \<leftarrow> say (l_stack l) at (textln ''Calculating using recursive algorithm...'') [] st;
     st \<leftarrow> say (l_stack l) at (textln ''Value: %d'') [fib input] st;
     st \<leftarrow> say (l_stack l) at (textln ''Finished calculating using recursive algorithm'') [] st;
     Some (0, st)
   }"

definition fib_plain :: "byte list list" where
  "fib_plain = map textln [''Fibonacci :D'', [], ''Calculating using fast algorithm...'',
     ''Finished calculating using fast algorithm'', ''Calculating using cursed algorithm...'',
     ''Finished calculating using cursed algorithm'', ''Calculating using recursive algorithm...'',
     ''Finished calculating using recursive algorithm'']"

definition fib_texts :: "byte list list" where
  "fib_texts = textln ''Value: %d'' # fib_plain"

text \<open>What the program reports: the same value, once per algorithm.\<close>

definition decimal :: "nat \<Rightarrow> byte list" where
  "decimal n = numeral_text 0 10 n"

definition report_one :: "nat \<Rightarrow> string \<Rightarrow> byte list" where
  "report_one v name = textln (''Calculating using '' @ name @ '' algorithm...'')
     @ ascii ''Value: '' @ decimal v @ [c_newline]
     @ textln (''Finished calculating using '' @ name @ '' algorithm'')"

definition fib_report :: "nat \<Rightarrow> byte list" where
  "fib_report v = concat (map (report_one v) [''fast'', ''cursed'', ''recursive''])"

lemma fib_plain_ok: "\<forall>s \<in> set fib_plain. c_percent \<notin> set s \<and> length s < 2 ^ 31"
  by (simp add: fib_plain_def textln_def ascii_def)

lemma say_plain_fib:
  assumes "literals_at at fib_texts st" and "s \<in> set fib_plain" and "stack \<noteq> 0"
  shows "say stack at s [] st = Some (said s st)"
  using assms fib_plain_ok by (intro say_plain [OF assms(1)]) (auto simp: fib_texts_def)

lemma decimal_nonzero: "0 \<notin> set (decimal n)"
  using numeral_text_digits [of n] by (auto simp: decimal_def is_digit_def)

lemma render_value:
  assumes "0 \<le> sint v"
  shows "render (textln ''Value: %d'') [Num v]
    = Some (ascii ''Value: '' @ decimal (nat (sint v)) @ [c_newline])"
proof -
  have "textln ''Value: %d'' = ascii ''Value: '' @ [c_percent, c_d, c_newline]"
    and "c_percent \<notin> set (ascii ''Value: '')" by (simp_all add: textln_def ascii_def)
  moreover have "int_text c_d 0 0 0 v = decimal (nat (sint v))"
    using int_text_signed [of c_d v] assms by (simp add: decimal_def)
  then have "render [c_percent, c_d, c_newline] [Num v] = Some (decimal (nat (sint v)) @ [c_newline])"
    using directive_d [of "[c_newline]" v "[]"] by simp
  ultimately show ?thesis by (simp add: render_append)
qed

lemma say_value:
  assumes "literals_at at fib_texts st" and "0 \<le> sint v" and "stack \<noteq> 0"
  shows "say stack at (textln ''Value: %d'') [v] st
    = Some (said (ascii ''Value: '' @ decimal (nat (sint v)) @ [c_newline]) st)"
proof -
  have "length (decimal (nat (sint v))) \<le> 10"
    using numeral_text_length [of v] assms(2) by (simp add: decimal_def)
  then have "length (ascii ''Value: '' @ decimal (nat (sint v)) @ [c_newline]) < 2 ^ 32 - 1"
    by (simp add: ascii_def)
  moreover have "0 \<notin> set (ascii ''Value: '' @ decimal (nat (sint v)) @ [c_newline])"
    using decimal_nonzero by (simp add: ascii_def)
  moreover have "textln ''Value: %d'' \<in> set fib_texts" by (simp add: fib_texts_def)
  ultimately show ?thesis
    using say_exact [OF assms(1) _ render_value [OF assms(2)], of stack] assms(3) by (simp add: arg_ok_def)
qed

lemma fib_main_prints:
  assumes lits: "literals_at at fib_texts st" and inp: "get_input l (said (textln ''Fibonacci :D'') st) = Some (v, st1)"
    and mem1: "\<forall>x. \<not> in_heap x \<longrightarrow> mem st1 x = mem st x" and v: "0 \<le> sint v" "sint v \<le> 45"
    and stack: "l_stack l \<noteq> 0"
  shows "fib_main l at st = Some (0, said (c_newline # fib_report (Fib_nat (nat (sint v)))) st1)"
proof -
  let ?F = "Fib_nat (nat (sint v))"
  have "nat (sint v) \<le> 45" using v(2) by simp
  then have "int ?F \<le> 1134903170" using Fib_nat_mono [of "nat (sint v)" 45] Fib_nat_45 by simp
  then have F: "sint (of_nat ?F :: u32) = int ?F" by (intro sint_of_nat32) simp
  have n: "of_nat (nat (sint v)) = v" using v(1) by simp
  have vals: "fib v = of_nat ?F" "cursed_fib v = of_nat ?F" "fast_fib v = Some (of_nat ?F)"
    using fib_nat [of "nat (sint v)"] cursed_fib_nat [of "nat (sint v)"] fast_fib_nat [of "nat (sint v)"] v(2)
    by (simp_all add: n)
  have "literals_at at fib_texts st1" using literals_at_cong [OF lits] mem1 by blast
  then have lits1: "literals_at at fib_texts (said t st1)" for t by simp
  have plain: "say (l_stack l) at s [] (said t st1) = Some (said (t @ s) st1)" if "s \<in> set fib_plain" for s t
    using say_plain_fib [OF lits1 that stack] by simp
  have val: "say (l_stack l) at (textln ''Value: %d'') [of_nat ?F] (said t st1)
      = Some (said (t @ ascii ''Value: '' @ decimal ?F @ [c_newline]) st1)" for t
    using say_value [OF lits1, of "of_nat ?F" "l_stack l" t] F stack by simp
  have mems: "textln ''Calculating using fast algorithm...'' \<in> set fib_plain"
    "textln ''Finished calculating using fast algorithm'' \<in> set fib_plain"
    "textln ''Calculating using cursed algorithm...'' \<in> set fib_plain"
    "textln ''Finished calculating using cursed algorithm'' \<in> set fib_plain"
    "textln ''Calculating using recursive algorithm...'' \<in> set fib_plain"
    "textln ''Finished calculating using recursive algorithm'' \<in> set fib_plain"
    "textln ''Fibonacci :D'' \<in> set fib_plain" "textln [] \<in> set fib_plain"
    by (simp_all only: fib_plain_def list.map list.set insert_iff simp_thms)
  have "say (l_stack l) at (textln []) [] st1 = Some (said (textln []) st1)"
    using plain [OF mems(8), of "[]"] by simp
  moreover have "say (l_stack l) at (textln ''Fibonacci :D'') [] st = Some (said (textln ''Fibonacci :D'') st)"
    using say_plain_fib [OF lits mems(7) stack] .
  ultimately have "fib_main l at st = Some (0, said (textln [] @ fib_report ?F) st1)"
    using inp by (simp add: fib_main_def vals plain [OF mems(1)] plain [OF mems(2)] plain [OF mems(3)]
        plain [OF mems(4)] plain [OF mems(5)] plain [OF mems(6)] val fib_report_def report_one_def)
  then show ?thesis by (simp add: textln_def ascii_def)
qed

section \<open>Properties\<close>

text \<open>
  C40. The three functions compute the same Fibonacci numbers: for every non-negative \<open>n\<close> below
  \<open>2^31 - 2\<close> they agree modulo \<open>2^32\<close>, the loop included, which returns; and for the inputs the
  prompt admits, up to 45, no addition overflows, so the \<open>int\<close> result is the Fibonacci number.
\<close>

theorem fib_functions_agree:
  assumes "0 \<le> sint n" and "sint n < 2 ^ 31 - 2"
  defines "F \<equiv> Fib_nat (nat (sint n))"
  shows "fib n = of_nat F \<and> cursed_fib n = of_nat F \<and> fast_fib n = Some (of_nat F)
    \<and> (sint n \<le> sint MAX_INPUT \<longrightarrow> sint (fib n) = int F)"
proof -
  let ?k = "nat (sint n)"
  have n: "n = of_nat ?k" using assms(1) by simp
  have k: "Suc (Suc ?k) < 2 ^ 31" using assms(2) by simp
  have agree: "fib n = of_nat F" "cursed_fib n = of_nat F" "fast_fib n = Some (of_nat F)"
    using fib_nat [of ?k] cursed_fib_nat [of ?k] fast_fib_nat [of ?k] k n by (simp_all add: F_def)
  have "sint (fib n) = int F" if "sint n \<le> sint MAX_INPUT"
  proof -
    have "?k \<le> 45" using that by (simp add: MAX_INPUT_def)
    then have "int F \<le> 1134903170" using Fib_nat_mono [of ?k 45] Fib_nat_45 by (simp add: F_def)
    then have "F < 2 ^ 31" by simp
    then show ?thesis using sint_of_nat32 agree(1) by simp
  qed
  with agree show ?thesis by blast
qed

theorem fib_functions_agree_witness:
  "fib 10 = 55 \<and> cursed_fib 10 = 55 \<and> fast_fib 10 = Some 55"
proof -
  have "fib_iter 10 0 1 = 55" by (simp add: fib_iter_numeral)
  then have "Fib_nat 10 = 55" using fib_iter_Fib [of 10 0] by simp
  then show ?thesis using fib_functions_agree [of 10] by simp
qed

text \<open>
  \<open>get_input\<close> rejects numbers until one is in range: fed with lines of digits and minus signs
  whose values are below 0 or above 45, then one whose value is between 0 and 45, it terminates
  and returns that value, having consumed exactly those lines, with the heap intact.
\<close>

theorem get_input_spec:
  assumes "literals_ok l st" and "heap_owns st L"
    and "uart_in st = concat (map (\<lambda>b. b @ [c_newline]) (bads @ [good])) @ rest"
    and "\<forall>b \<in> set (good # bads). \<forall>c \<in> set b. numeric c"
    and "\<forall>b \<in> set bads. sint (line_value b) < 0 \<or> 45 < sint (line_value b)"
    and "0 \<le> sint (line_value good)" and "sint (line_value good) \<le> 45"
    and "heap_used L + sum_list (map (\<lambda>b. 100 + 40 * length b) (bads @ [good])) < HEAP_SIZE"
  shows "\<exists>st' L'. get_input l st = Some (line_value good, st') \<and> uart_in st' = rest \<and> heap_owns st' L'"
proof -
  have "uart_in st = session_lines (bads @ [good]) @ rest" "session_room L (bads @ [good])"
    using assms(3,8) by (simp_all add: session_lines_def session_room_def)
  from get_input_lines(1) [OF assms(1,2) this(1) _ this(2)] assms(4-7) show ?thesis by fastforce
qed

text \<open>A program image with the messages, one after the other from address 1000 on.\<close>

definition image :: "machine" where
  "image = (boot (write_bytes 1000 (msg_enter @ [0]) (write_bytes 1100 (msg_input @ [0])
     (write_bytes 1200 (msg_not_a_number @ [0]) (write_bytes 1300 (msg_must @ [0])
     (write_bytes 1400 (msg_negative @ [0]) (write_bytes 1500 (msg_large @ [0]) (\<lambda>_. 0)))))))) "

definition image_literals :: literals where
  "image_literals = \<lparr>l_enter = 1000, l_input = 1100, l_not_a_number = 1200, l_must = 1300,
     l_negative = 1400, l_large = 1500, l_empty = 1600, l_stack = 4\<rparr>"

lemma image_ok: "literals_ok image_literals (image\<lparr>uart_in := u\<rparr>)"
proof -
  have lits: "literal (image\<lparr>uart_in := u\<rparr>) 1000 msg_enter" "literal (image\<lparr>uart_in := u\<rparr>) 1100 msg_input"
    "literal (image\<lparr>uart_in := u\<rparr>) 1200 msg_not_a_number" "literal (image\<lparr>uart_in := u\<rparr>) 1300 msg_must"
    "literal (image\<lparr>uart_in := u\<rparr>) 1400 msg_negative" "literal (image\<lparr>uart_in := u\<rparr>) 1500 msg_large"
    "literal (image\<lparr>uart_in := u\<rparr>) 1600 []"
    by (rule literal_low, simp_all add: image_def msg_enter_def msg_input_def msg_not_a_number_def msg_must_def
        msg_negative_def msg_large_def bytes_def upt_rec write_bytes_def)+
  then show ?thesis by (simp add: literals_ok_def image_literals_def)
qed

theorem get_input_spec_witness:
  "\<exists>st'. get_input image_literals (image\<lparr>uart_in := [57, 57, c_newline, 49, 50, c_newline]\<rparr>) = Some (12, st')
     \<and> uart_in st' = []"
proof -
  let ?st = "image\<lparr>uart_in := [57, 57, c_newline, 49, 50, c_newline]\<rparr>"
  have v: "line_value [57, 57] = 99" "line_value [49, 50] = 12"
    by (simp_all add: line_value_def digits_value_def char2int_def)
  have "heap_owns ?st []" by (simp add: image_def)
  from get_input_spec [OF image_ok this, of "[[57, 57]]" "[49, 50]" "[]"] show ?thesis
    by (simp add: v numeric_def is_digit_def HEAP_SIZE_def) blast
qed

text \<open>
  A line that is no number is not asked for again: \<open>str2int\<close> returns NULL and \<open>get_input\<close>
  reads the number through it before the loop condition looks at \<open>res\<close>.
\<close>

theorem get_input_null_dereference:
  assumes "literals_ok l st" and "heap_owns st L" and "uart_in st = line @ c_newline # rest"
    and "c_newline \<notin> set line" and "0 \<notin> set line" and "\<exists>c \<in> set line. \<not> numeric c"
    and "heap_used L + 100 + 40 * length line < HEAP_SIZE"
  shows "get_input l st = None"
  using assms by (rule get_input_bad)

theorem get_input_null_dereference_witness:
  "get_input image_literals (image\<lparr>uart_in := [120, c_newline]\<rparr>) = None"
proof -
  have "heap_owns (image\<lparr>uart_in := [120, c_newline]\<rparr>) []" by (simp add: image_def)
  from get_input_null_dereference [OF image_ok this, of "[120]" "[]"] show ?thesis
    by (simp add: numeric_def is_digit_def HEAP_SIZE_def)
qed

text \<open>
  C9. The whole program \<open>fib\<close> over every session that ends, for a link that places its string literals
  outside \<open>0x80000000..0x80400000\<close>, which the heap takes for itself, and lines that fit the heap, of which
  no block is ever reused (100 bytes and 40 for each character of each line). After any numbers out of range,
  lines of digits and minus signs, the line that ends the dialogue is either a number from 0 to 45: the
  program runs to its end and returns 0, the console shows the title, the dialogue of every round and the
  Fibonacci number of the input once per algorithm, the same value three times, and no input behind
  that line is consumed; or it is no number and has no NUL: then the program dereferences NULL.
\<close>

theorem fib_main_transcript:
  assumes "literals_ok l st" and "literals_at at fib_texts st" and "heap_owns st L"
    and "uart_in st = session_lines (bads @ [line]) @ rest" and "session_room L (bads @ [line])"
    and "\<forall>b \<in> set bads. (\<forall>c \<in> set b. numeric c) \<and> (sint (line_value b) < 0 \<or> 45 < sint (line_value b))"
    and "c_newline \<notin> set line" and "0 \<notin> set line"
  shows "if \<forall>c \<in> set line. numeric c
    then 0 \<le> sint (line_value line) \<and> sint (line_value line) \<le> 45 \<longrightarrow>
      (\<exists>st'. fib_main l at st = Some (0, st') \<and> uart_in st' = rest
        \<and> uart_out st' = uart_out st @ textln ''Fibonacci :D'' @ concat (map round_text (bads @ [line]))
            @ c_newline # fib_report (Fib_nat (nat (sint (line_value line)))))
    else fib_main l at st = None"
proof -
  let ?st = "said (textln ''Fibonacci :D'') st"
  have ok: "literals_ok l ?st" using literals_ok_cong [OF assms(1), of ?st] by simp
  have own: "heap_owns ?st L" "uart_in ?st = session_lines (bads @ [line]) @ rest" using assms(3,4) by simp_all
  note lines = get_input_lines [OF ok own assms(6,5)]
  have stack: "l_stack l \<noteq> 0" using assms(1) by (simp add: literals_ok_def)
  show ?thesis
  proof (cases "\<forall>c \<in> set line. numeric c")
    case True
    have "\<exists>st'. fib_main l at st = Some (0, st') \<and> uart_in st' = rest
        \<and> uart_out st' = uart_out st @ textln ''Fibonacci :D'' @ concat (map round_text (bads @ [line]))
            @ c_newline # fib_report (Fib_nat (nat (sint (line_value line))))"
      if v: "0 \<le> sint (line_value line)" "sint (line_value line) \<le> 45"
    proof -
      from lines(1) [OF True v] obtain st1 where g: "get_input l ?st = Some (line_value line, st1)" "uart_in st1 = rest"
        "uart_out st1 = uart_out ?st @ concat (map round_text (bads @ [line]))"
        "\<forall>x. \<not> in_heap x \<longrightarrow> mem st1 x = mem ?st x" by blast
      with fib_main_prints [OF assms(2) g(1) _ v stack] show ?thesis by simp
    qed
    with True show ?thesis by simp
  next
    case False
    have "say (l_stack l) at (textln ''Fibonacci :D'') [] st = Some ?st"
      by (rule say_plain_fib [OF assms(2) _ stack]) (simp add: fib_plain_def)
    with lines(2) [OF False assms(7,8)] have "fib_main l at st = None" by (simp add: fib_main_def)
    with False show ?thesis by (simp only: if_False)
  qed
qed

text \<open>A program image with all the literals of \<open>fib\<close>, one after the other from address 1000 on.\<close>

definition fib_image_texts :: "byte list list" where
  "fib_image_texts = fib_texts @ [msg_enter, msg_input, msg_not_a_number, msg_must, msg_negative, msg_large]"

definition fib_at :: rodata where "fib_at = place 1000 fib_image_texts"

definition fib_image :: "byte list \<Rightarrow> machine" where
  "fib_image input = (boot (lay_out 1000 fib_image_texts (\<lambda>_. 0)))\<lparr>uart_in := input\<rparr>"

definition fib_literals :: literals where
  "fib_literals = \<lparr>l_enter = fib_at msg_enter, l_input = fib_at msg_input,
     l_not_a_number = fib_at msg_not_a_number, l_must = fib_at msg_must,
     l_negative = fib_at msg_negative, l_large = fib_at msg_large, l_empty = 4, l_stack = 8\<rparr>"

lemma fib_image_ok:
  "literals_at fib_at fib_image_texts (fib_image input)" "literals_ok fib_literals (fib_image input)"
  "literals_at fib_at fib_texts (fib_image input)"
proof -
  have sz: "unat (1000 :: u32) + image_size fib_image_texts < 2 ^ 31"
    by (simp add: fib_image_texts_def fib_texts_def fib_plain_def textln_def ascii_def msg_enter_def
        msg_input_def msg_not_a_number_def msg_must_def msg_negative_def msg_large_def)
  have nz: "\<forall>s \<in> set fib_image_texts. 0 \<notin> set s"
    by (simp add: fib_image_texts_def fib_texts_def fib_plain_def textln_def ascii_def msg_enter_def
        msg_input_def msg_not_a_number_def msg_must_def msg_negative_def msg_large_def)
  show all: "literals_at fib_at fib_image_texts (fib_image input)"
    unfolding fib_at_def using sz nz by (intro literals_lay_out) (simp_all add: fib_image_def)
  then show "literals_at fib_at fib_texts (fib_image input)"
    by (simp add: literals_at_def fib_image_texts_def)
  have "mem (fib_image input) 4 = 0"
  proof -
    have "lay_out p ss (\<lambda>_. 0) 4 = 0" if "4 < unat p" "unat p + image_size ss < 2 ^ 31" for p ss
      using that
    proof (induction ss arbitrary: p)
      case (Cons s ss)
      have q: "unat (p + of_nat (length s + 1)) = unat p + (length s + 1)"
        using Cons.prems by (intro unat_next) simp
      have "length (s @ [0]) \<le> unat (4 - p)" using Cons.prems by (simp add: unat_sub_if')
      with Cons.IH [of "p + of_nat (length s + 1)"] Cons.prems q show ?case
        by (simp add: write_bytes_other)
    qed simp
    from this [OF _ sz] show ?thesis by (simp add: fib_image_def)
  qed
  then have "literal (fib_image input) 4 []" by (simp add: literal_def in_heap_def HEAP_START_def)
  with all show "literals_ok fib_literals (fib_image input)"
    by (simp add: literals_ok_def fib_literals_def literals_at_def fib_image_texts_def)
qed

theorem fib_main_transcript_witness:
  "(\<exists>st'. fib_main fib_literals fib_at (fib_image [57, 57, c_newline, 49, 48, c_newline]) = Some (0, st')
    \<and> uart_in st' = [] \<and> uart_out st' = textln ''Fibonacci :D'' @ round_text [57, 57] @ round_text [49, 48]
        @ c_newline # fib_report 55)
   \<and> fib_main fib_literals fib_at (fib_image [57, 57, c_newline, 120, c_newline]) = None"
proof
  have v: "line_value [57, 57] = 99" "line_value [49, 48] = 10"
    by (simp_all add: line_value_def digits_value_def char2int_def)
  have "fib_iter 10 0 1 = 55" by (simp add: fib_iter_numeral)
  then have F: "Fib_nat 10 = 55" using fib_iter_Fib [of 10 0] by simp
  let ?st = "fib_image [57, 57, c_newline, 49, 48, c_newline]"
  have "heap_owns ?st []" "uart_out ?st = []" "uart_in ?st = session_lines ([[57, 57]] @ [[49, 48]]) @ []"
    by (simp_all add: fib_image_def session_lines_def)
  with fib_main_transcript [OF fib_image_ok(2) fib_image_ok(3) this(1,3)]
  show "\<exists>st'. fib_main fib_literals fib_at ?st = Some (0, st')
    \<and> uart_in st' = [] \<and> uart_out st' = textln ''Fibonacci :D'' @ round_text [57, 57] @ round_text [49, 48]
        @ c_newline # fib_report 55"
    by (simp add: v F numeric_def is_digit_def session_room_def HEAP_SIZE_def)
  let ?st = "fib_image [57, 57, c_newline, 120, c_newline]"
  have "heap_owns ?st []" "uart_in ?st = session_lines ([[57, 57]] @ [[120]]) @ []"
    by (simp_all add: fib_image_def session_lines_def)
  with fib_main_transcript [OF fib_image_ok(2) fib_image_ok(3) this]
  show "fib_main fib_literals fib_at ?st = None"
    by (simp add: v numeric_def is_digit_def session_room_def HEAP_SIZE_def)
qed

end
