(* ===== verification/Mtest.thy ===== *)
theory Mtest
  imports Console
begin

text \<open>
  The program \<open>c_test/mtest.c\<close>, which exercises the heap and the strings and prints what it built.
  Several of the texts it prints are not terminated by the code: they are C strings because the
  heap is zero behind them. \<open>fresh_heap\<close> is the invariant that says so: the part of the heap behind
  the blocks handed out is still zero.
\<close>

section \<open>The unused part of the heap\<close>

definition fresh_heap :: "machine \<Rightarrow> (u32 \<times> u32) list \<Rightarrow> bool" where
  "fresh_heap st L \<longleftrightarrow> heap_owns st L
     \<and> (\<forall>k. heap_used L \<le> k \<longrightarrow> k < HEAP_SIZE \<longrightarrow> mem st (adr k) = 0)"

lemma fresh_heapD: "fresh_heap st L \<Longrightarrow> heap_owns st L"
  by (simp add: fresh_heap_def)

lemma fresh_heap_said [simp]: "fresh_heap (said t st) L = fresh_heap st L"
  by (simp add: fresh_heap_def)

lemma fresh_heap_step:
  assumes "fresh_heap st L" and "heap_owns st' L'" and "heap_used L \<le> heap_used L'"
    and "\<And>k. heap_used L' \<le> k \<Longrightarrow> k < HEAP_SIZE \<Longrightarrow> mem st' (adr k) = mem st (adr k)"
  shows "fresh_heap st' L'"
  using assms by (auto simp: fresh_heap_def)

text \<open>No block reaches into it.\<close>

lemma unused_outside:
  assumes "heap_owns st L" and "(p, n) \<in> set L" and "heap_used L \<le> k" and "k < HEAP_SIZE"
  shows "\<not> span p n (adr k)"
proof
  assume sp: "span p n (adr k)"
  from assms(1) obtain bs where inv: "heap_inv st bs (heap_used L)" and L: "L = map payload (rev bs)"
    by (rule heap_owns_inv)
  then have ch: "chain 0 bs (heap_used L)" by (simp add: heap_inv_def)
  from assms(2) obtain a j where b: "(a, j) \<in> set bs" "p = adr (a + 13)" "n = of_nat j"
    by (auto simp: L payload_def)
  from chain_bounds [OF ch b(1)] assms(3,4) have le: "a + 16 + j \<le> k" "a + 13 + j < 2 ^ 31"
    by (auto simp: HEAP_SIZE_def)
  with sp b(2,3) obtain i where "i < j" "adr k = adr (a + 13 + i)"
    using payload_span [of "a + 13" j "adr k"] by auto
  then show False using le assms(4) by (simp add: adr_eq_iff HEAP_SIZE_def)
qed

lemma free_unused:
  assumes "heap_owns st L" and "(p, n) \<in> set L" and "heap_used L \<le> k" and "k < HEAP_SIZE"
  shows "mem (free p st) (adr k) = mem st (adr k)"
proof -
  from assms(1) obtain bs where inv: "heap_inv st bs (heap_used L)" and L: "L = map payload (rev bs)"
    by (rule heap_owns_inv)
  then have ch: "chain 0 bs (heap_used L)" by (simp add: heap_inv_def)
  from assms(2) obtain a j where b: "(a, j) \<in> set bs" "p = adr (a + 13)" by (auto simp: L payload_def)
  have "adr k \<noteq> adr (a + 9)"
    using chain_bounds [OF ch b(1)] assms(3,4) by (simp add: adr_eq_iff HEAP_SIZE_def)
  then show ?thesis by (simp add: b(2) free_block)
qed

lemma fresh_free:
  assumes "fresh_heap st L" and "(p, n) \<in> set L"
  shows "fresh_heap (free p st) L"
  using fresh_heapD [OF assms(1)] heap.release_ok [OF _ assms(2), of st] free_unused [OF _ assms(2), of st]
  by (intro fresh_heap_step [OF assms(1)]) auto

text \<open>A new block, and the padding behind it, is zero.\<close>

lemma fresh_malloc:
  assumes "fresh_heap st L" and "heap_room L n"
  defines "p \<equiv> adr (heap_used L + 13)"
  shows "\<exists>st'. malloc n st = Some (p, st') \<and> p \<noteq> 0 \<and> fresh_heap st' ((p, n) # L)
    \<and> (\<forall>i \<le> unat n. mem st' (p + of_nat i) = 0)
    \<and> (\<forall>x. client in_heap L x \<longrightarrow> mem st' x = mem st x) \<and> uart_out st' = uart_out st"
proof -
  let ?e = "heap_used L" and ?st = "bumped (heap_used L) n st"
  note own = fresh_heapD [OF assms(1)]
  have room: "?e + 16 + unat n < HEAP_SIZE" using assms(2) by (simp add: heap_room_def)
  have m: "malloc n st = Some (p, ?st)" using heap_malloc_bumped [OF own assms(2)] by (simp add: p_def)
  with heap.alloc_frame [OF own assms(2)] have a: "p \<noteq> 0" "heap_owns ?st ((p, n) # L)"
    "\<forall>x. client in_heap L x \<longrightarrow> mem ?st x = mem st x" "uart_out ?st = uart_out st" by auto
  have frame: "mem ?st (adr k) = mem st (adr k)" if "?e + 13 \<le> k" "k < HEAP_SIZE" for k
    using that room by (intro bumped_frame) (auto simp: HEAP_SIZE_def)
  have "fresh_heap ?st ((p, n) # L)"
    using frame by (intro fresh_heap_step [OF assms(1) a(2)]) auto
  moreover have "mem ?st (p + of_nat i) = 0" if "i \<le> unat n" for i
  proof -
    have "p + of_nat i = adr (?e + 13 + i)" by (simp add: p_def adr_add)
    then show ?thesis using frame [of "?e + 13 + i"] that room assms(1) by (simp add: fresh_heap_def)
  qed
  ultimately show ?thesis using m a by blast
qed

lemma fresh_calloc:
  assumes "fresh_heap st L" and "heap_room L (nm * sz)"
  defines "p \<equiv> adr (heap_used L + 13)"
  shows "\<exists>st'. calloc nm sz st = Some (p, st') \<and> p \<noteq> 0 \<and> fresh_heap st' ((p, nm * sz) # L)
    \<and> (\<forall>i < unat (nm * sz). mem st' (p + of_nat i) = 0)
    \<and> (\<forall>x. \<not> in_heap x \<longrightarrow> mem st' x = mem st x) \<and> uart_out st' = uart_out st"
proof -
  let ?n = "nm * sz"
  from fresh_malloc [OF assms(1,2)] obtain st1 where m: "malloc ?n st = Some (p, st1)" "p \<noteq> 0"
    "fresh_heap st1 ((p, ?n) # L)" "\<forall>x. client in_heap L x \<longrightarrow> mem st1 x = mem st x" "uart_out st1 = uart_out st"
    unfolding p_def by blast
  note own = fresh_heapD [OF m(3)]
  let ?st2 = "snd (memset p 0 ?n st1)"
  have inside: "mem ?st2 x = 0" if "span p ?n x" for x using that by (simp add: memset_mem)
  have outside: "mem ?st2 x = mem st1 x" if "\<not> span p ?n x" for x using that by (simp add: memset_mem)
  have "fresh_heap ?st2 ((p, ?n) # L)"
    using heap.fill_ok [OF own, of p ?n ?n 0] outside unused_outside [OF own, of p ?n]
    by (intro fresh_heap_step [OF m(3)]) auto
  moreover have "mem ?st2 (p + of_nat i) = 0" if "i < unat ?n" for i
    using inside span_prefix [OF that] by simp
  moreover have "mem ?st2 x = mem st x" if "\<not> in_heap x" for x
    using outside [of x] heap_owns_arena [OF own, of p ?n x] m(4) that by (auto simp: client_def)
  moreover have "calloc nm sz st = Some (p, ?st2)" using m(1,2) by (simp add: calloc_def split_def)
  ultimately show ?thesis using m(2,5) by (auto simp: memset_def)
qed

text \<open>Copying into the newest block.\<close>

lemma fresh_memcpy:
  assumes "fresh_heap st L" and "(p, n) \<in> set L" and "k \<le> n"
  shows "fresh_heap (snd (memcpy p s k st)) L"
proof (rule fresh_heap_step [OF assms(1)])
  note own = fresh_heapD [OF assms(1)]
  show "heap_owns (snd (memcpy p s k st)) L" using heap.copy_ok [OF own assms(2,3)] .
  fix j assume "heap_used L \<le> j" "j < HEAP_SIZE"
  from unused_outside [OF own assms(2) this] assms(3)
  show "mem (snd (memcpy p s k st)) (adr j) = mem st (adr j)"
    by (intro memcpy_frame) (auto dest: span_less)
qed simp

lemma memcpy_io [simp]: "uart_out (snd (memcpy p s k st)) = uart_out st"
  by (simp add: memcpy_def)

lemma fresh_copy_literal:
  assumes fresh: "fresh_heap st ((p, n) # L)" and lit: "literal st a s" and len: "length s < unat n"
    and zero: "mem st (p + of_nat (length s)) = 0"
  defines "st' \<equiv> snd (memcpy p a (of_nat (length s)) st)"
  shows "fresh_heap st' ((p, n) # L)" "cstr (mem st') p s" "\<And>x. \<not> in_heap x \<Longrightarrow> mem st' x = mem st x"
    "uart_out st' = uart_out st"
proof -
  let ?k = "of_nat (length s) :: u32"
  note own = fresh_heapD [OF fresh]
  have k: "unat ?k = length s" using len unat_u32_bound [of n] by (simp add: unat_of_nat32)
  then have kn: "?k \<le> n" using len by (simp add: word_le_nat_alt)
  show "fresh_heap st' ((p, n) # L)" unfolding st'_def by (rule fresh_memcpy [OF fresh _ kn]) simp
  have out: "mem st' x = mem st x" if "\<not> span p ?k x" for x
    unfolding st'_def using that by (rule memcpy_frame)
  show keep: "mem st' x = mem st x" if "\<not> in_heap x" for x
    using heap_owns_arena [OF own, of p n x] that kn out [of x] by (auto dest: span_less)
  have "apart p ?k a ?k"
    unfolding apart_spans
    using literal_readable [OF lit, of L] heap.fresh_client [OF own] kn
    by (auto simp: readable_def dest: span_less)
  moreover have "length s < 2 ^ 32" using k unat_u32_bound [of ?k] by simp
  ultimately have "bytes (mem st') p (length s) = bytes (mem st) a (length s)"
    unfolding st'_def by (rule bytes_memcpy)
  moreover have "\<not> span p ?k (p + ?k)" by simp
  then have "mem st' (p + ?k) = 0" using out zero by simp
  ultimately show "cstr (mem st') p s" using lit by (simp add: literal_def cstr_bytes)
  show "uart_out st' = uart_out st" by (simp add: st'_def)
qed

section \<open>Strings on a fresh heap\<close>

lemma string_new_len_unused:
  assumes own: "heap_owns st L" and room: "heap_used L + 45 + unat len < HEAP_SIZE"
    and new: "string_new_len data len st = Some (s, st')"
    and k: "heap_used L + 45 + unat len \<le> k" "k < HEAP_SIZE"
  shows "mem st' (adr k) = mem st (adr k)"
proof -
  let ?e = "heap_used L" and ?s = "adr (heap_used L + 13)" and ?d = "adr (heap_used L + 41)"
  let ?st1 = "bumped ?e 12 st" and ?st2 = "bumped (?e + 28) (len + 1) (bumped ?e 12 st)"
  have len1: "unat (len + 1) = unat len + 1" using room by (simp add: HEAP_SIZE_def unat_plus_if')
  have r1: "heap_room L 12" "heap_room ((?s, 12) # L) (len + 1)"
    using room by (simp_all add: heap_room_def len1)
  have m1: "malloc 12 st = Some (?s, ?st1)" using heap_malloc_bumped [OF own r1(1)] .
  with heap.alloc_ok [OF own r1(1)] have own1: "heap_owns ?st1 ((?s, 12) # L)" "?s \<noteq> 0" by auto
  have used1: "heap_used ((?s, 12) # L) = ?e + 28" by simp
  have d: "adr (?e + 28 + 13) = ?d" by (simp add: add.commute)
  have m2: "malloc (len + 1) ?st1 = Some (?d, ?st2)"
    using heap_malloc_bumped [OF own1(1) r1(2)] unfolding used1 d .
  with heap.alloc_ok [OF own1(1) r1(2)] have d0: "?d \<noteq> 0" and
    own2: "heap_owns ?st2 ((?d, len + 1) # (?s, 12) # L)" by auto
  note out = unused_outside [OF own2, of _ _ k]
  have outs: "\<not> span ?s 12 (adr k)" "\<not> span ?d (len + 1) (adr k)"
    using out [of ?s 12] out [of ?d "len + 1"] k by (simp_all add: len1)
  have "len \<le> len + 1" by (simp add: word_le_nat_alt len1)
  then have "\<not> span ?d len (adr k)" using outs(2) span_less by blast
  moreover have "mem ?st2 (adr k) = mem st (adr k)"
    using bumped_frame [of k "?e + 28" "len + 1" ?st1] bumped_frame [of k ?e 12 st] k
    by (simp add: HEAP_SIZE_def)
  moreover have "st' = set_capacity ?s (len + 1) (set_length ?s len
      (snd (memcpy ?d data len (set_data ?s ?d ?st2))))"
    using new m1 m2 own1(2) d0 by (auto simp: string_new_len_def SIZEOF_STRING_def split_def Let_def)
  ultimately show ?thesis
    using outs(1) by (simp add: set_field_frame memcpy_frame)
qed

text \<open>
  A string made of a literal: its bytes are followed by a zero, which is not stored by the code
  but was there before.
\<close>

lemma fresh_string_new:
  assumes fresh: "fresh_heap st L" and lit: "literal st a xs"
    and room: "heap_used L + 45 + length xs < HEAP_SIZE"
  defines "s \<equiv> adr (heap_used L + 13)" and "d \<equiv> adr (heap_used L + 41)"
    and "cap \<equiv> of_nat (length xs + 1)"
  shows "\<exists>st'. string_new a st = Some (s, st') \<and> string_new_len a (of_nat (length xs)) st = Some (s, st')
    \<and> s \<noteq> 0 \<and> string_at st' ((d, cap) # (s, 12) # L) s d cap xs \<and> fresh_heap st' ((d, cap) # (s, 12) # L)
    \<and> cstr (mem st') d xs \<and> uart_out st' = uart_out st
    \<and> (\<forall>x. client in_heap L x \<longrightarrow> mem st' x = mem st x)
    \<and> heap_used ((d, cap) # (s, 12) # L) = heap_used L + 45 + length xs"
proof -
  let ?n = "of_nat (length xs) :: u32" and ?L = "(d, cap) # (s, 12) # L"
  note own = fresh_heapD [OF fresh]
  have n: "unat ?n = length xs" using room by (simp add: unat_of_nat32 HEAP_SIZE_def)
  have cap: "unat cap = length xs + 1" unfolding cap_def
    using room by (intro unat_of_nat32) (simp add: HEAP_SIZE_def)
  have xs: "cstr (mem st) a xs" "bytes (mem st) a (length xs) = xs" "0 \<notin> set xs"
    using lit by (auto simp: literal_def cstr_bytes)
  have room': "heap_used L + 45 + unat ?n < HEAP_SIZE" using room n by simp
  from string_new_len_at [OF own literal_readable [OF lit] room'] obtain st' where
    new: "string_new_len a ?n st = Some (s, st')" "string_at st' ?L s d cap xs"
      "\<forall>x. client in_heap L x \<longrightarrow> mem st' x = mem st x" "mem st' (d + ?n) = mem st (d + ?n)"
    by (auto simp: n xs(2) s_def d_def cap_def add.commute)
  have used: "heap_used ?L = heap_used L + 45 + length xs" by (simp add: cap)
  have "fresh_heap st' ?L"
    using string_new_len_unused [OF own room' new(1)] used
    by (intro fresh_heap_step [OF fresh string_atD(1) [OF new(2)]]) (simp_all add: n)
  moreover have "d + ?n = adr (heap_used L + 41 + length xs)" by (simp add: d_def adr_add)
  then have "mem st' (d + ?n) = 0" using new(4) fresh room by (simp add: fresh_heap_def)
  then have "cstr (mem st') d xs" using string_atD(9) [OF new(2)] xs(3) by (simp add: cstr_bytes)
  moreover have "string_new a st = Some (s, st')"
    using strlen_cstr [OF xs(1)] new(1) by (simp add: string_new_def)
  moreover have "s \<noteq> 0" using room by (auto simp: s_def HEAP_SIZE_def intro!: adr_nonzero)
  ultimately show ?thesis using new used string_new_len_io [OF new(1)] by blast
qed

lemma free_str_at:
  assumes str: "string_at st L s d cap xs"
  shows "heap_owns (free_str s st) L" "uart_out (free_str s st) = uart_out st"
    "\<And>x. client in_heap L x \<Longrightarrow> mem (free_str s st) x = mem st x"
    "fresh_heap st L \<Longrightarrow> fresh_heap (free_str s st) L"
proof -
  note s = string_atD [OF str]
  have eq: "free_str s st = free s (free d st)" by (simp add: free_str_def s(5))
  have own1: "heap_owns (free d st) L" using heap.release_ok [OF s(1,3)] by blast
  then show "heap_owns (free_str s st) L" unfolding eq using heap.release_ok [OF own1 s(2)] by blast
  show "uart_out (free_str s st) = uart_out st" by (simp add: eq free_io)
  show "mem (free_str s st) x = mem st x" if "client in_heap L x" for x
    unfolding eq using heap.release_frame [OF own1 s(2) that] heap.release_frame [OF s(1,3) that] by simp
  show "fresh_heap (free_str s st) L" if "fresh_heap st L"
    unfolding eq using fresh_free [OF fresh_free [OF that s(3)] s(2)] .
qed

lemma string_append_io:
  "string_append s a st = Some st' \<Longrightarrow> uart_out st' = uart_out st"
  by (auto simp: string_append_def string_append_len_def make_room_def bind_eq_Some_conv Let_def
      split_def dest!: string_grow_io split: if_splits)

text \<open>Appending a literal: the result is terminated by the code.\<close>

lemma append_literal:
  assumes str: "string_at st L s d cap xs" and lit: "literal st a ys" and nz: "0 \<notin> set xs"
    and room: "heap_used L + 16 + grown (unat cap) (length xs + length ys) < HEAP_SIZE"
  shows "\<exists>d' cap' L' st'. string_append s a st = Some st' \<and> string_at st' L' s d' cap' (xs @ ys)
    \<and> cstr (mem st') d' (xs @ ys) \<and> uart_out st' = uart_out st
    \<and> (\<forall>x. \<not> in_heap x \<longrightarrow> mem st' x = mem st x)"
proof -
  let ?n = "of_nat (length ys) :: u32"
  have ys: "cstr (mem st) a ys" "bytes (mem st) a (length ys) = ys" "0 \<notin> set ys"
    using lit by (auto simp: literal_def cstr_bytes)
  have n: "unat ?n = length ys" using cstr_length [OF ys(1)] by (simp add: unat_of_nat32)
  have "source_ok L s d cap xs a ?n"
    unfolding source_ok_def
  proof (intro allI impI)
    fix x assume "span a ?n x"
    then obtain i where i: "x = a + i" "i < ?n" by (metis spanE)
    then have "unat i \<le> length ys" using n by (simp add: word_less_nat_alt)
    then have "\<not> in_heap (a + of_nat (unat i))" using lit unfolding literal_def by blast
    then show "client in_heap L x \<and> \<not> span s 12 x \<and> (span d cap x \<longrightarrow> span d (of_nat (length xs)) x)"
      using outside_string [OF str, of x] i(1) by simp
  qed
  from append_len_at [OF str this] room obtain d' st' where
    r: "string_append_len s a ?n st = Some st'"
      "string_at st' (grown_owns L d' (of_nat (grown (unat cap) (length xs + length ys))) cap) s d'
        (of_nat (grown (unat cap) (length xs + length ys))) (xs @ ys)"
      "mem st' (d' + of_nat (length (xs @ ys))) = 0"
      "\<forall>x. client in_heap L x \<longrightarrow> \<not> span s 12 x \<longrightarrow> \<not> span d cap x \<longrightarrow> mem st' x = mem st x"
    by (auto simp: n ys(2))
  have app: "string_append s a st = Some st'"
    using strlen_cstr [OF ys(1)] r(1) by (simp add: string_append_def)
  have "cstr (mem st') d' (xs @ ys)"
    using string_atD(9) [OF r(2)] r(3) nz ys(3) by (simp add: cstr_bytes)
  moreover have "\<forall>x. \<not> in_heap x \<longrightarrow> mem st' x = mem st x" using r(4) outside_string [OF str] by blast
  ultimately show ?thesis using app r(2) string_append_io [OF app] by blast
qed

text \<open>\<open>debug_heap\<close> returns on every such heap: its list ends after the first block.\<close>

lemma debug_heap_returns:
  assumes "heap_owns st L"
  shows "\<exists>t. debug_heap st = Some t"
proof -
  from assms obtain bs e where inv: "heap_inv st bs e" by (auto simp: heap_owns_def)
  have "\<exists>ps. linked st (mem_head st) ps"
  proof (cases bs)
    case Nil
    then have "linked st (mem_head st) []" using inv by (simp add: heap_inv_def)
    then show ?thesis ..
  next
    case (Cons b bs')
    obtain a k where b: "b = (a, k)" by (cases b)
    with Cons inv have "a = 0" "header_ok (mem st) (0, k)" "mem_head st = adr 0" by (auto simp: heap_inv_def)
    then have "linked st (mem_head st) [adr 0]" using header_ok_next [of st 0 k] by (simp del: adr_0(1))
    then show ?thesis ..
  qed
  then show ?thesis using heap_loop_linked walk_loop_linked by (fastforce simp: debug_heap_def)
qed

section \<open>The program\<close>

text \<open>
  \<open>main\<close>, block by block. A block yields whether \<open>main\<close> goes on; \<open>False\<close> is its \<open>return 1\<close>.
  \<open>at\<close> places the literals.
\<close>

definition tab_s :: "byte list" where
  "tab_s = textln (CHR 0x09 # ''%s'')"

definition print_buffer :: "u32 \<Rightarrow> rodata \<Rightarrow> u32 \<Rightarrow> u32 \<Rightarrow> machine \<Rightarrow> machine option" where
  "print_buffer stack at test str st = do {
     test_len \<leftarrow> strlen test st;
     let (_, st) = memcpy str test test_len st;
     st \<leftarrow> say stack at tab_s [str] st;
     Some (free str st)
   }"

definition mtest_malloc :: "u32 \<Rightarrow> rodata \<Rightarrow> machine \<Rightarrow> (bool \<times> machine) option" where
  "mtest_malloc stack at st = do {
     (str, st) \<leftarrow> malloc (1 * 40) st;
     if str = 0 then do { st \<leftarrow> say stack at (textln ''malloc failed'') [] st; Some (False, st) }
     else do {
       st \<leftarrow> print_buffer stack at (at (ascii ''hey there!'')) str st;
       Some (True, st)
     }
   }"

definition mtest_calloc :: "u32 \<Rightarrow> rodata \<Rightarrow> machine \<Rightarrow> (bool \<times> machine) option" where
  "mtest_calloc stack at st = do {
     (str, st) \<leftarrow> calloc 11 1 st;
     if str = 0 then do { st \<leftarrow> say stack at (textln ''calloc failed'') [] st; Some (False, st) }
     else do {
       st \<leftarrow> print_buffer stack at (at (ascii ''hey where!'')) str st;
       Some (True, st)
     }
   }"

definition mtest_string :: "u32 \<Rightarrow> rodata \<Rightarrow> machine \<Rightarrow> (bool \<times> machine) option" where
  "mtest_string stack at st = do {
     (s, st) \<leftarrow> string_new (at (ascii ''isn't doom great?'')) st;
     if s = 0 then do {
       st \<leftarrow> say stack at (textln (CHR 0x09 # ''string_new failed'')) [] st;
       Some (False, st)
     } else do {
       st \<leftarrow> say stack at tab_s [str_data st s] st;
       Some (True, free_str s st)
     }
   }"

definition mtest_string_len :: "u32 \<Rightarrow> rodata \<Rightarrow> machine \<Rightarrow> machine option" where
  "mtest_string_len stack at st = do {
     let test = at (ascii ''this is a test'');
     test_len \<leftarrow> strlen test st;
     (s2, st) \<leftarrow> string_new_len test test_len st;
     st \<leftarrow> say stack at tab_s [str_data st s2] st;
     Some (free_str s2 st)
   }"

definition mtest_array :: "u32 \<Rightarrow> rodata \<Rightarrow> machine \<Rightarrow> machine option" where
  "mtest_array stack at st = do {
     (s0, st) \<leftarrow> string_new (at (ascii ''have you'')) st;
     (s1, st) \<leftarrow> string_new (at (ascii ''prayed today?'')) st;
     st \<leftarrow> say stack at tab_s [str_data st s0] st;
     st \<leftarrow> say stack at tab_s [str_data st s1] st;
     let st = free_str s0 st;
     Some (free_str s1 st)
   }"

definition mtest_append :: "u32 \<Rightarrow> rodata \<Rightarrow> machine \<Rightarrow> machine option" where
  "mtest_append stack at st = do {
     (s, st) \<leftarrow> string_new (at (ascii ''this is a test'')) st;
     st \<leftarrow> say stack at tab_s [str_data st s] st;
     st \<leftarrow> string_append s (at (ascii '' I AM BATMAN!'')) st;
     st \<leftarrow> say stack at tab_s [str_data st s] st;
     Some (free_str s st)
   }"

definition mtest_main :: "u32 \<Rightarrow> rodata \<Rightarrow> machine \<Rightarrow> (u32 \<times> machine) option" where
  "mtest_main stack at st = do {
     st \<leftarrow> say stack at (textln ''malloc test'') [] st;
     (ok, st) \<leftarrow> mtest_malloc stack at st;
     if \<not> ok then Some (1, st) else do {
     st \<leftarrow> say stack at (textln ''malloc test passed'') [] st;
     st \<leftarrow> say stack at (textln ''calloc test'') [] st;
     (ok, st) \<leftarrow> mtest_calloc stack at st;
     if \<not> ok then Some (1, st) else do {
     st \<leftarrow> say stack at (textln ''calloc test passed'') [] st;
     st \<leftarrow> say stack at (textln ''string test'') [] st;
     (ok, st) \<leftarrow> mtest_string stack at st;
     if \<not> ok then Some (1, st) else do {
     st \<leftarrow> say stack at (textln ''string test passed'') [] st;
     st \<leftarrow> say stack at (textln ''string_new_len test'') [] st;
     st \<leftarrow> mtest_string_len stack at st;
     st \<leftarrow> say stack at (textln ''string_new_len test passed'') [] st;
     st \<leftarrow> mtest_array stack at st;
     st \<leftarrow> mtest_append stack at st;
     _ \<leftarrow> debug_heap st;
     Some (0, st)
   }}}}"

definition mtest_texts :: "byte list list" where
  "mtest_texts = tab_s # map ascii [''hey there!'', ''hey where!'', ''isn't doom great?'', ''this is a test'',
     ''have you'', ''prayed today?'', '' I AM BATMAN!'']
     @ map textln [''malloc failed'', ''calloc failed'', CHR 0x09 # ''string_new failed'', ''malloc test'',
     ''malloc test passed'', ''calloc test'', ''calloc test passed'', ''string test'', ''string test passed'',
     ''string_new_len test'', ''string_new_len test passed'']"

text \<open>The console output of a run in which every step succeeds.\<close>

definition mtest_output :: "byte list" where
  "mtest_output = concat (map textln [''malloc test'', CHR 0x09 # ''hey there!'', ''malloc test passed'',
     ''calloc test'', CHR 0x09 # ''hey where!'', ''calloc test passed'',
     ''string test'', CHR 0x09 # ''isn't doom great?'', ''string test passed'',
     ''string_new_len test'', CHR 0x09 # ''this is a test'', ''string_new_len test passed'',
     CHR 0x09 # ''have you'', CHR 0x09 # ''prayed today?'',
     CHR 0x09 # ''this is a test'', CHR 0x09 # ''this is a test I AM BATMAN!''])"

section \<open>The blocks\<close>

text \<open>Between two blocks: the literals in place and a fresh heap with at most \<open>u\<close> bytes in use.\<close>

definition mtest_ready :: "rodata \<Rightarrow> nat \<Rightarrow> machine \<Rightarrow> bool" where
  "mtest_ready at u st \<longleftrightarrow> literals_at at mtest_texts st \<and> (\<exists>L. fresh_heap st L \<and> heap_used L \<le> u)"

lemma mtest_ready_said [simp]: "mtest_ready at u (said t st) = mtest_ready at u st"
  by (simp add: mtest_ready_def)

lemma mtest_literal: "literals_at at mtest_texts st \<Longrightarrow> s \<in> set mtest_texts \<Longrightarrow> literal st (at s) s"
  by (simp add: literals_at_def)

lemma mtest_say:
  assumes "mtest_ready at u st" and "textln s \<in> set mtest_texts" and "c_percent \<notin> set (ascii s)"
    and "length s < 2 ^ 30" and "stack \<noteq> 0"
  shows "say stack at (textln s) [] st = Some (said (textln s) st)"
  using assms by (intro say_plain [of at mtest_texts]) (auto simp: mtest_ready_def textln_def ascii_def)

lemma say_tab_s:
  assumes lits: "literals_at at mtest_texts st" and s: "cstr (mem st) p s" "length s < 2 ^ 31" and stack: "stack \<noteq> 0"
  shows "say stack at tab_s [p] st = Some (said (9 # s @ [c_newline]) st)"
proof -
  have "tab_s = [9] @ [c_percent, c_s, c_newline]" by (simp add: tab_s_def textln_def ascii_def)
  then have "render tab_s [Text p s] = Some (9 # s @ [c_newline])"
    using render_append [of "[9]" "[c_percent, c_s, c_newline]" "[Text p s]"] by (simp add: directive_s)
  moreover have "tab_s \<in> set mtest_texts" by (simp add: mtest_texts_def)
  moreover have "0 \<notin> set s" using s(1) by (simp add: cstr_iff)
  ultimately show ?thesis
    using say_exact [OF lits, of tab_s "[Text p s]" "9 # s @ [c_newline]" stack] s stack
    by (simp add: arg_ok_def kept_str_def)
qed

lemma print_buffer_literal:
  assumes lits: "literals_at at mtest_texts st" and fresh: "fresh_heap st ((p, n) # L)" and s: "s \<in> set mtest_texts"
    and len: "length s < unat n" and zero: "mem st (p + of_nat (length s)) = 0" and stack: "stack \<noteq> 0"
  shows "\<exists>st'. print_buffer stack at (at s) p st = Some st' \<and> mtest_ready at (heap_used ((p, n) # L)) st'
    \<and> uart_out st' = uart_out st @ 9 # s @ [c_newline]"
proof -
  note lit = mtest_literal [OF lits s]
  let ?st1 = "snd (memcpy p (at s) (of_nat (length s)) st)"
  let ?st2 = "said (9 # s @ [c_newline]) ?st1"
  note c = fresh_copy_literal [OF fresh lit len zero]
  have len31: "length s < 2 ^ 31"
    using len heap_owns_size(1) [OF fresh_heapD [OF fresh], of p n] by (simp add: HEAP_SIZE_def)
  have lits1: "literals_at at mtest_texts ?st1" using lits c(3) by (rule literals_at_cong)
  note fresh2 = c(1) [THEN fresh_heap_said [THEN iffD2], of "9 # s @ [c_newline]"]
  have "strlen (at s) st = Some (of_nat (length s))" using lit strlen_cstr by (simp add: literal_def)
  then have "print_buffer stack at (at s) p st = Some (free p ?st2)"
    using say_tab_s [OF lits1 c(2) len31 stack] by (simp add: print_buffer_def split_def)
  moreover have "fresh_heap (free p ?st2) ((p, n) # L)" using fresh_free [OF fresh2, of p n] by simp
  moreover have "mem (free p ?st2) x = mem ?st1 x" if "\<not> in_heap x" for x
    using free_arena [OF fresh_heapD [OF fresh2] _ that, of p n] by simp
  then have "literals_at at mtest_texts (free p ?st2)" by (rule literals_at_cong [OF lits1])
  moreover have "uart_out (free p ?st2) = uart_out st @ 9 # s @ [c_newline]" using c(4) by (simp add: free_io)
  ultimately show ?thesis unfolding mtest_ready_def
    by (intro exI [of _ "free p ?st2"] conjI exI [of _ "(p, n) # L"] order_refl)
qed

text \<open>Each block on its own: it returns, prints its line and leaves a fresh heap.\<close>

lemma mtest_malloc_ok:
  assumes "mtest_ready at u st" and "u + 56 < HEAP_SIZE" and "stack \<noteq> 0"
  shows "\<exists>st'. mtest_malloc stack at st = Some (True, st') \<and> mtest_ready at (u + 56) st'
    \<and> uart_out st' = uart_out st @ textln (CHR 0x09 # ''hey there!'')"
proof -
  from assms(1) obtain L where lits: "literals_at at mtest_texts st" and fresh: "fresh_heap st L" "heap_used L \<le> u"
    by (auto simp: mtest_ready_def)
  have room: "heap_room L 40" using fresh(2) assms(2) by (simp add: heap_room_def)
  from fresh_malloc [OF fresh(1) room] obtain p st1 where m: "malloc 40 st = Some (p, st1)" "p \<noteq> 0"
    "fresh_heap st1 ((p, 40) # L)" "\<forall>i \<le> unat (40 :: u32). mem st1 (p + of_nat i) = 0"
    "\<forall>x. client in_heap L x \<longrightarrow> mem st1 x = mem st x" "uart_out st1 = uart_out st" by blast
  have lits1: "literals_at at mtest_texts st1" using m(5) by (intro literals_at_cong [OF lits]) (simp add: client_def)
  let ?s = "ascii ''hey there!''"
  have "?s \<in> set mtest_texts" "length ?s = 10" by (simp_all add: mtest_texts_def ascii_def)
  moreover have "mem st1 (p + of_nat 10) = 0" using m(4) [rule_format, of 10] by simp
  ultimately obtain st2 where "print_buffer stack at (at ?s) p st1 = Some st2"
    "mtest_ready at (heap_used ((p, 40) # L)) st2" "uart_out st2 = uart_out st1 @ 9 # ?s @ [c_newline]"
    using print_buffer_literal [OF lits1 m(3), of ?s stack] assms(3) by auto
  then show ?thesis using m(1,2,6) fresh(2)
    by (auto simp: mtest_malloc_def mtest_ready_def textln_def ascii_def)
qed

lemma mtest_calloc_ok:
  assumes "mtest_ready at u st" and "u + 27 < HEAP_SIZE" and "stack \<noteq> 0"
  shows "\<exists>st'. mtest_calloc stack at st = Some (True, st') \<and> mtest_ready at (u + 27) st'
    \<and> uart_out st' = uart_out st @ textln (CHR 0x09 # ''hey where!'')"
proof -
  from assms(1) obtain L where lits: "literals_at at mtest_texts st" and fresh: "fresh_heap st L" "heap_used L \<le> u"
    by (auto simp: mtest_ready_def)
  have room: "heap_room L (11 * 1)" using fresh(2) assms(2) by (simp add: heap_room_def)
  from fresh_calloc [OF fresh(1) room] obtain p st1 where m: "calloc 11 1 st = Some (p, st1)" "p \<noteq> 0"
    "fresh_heap st1 ((p, 11) # L)" "\<forall>i < 11. mem st1 (p + of_nat i) = 0"
    "\<forall>x. \<not> in_heap x \<longrightarrow> mem st1 x = mem st x" "uart_out st1 = uart_out st" by auto
  have lits1: "literals_at at mtest_texts st1" using m(5) by (intro literals_at_cong [OF lits]) simp
  let ?s = "ascii ''hey where!''"
  have "?s \<in> set mtest_texts" "length ?s = 10" by (simp_all add: mtest_texts_def ascii_def)
  moreover have "mem st1 (p + of_nat 10) = 0" using m(4) [rule_format, of 10] by simp
  ultimately obtain st2 where "print_buffer stack at (at ?s) p st1 = Some st2"
    "mtest_ready at (heap_used ((p, 11) # L)) st2" "uart_out st2 = uart_out st1 @ 9 # ?s @ [c_newline]"
    using print_buffer_literal [OF lits1 m(3), of ?s stack] assms(3) by auto
  then show ?thesis using m(1,2,6) fresh(2)
    by (auto simp: mtest_calloc_def mtest_ready_def textln_def ascii_def)
qed

text \<open>A string made from a literal, printed and kept: what four of the blocks start with.\<close>

lemma new_string_block:
  assumes lits: "literals_at at mtest_texts st" and fresh: "fresh_heap st L" and s: "xs \<in> set mtest_texts"
    and room: "heap_used L + 45 + length xs < HEAP_SIZE" and stack: "stack \<noteq> 0"
  obtains s d cap L' st' where "string_new (at xs) st = Some (s, st')"
    "string_new_len (at xs) (of_nat (length xs)) st = Some (s, st')" "s \<noteq> 0" "str_data st' s = d"
    "string_at st' L' s d cap xs" "fresh_heap st' L'" "cstr (mem st') d xs" "unat cap = length xs + 1"
    "set L \<subseteq> set L'" "heap_used L' = heap_used L + 45 + length xs" "literals_at at mtest_texts st'"
    "uart_out st' = uart_out st" "\<And>x. client in_heap L x \<Longrightarrow> mem st' x = mem st x"
    "say stack at tab_s [d] st' = Some (said (9 # xs @ [c_newline]) st')"
proof -
  note lit = mtest_literal [OF lits s]
  let ?s = "adr (heap_used L + 13)" and ?d = "adr (heap_used L + 41)" and ?cap = "of_nat (length xs + 1) :: u32"
  let ?L = "(?d, ?cap) # (?s, 12) # L"
  from fresh_string_new [OF fresh lit room] obtain st' where
    n: "string_new (at xs) st = Some (?s, st')"
      "string_new_len (at xs) (of_nat (length xs)) st = Some (?s, st')" "?s \<noteq> 0"
      "string_at st' ?L ?s ?d ?cap xs" "fresh_heap st' ?L" "cstr (mem st') ?d xs"
      "uart_out st' = uart_out st" "\<forall>x. client in_heap L x \<longrightarrow> mem st' x = mem st x"
      "heap_used ?L = heap_used L + 45 + length xs"
    by blast
  have "literals_at at mtest_texts st'" using n(8) by (intro literals_at_cong [OF lits]) (simp add: client_def)
  moreover have "unat ?cap = length xs + 1" using room by (intro unat_of_nat32) (simp add: HEAP_SIZE_def)
  moreover have "length xs < 2 ^ 31" using room by (simp add: HEAP_SIZE_def)
  ultimately show ?thesis
    using that [OF n(1-3) string_atD(5) [OF n(4)] n(4-6)] n(7-9) say_tab_s [of at st' ?d xs stack] n(6) stack
    by auto
qed

text \<open>Giving a string back and going on.\<close>

lemma ready_free_str:
  assumes "literals_at at mtest_texts st" and "string_at st L s d cap xs" and "fresh_heap st L" and "heap_used L \<le> u"
  shows "mtest_ready at u (free_str s st)" "uart_out (free_str s st) = uart_out st"
proof -
  note f = free_str_at [OF assms(2)]
  have "mem (free_str s st) x = mem st x" if "\<not> in_heap x" for x using f(3) that by (simp add: client_def)
  then have "literals_at at mtest_texts (free_str s st)" by (rule literals_at_cong [OF assms(1)])
  then show "mtest_ready at u (free_str s st)" using f(4) [OF assms(3)] assms(4) by (auto simp: mtest_ready_def)
  show "uart_out (free_str s st) = uart_out st" by (rule f(2))
qed

lemma string_at_said [simp]: "string_at (said t st) L s d cap xs = string_at st L s d cap xs"
  by (simp add: string_at_def str_data_def str_length_def str_capacity_def)

lemma mtest_string_ok:
  assumes "mtest_ready at u st" and "u + 62 < HEAP_SIZE" and "stack \<noteq> 0"
  shows "\<exists>st'. mtest_string stack at st = Some (True, st') \<and> mtest_ready at (u + 62) st'
    \<and> uart_out st' = uart_out st @ textln (CHR 0x09 # ''isn't doom great?'')"
proof -
  from assms(1) obtain L where lits: "literals_at at mtest_texts st" and fresh: "fresh_heap st L" "heap_used L \<le> u"
    by (auto simp: mtest_ready_def)
  let ?s = "ascii ''isn't doom great?''"
  have s: "?s \<in> set mtest_texts" "length ?s = 17" by (simp_all add: mtest_texts_def ascii_def)
  then have "heap_used L + 45 + length ?s < HEAP_SIZE" using fresh(2) assms(2) by simp
  from new_string_block [OF lits fresh(1) s(1) this assms(3)] obtain q d cap L' st' where
    n: "string_new (at ?s) st = Some (q, st')" "q \<noteq> 0" "str_data st' q = d"
      "string_at st' L' q d cap ?s" "fresh_heap st' L'" "heap_used L' = heap_used L + 45 + length ?s"
      "literals_at at mtest_texts st'" "uart_out st' = uart_out st"
      "say stack at tab_s [d] st' = Some (said (9 # ?s @ [c_newline]) st')" by metis
  let ?st = "said (9 # ?s @ [c_newline]) st'"
  have "mtest_ready at (u + 62) (free_str q ?st)" "uart_out (free_str q ?st) = uart_out ?st"
    using ready_free_str [of at ?st L' q d cap ?s "u + 62"] n(4-7) fresh(2) s(2) by simp_all
  then show ?thesis using n by (simp add: mtest_string_def textln_def) (simp add: ascii_def)
qed

lemma mtest_string_len_ok:
  assumes "mtest_ready at u st" and "u + 59 < HEAP_SIZE" and "stack \<noteq> 0"
  shows "\<exists>st'. mtest_string_len stack at st = Some st' \<and> mtest_ready at (u + 59) st'
    \<and> uart_out st' = uart_out st @ textln (CHR 0x09 # ''this is a test'')"
proof -
  from assms(1) obtain L where lits: "literals_at at mtest_texts st" and fresh: "fresh_heap st L" "heap_used L \<le> u"
    by (auto simp: mtest_ready_def)
  let ?s = "ascii ''this is a test''"
  have s: "?s \<in> set mtest_texts" "length ?s = 14" by (simp_all add: mtest_texts_def ascii_def)
  then have "heap_used L + 45 + length ?s < HEAP_SIZE" using fresh(2) assms(2) by simp
  from new_string_block [OF lits fresh(1) s(1) this assms(3)] obtain q d cap L' st' where
    n: "string_new_len (at ?s) (of_nat (length ?s)) st = Some (q, st')" "q \<noteq> 0" "str_data st' q = d"
      "string_at st' L' q d cap ?s" "fresh_heap st' L'" "heap_used L' = heap_used L + 45 + length ?s"
      "literals_at at mtest_texts st'" "uart_out st' = uart_out st"
      "say stack at tab_s [d] st' = Some (said (9 # ?s @ [c_newline]) st')" by metis
  let ?st = "said (9 # ?s @ [c_newline]) st'"
  have "mtest_ready at (u + 59) (free_str q ?st)" "uart_out (free_str q ?st) = uart_out ?st"
    using ready_free_str [of at ?st L' q d cap ?s "u + 59"] n(4-7) fresh(2) s(2) by simp_all
  moreover have "strlen (at ?s) st = Some (of_nat (length ?s))"
    using mtest_literal [OF lits s(1)] strlen_cstr by (simp add: literal_def)
  ultimately show ?thesis using n by (simp add: mtest_string_len_def textln_def) (simp add: ascii_def)
qed

text \<open>A string survives what leaves the client's bytes alone.\<close>

lemma string_at_client:
  assumes "string_at st L s d cap xs" and "heap_owns st' L'" and "set L \<subseteq> set L'"
    and "\<And>x. client in_heap L x \<Longrightarrow> mem st' x = mem st x"
  shows "string_at st' L' s d cap xs"
  using string_atD(2,3) [OF assms(1)] assms(4)
  by (intro string_at_frame [OF assms(1-3)]) (auto intro: client_block)

lemma cstr_client:
  assumes "cstr (mem st) d s" and "(d, cap) \<in> set L" and "length s < unat cap"
    and "\<And>x. client in_heap L x \<Longrightarrow> mem st' x = mem st x"
  shows "cstr (mem st') d s"
proof -
  have "mem st' (d + of_nat i) = mem st (d + of_nat i)" if "i \<le> length s" for i
    using client_block [OF assms(2) span_prefix [of i "Suc (length s)" cap d]] that assms(3,4) by auto
  then show ?thesis using assms(1) cstr_cong [of s "mem st'" d "mem st"] by blast
qed

lemma mtest_array_ok:
  assumes "mtest_ready at u st" and "u + 111 < HEAP_SIZE" and "stack \<noteq> 0"
  shows "\<exists>st'. mtest_array stack at st = Some st' \<and> mtest_ready at (u + 111) st'
    \<and> uart_out st' = uart_out st @ textln (CHR 0x09 # ''have you'') @ textln (CHR 0x09 # ''prayed today?'')"
proof -
  from assms(1) obtain L where lits: "literals_at at mtest_texts st" and fresh: "fresh_heap st L" "heap_used L \<le> u"
    by (auto simp: mtest_ready_def)
  let ?s = "ascii ''have you''" and ?t = "ascii ''prayed today?''"
  have s: "?s \<in> set mtest_texts" "length ?s = 8" "?t \<in> set mtest_texts" "length ?t = 13"
    by (simp_all add: mtest_texts_def ascii_def)
  then have "heap_used L + 45 + length ?s < HEAP_SIZE" using fresh(2) assms(2) by simp
  from new_string_block [OF lits fresh(1) s(1) this assms(3)] obtain q d cap L1 st1 where
    n: "string_new (at ?s) st = Some (q, st1)" "str_data st1 q = d"
      "string_at st1 L1 q d cap ?s" "fresh_heap st1 L1" "heap_used L1 = heap_used L + 45 + length ?s"
      "literals_at at mtest_texts st1" "uart_out st1 = uart_out st" "cstr (mem st1) d ?s"
      "unat cap = length ?s + 1" by metis
  then have "heap_used L1 + 45 + length ?t < HEAP_SIZE" using fresh(2) assms(2) s by simp
  from new_string_block [OF n(6) n(4) s(3) this assms(3)] obtain q' d' cap' L2 st2 where
    n': "string_new (at ?t) st1 = Some (q', st2)" "str_data st2 q' = d'"
      "string_at st2 L2 q' d' cap' ?t" "fresh_heap st2 L2" "heap_used L2 = heap_used L1 + 45 + length ?t"
      "literals_at at mtest_texts st2" "uart_out st2 = uart_out st1" "cstr (mem st2) d' ?t"
      "set L1 \<subseteq> set L2" "\<And>x. client in_heap L1 x \<Longrightarrow> mem st2 x = mem st1 x" by metis
  have first: "string_at st2 L2 q d cap ?s"
    using n'(9,10) by (intro string_at_client [OF n(3) string_atD(1) [OF n'(3)]])
  have "length ?s < unat cap" using n(9) by simp
  from cstr_client [OF n(8) string_atD(3) [OF n(3)] this n'(10)] have c: "cstr (mem st2) d ?s" .
  have out: "say stack at tab_s [d] st2 = Some (said (9 # ?s @ [c_newline]) st2)"
    "say stack at tab_s [d'] (said t st2) = Some (said (t @ 9 # ?t @ [c_newline]) st2)" for t
    using say_tab_s [OF n'(6) c _ assms(3)] say_tab_s [of at "said t st2" d' ?t stack] n'(6,8) s(2,4) assms(3)
    by simp_all
  let ?st = "said (9 # ?s @ c_newline # 9 # ?t @ [c_newline]) st2"
  let ?st3 = "free_str q ?st"
  have first': "string_at ?st L2 q d cap ?s" and fresh2: "fresh_heap ?st L2" using first n'(4) by simp_all
  note f = free_str_at [OF first']
  have second: "string_at ?st3 L2 q' d' cap' ?t"
    using n'(3) by (intro string_at_client [OF _ f(1) subset_refl f(3)]) simp
  have "mem ?st3 x = mem ?st x" if "\<not> in_heap x" for x using that by (intro f(3)) (simp add: client_def)
  moreover have "literals_at at mtest_texts ?st" using n'(6) by simp
  ultimately have "literals_at at mtest_texts ?st3" using literals_at_cong by blast
  from ready_free_str [OF this second f(4) [OF fresh2], of "u + 111"] f(2)
  have "mtest_ready at (u + 111) (free_str q' ?st3)" "uart_out (free_str q' ?st3) = uart_out ?st"
    using n'(5) n(5) fresh(2) s by simp_all
  moreover have "str_data (said t st2) q = d" "str_data (said t st2) q' = d'" for t
    using string_atD(5) [OF first] n'(2) by (simp_all add: str_data_def)
  then have "mtest_array stack at st = Some (free_str q' ?st3)"
    using n(1,2) n'(1,2) out string_atD(5) [OF first] by (simp add: mtest_array_def)
  moreover have "textln (CHR 0x09 # ''have you'') @ textln (CHR 0x09 # ''prayed today?'')
      = 9 # ?s @ c_newline # 9 # ?t @ [c_newline]" by (simp add: textln_def ascii_def)
  ultimately show ?thesis using n(7) n'(7) by (metis said_simps(3))
qed

lemma mtest_append_ok:
  assumes "mtest_ready at u st" and "u + 105 < HEAP_SIZE" and "stack \<noteq> 0"
  shows "\<exists>st' L'. mtest_append stack at st = Some st' \<and> heap_owns st' L'
    \<and> uart_out st' = uart_out st @ textln (CHR 0x09 # ''this is a test'')
        @ textln (CHR 0x09 # ''this is a test I AM BATMAN!'')"
proof -
  from assms(1) obtain L where lits: "literals_at at mtest_texts st" and fresh: "fresh_heap st L" "heap_used L \<le> u"
    by (auto simp: mtest_ready_def)
  let ?s = "ascii ''this is a test''" and ?t = "ascii '' I AM BATMAN!''"
  have s: "?s \<in> set mtest_texts" "length ?s = 14" "?t \<in> set mtest_texts" "length ?t = 13"
    by (simp_all add: mtest_texts_def ascii_def)
  then have "heap_used L + 45 + length ?s < HEAP_SIZE" using fresh(2) assms(2) by simp
  from new_string_block [OF lits fresh(1) s(1) this assms(3)] obtain q d cap L1 st1 where
    n: "string_new (at ?s) st = Some (q, st1)" "str_data st1 q = d"
      "string_at st1 L1 q d cap ?s" "fresh_heap st1 L1" "heap_used L1 = heap_used L + 45 + length ?s"
      "literals_at at mtest_texts st1" "uart_out st1 = uart_out st" "cstr (mem st1) d ?s"
      "say stack at tab_s [d] st1 = Some (said (9 # ?s @ [c_newline]) st1)"
      "unat cap = length ?s + 1" by metis
  let ?st1 = "said (9 # ?s @ [c_newline]) st1"
  have at1: "string_at ?st1 L1 q d cap ?s" and lits1: "literals_at at mtest_texts ?st1" using n(3,6) by simp_all
  have "0 \<notin> set ?s" using n(8) by (simp add: cstr_iff)
  moreover have "heap_used L1 + 16 + grown (unat cap) (length ?s + length ?t) < HEAP_SIZE"
    using n(5,10) fresh(2) assms(2) s(2,4) by (simp add: grown_def)
  ultimately obtain d' cap' L' st2 where
    a: "string_append q (at ?t) ?st1 = Some st2" "string_at st2 L' q d' cap' (?s @ ?t)"
      "cstr (mem st2) d' (?s @ ?t)" "uart_out st2 = uart_out ?st1" "\<forall>x. \<not> in_heap x \<longrightarrow> mem st2 x = mem ?st1 x"
    using append_literal [OF at1 mtest_literal [OF lits1 s(3)]] by blast
  have "literals_at at mtest_texts st2" using literals_at_cong [OF lits1] a(5) by blast
  moreover have "length (?s @ ?t) < 2 ^ 31" using s(2,4) by simp
  ultimately have out: "say stack at tab_s [d'] st2 = Some (said (9 # (?s @ ?t) @ [c_newline]) st2)"
    by (intro say_tab_s a(3) assms(3))
  let ?st3 = "said (9 # (?s @ ?t) @ [c_newline]) st2"
  have at3: "string_at ?st3 L' q d' cap' (?s @ ?t)" using a(2) by simp
  have "mtest_append stack at st = Some (free_str q ?st3)"
    using n(1,2,9) a(1) out string_atD(5) [OF a(2)] by (simp add: mtest_append_def)
  moreover have "textln (CHR 0x09 # ''this is a test'') @ textln (CHR 0x09 # ''this is a test I AM BATMAN!'')
      = (9 # ?s @ [c_newline]) @ 9 # (?s @ ?t) @ [c_newline]" by (simp add: textln_def ascii_def)
  moreover have "uart_out (free_str q ?st3) = uart_out st @ (9 # ?s @ [c_newline]) @ 9 # (?s @ ?t) @ [c_newline]"
    using free_str_at(2) [OF at3] a(4) n(7) by (simp only: said_simps append_assoc)
  ultimately show ?thesis using free_str_at(1) [OF at3] by metis
qed

section \<open>Properties\<close>

text \<open>
  The whole program \<open>mtest\<close>, from a heap that is zero as the emulator's memory is at the start:
  it runs to its end and returns 0, no allocation fails, and the console shows exactly the texts
  it built, the unterminated ones included. (Where memory is not zero behind a string, \<open>printf\<close>
  goes on printing what is there.)
\<close>

theorem mtest_main_transcript:
  assumes "literals_at at mtest_texts st" and "mem_head st = 0" and "heap_end st = 0"
    and "\<forall>x. in_heap x \<longrightarrow> mem st x = 0" and "stack \<noteq> 0"
  shows "\<exists>st'. mtest_main stack at st = Some (0, st') \<and> uart_out st' = uart_out st @ mtest_output"
proof -
  have "fresh_heap st []" using assms(2-4) in_heap_adr by (simp add: fresh_heap_def)
  then have r0: "mtest_ready at 0 st" using assms(1) by (fastforce simp: mtest_ready_def)
  have lit: "textln s \<in> set mtest_texts \<and> c_percent \<notin> set (ascii s) \<and> length s < 2 ^ 30"
    if "s \<in> {''malloc test'', ''malloc test passed'', ''calloc test'', ''calloc test passed'', ''string test'',
      ''string test passed'', ''string_new_len test'', ''string_new_len test passed''}" for s
    using that by (auto simp: mtest_texts_def ascii_def)
  have say: "say stack at (textln s) [] st' = Some (said (textln s) st')"
    if "mtest_ready at u st'" and "s \<in> {''malloc test'', ''malloc test passed'', ''calloc test'',
      ''calloc test passed'', ''string test'', ''string test passed'', ''string_new_len test'',
      ''string_new_len test passed''}" for s u st'
    using mtest_say [OF that(1) _ _ _ assms(5)] lit [OF that(2)] by blast
  let ?st0 = "said (textln ''malloc test'') st"
  from mtest_malloc_ok [of at 0 ?st0 stack] r0 assms(5) obtain st1 where
    b1: "mtest_malloc stack at ?st0 = Some (True, st1)" "mtest_ready at 56 st1"
      "uart_out st1 = uart_out ?st0 @ textln (CHR 0x09 # ''hey there!'')" by (auto simp: HEAP_SIZE_def)
  let ?st1 = "said (textln ''malloc test passed'' @ textln ''calloc test'') st1"
  from mtest_calloc_ok [of at 56 ?st1 stack] b1(2) assms(5) obtain st2 where
    b2: "mtest_calloc stack at ?st1 = Some (True, st2)" "mtest_ready at 83 st2"
      "uart_out st2 = uart_out ?st1 @ textln (CHR 0x09 # ''hey where!'')" by (auto simp: HEAP_SIZE_def)
  let ?st2 = "said (textln ''calloc test passed'' @ textln ''string test'') st2"
  from mtest_string_ok [of at 83 ?st2 stack] b2(2) assms(5) obtain st3 where
    b3: "mtest_string stack at ?st2 = Some (True, st3)" "mtest_ready at 145 st3"
      "uart_out st3 = uart_out ?st2 @ textln (CHR 0x09 # ''isn't doom great?'')" by (auto simp: HEAP_SIZE_def)
  let ?st3 = "said (textln ''string test passed'' @ textln ''string_new_len test'') st3"
  from mtest_string_len_ok [of at 145 ?st3 stack] b3(2) assms(5) obtain st4 where
    b4: "mtest_string_len stack at ?st3 = Some st4" "mtest_ready at 204 st4"
      "uart_out st4 = uart_out ?st3 @ textln (CHR 0x09 # ''this is a test'')" by (auto simp: HEAP_SIZE_def)
  let ?st4 = "said (textln ''string_new_len test passed'') st4"
  from mtest_array_ok [of at 204 ?st4 stack] b4(2) assms(5) obtain st5 where
    b5: "mtest_array stack at ?st4 = Some st5" "mtest_ready at 315 st5"
      "uart_out st5 = uart_out ?st4 @ textln (CHR 0x09 # ''have you'') @ textln (CHR 0x09 # ''prayed today?'')"
    by (auto simp: HEAP_SIZE_def)
  from mtest_append_ok [of at 315 st5 stack] b5(2) assms(5) obtain st6 L where
    b6: "mtest_append stack at st5 = Some st6" "heap_owns st6 L"
      "uart_out st6 = uart_out st5 @ textln (CHR 0x09 # ''this is a test'')
         @ textln (CHR 0x09 # ''this is a test I AM BATMAN!'')" by (auto simp: HEAP_SIZE_def)
  obtain t where d: "debug_heap st6 = Some t" using debug_heap_returns [OF b6(2)] by blast
  note says = say [OF r0] say [OF b1(2)] say [OF b2(2)] say [OF b3(2)] say [OF b4(2)]
    say [of _ "said _ st1", OF mtest_ready_said [THEN iffD2, OF b1(2)]]
    say [of _ "said _ st2", OF mtest_ready_said [THEN iffD2, OF b2(2)]]
    say [of _ "said _ st3", OF mtest_ready_said [THEN iffD2, OF b3(2)]]
  have "mtest_main stack at st = Some (0, st6)"
    by (simp add: mtest_main_def says b1(1) b2(1) b3(1) b4(1) b5(1) b6(1) d)
  moreover have "uart_out st6 = uart_out st @ mtest_output"
    using b1(3) b2(3) b3(3) b4(3) b5(3) b6(3) by (simp add: mtest_output_def)
  ultimately show ?thesis by blast
qed

definition mtest_at :: rodata where "mtest_at = place 1000 mtest_texts"

theorem mtest_main_transcript_witness:
  "\<exists>st'. mtest_main 4 mtest_at (boot (lay_out 1000 mtest_texts (\<lambda>_. 0))) = Some (0, st')
    \<and> uart_out st' = mtest_output"
proof -
  let ?st = "boot (lay_out 1000 mtest_texts (\<lambda>_. 0))"
  have sz: "unat (1000 :: u32) + image_size mtest_texts < 2 ^ 31"
    by (simp add: mtest_texts_def tab_s_def textln_def ascii_def)
  have nz: "\<forall>s \<in> set mtest_texts. 0 \<notin> set s" by (simp add: mtest_texts_def tab_s_def textln_def ascii_def)
  have "literals_at mtest_at mtest_texts ?st"
    unfolding mtest_at_def using sz nz by (intro literals_lay_out) simp_all
  moreover have "mem ?st x = 0" if "in_heap x" for x using lay_out_high [OF sz that] by simp
  ultimately show ?thesis using mtest_main_transcript [of mtest_at ?st 4] by simp
qed

end
