(* ===== verification/Programs.thy ===== *)
theory Programs
  imports Console
begin

text \<open>
  The small programs of \<open>c_test\<close>: the page table of \<open>vaddr.c\<close>, the echo loop of \<open>echo_out.c\<close>,
  \<open>hello.c\<close>, \<open>global.c\<close> with its static message, and the exit code of \<open>test.c\<close>.
\<close>

section \<open>vaddr.c\<close>

definition BASE_ADDR :: u32 where "BASE_ADDR = 0x80002000"
definition PAGE_SIZE :: u32 where "PAGE_SIZE = 4096"
definition SATP_SV32 :: u32 where "SATP_SV32 = push_bit 31 1"

definition MAKE_SATP :: "u32 \<Rightarrow> u32" where
  "MAKE_SATP pagetable = SATP_SV32 OR drop_bit 12 pagetable"

definition table_entry :: "u32 \<Rightarrow> u32" where
  "table_entry i = (BASE_ADDR + PAGE_SIZE * i) OR 1"

definition ptable_init :: "machine \<Rightarrow> u32 \<times> machine" where
  "ptable_init st = (BASE_ADDR,
     for_up 0 1024 (\<lambda>i st. st\<lparr>mem := store32 (BASE_ADDR + 4 * i) (table_entry i) (mem st)\<rparr>) st)"

text \<open>
  \<open>main\<close>: the value written to \<open>satp\<close> by \<open>w_satp\<close>, the exit code and the machine. The locals
  \<open>a\<close> and \<open>b\<close> are accessed through the pointers \<open>ap\<close> and \<open>bp\<close>.
\<close>

definition vaddr_main :: "machine \<Rightarrow> u32 \<times> u32 \<times> machine" where
  "vaddr_main st =
     (let (ptable, st) = ptable_init st;
          satp = MAKE_SATP ptable;
          a = (1 :: u32); b = 2;
          a = (4 :: u32);
          c = a + b
      in (satp, c, st))"

section \<open>echo_out.c\<close>

definition echo_char :: "byte \<Rightarrow> byte" where
  "echo_char c = (if 97 \<le> c \<and> c \<le> 122 then c + 65 - 97 else c)"

definition echo_round :: "machine \<Rightarrow> machine option" where
  "echo_round st = do { (c, st) \<leftarrow> UART_read st; Some (UART_write (echo_char c) st) }"

text \<open>The first \<open>n\<close> rounds of the endless loop.\<close>

fun echo_rounds :: "nat \<Rightarrow> machine \<Rightarrow> machine option" where
  "echo_rounds 0 st = Some st"
| "echo_rounds (Suc n) st = do { st \<leftarrow> echo_round st; echo_rounds n st }"

section \<open>global.c and test.c\<close>

text \<open>The static pointer \<open>global_string\<close> is the state.\<close>

definition get_msg :: "u32 \<Rightarrow> u32 \<Rightarrow> u32 \<times> u32" where
  "get_msg nmsg global_string =
     (let global_string = (if nmsg \<noteq> 0 then nmsg else global_string) in (global_string, global_string))"

text \<open>\<open>main\<close>; the two words of the \<open>double\<close> 100.4 are passed for \<open>%f\<close>.\<close>

definition msg_format :: "byte list" where
  "msg_format = textln ''Message: {%s}''"

definition num_format :: "byte list" where
  "num_format = textln ''Number: {%f}''"

definition global_main :: "u32 \<Rightarrow> rodata \<Rightarrow> machine \<Rightarrow> (u32 \<times> machine) option" where
  "global_main stack at st = do {
     let global_string = at (ascii ''Hello, world!'');
     let (m, global_string) = get_msg 0 global_string;
     st \<leftarrow> say stack at msg_format [m] st;
     let (m, global_string) = get_msg (at (ascii ''Goodbye, world!'')) global_string;
     st \<leftarrow> say stack at msg_format [m] st;
     st \<leftarrow> say stack at num_format [0x9999999A, 0x40591999] st;
     Some (0, st)
   }"

definition global_texts :: "byte list list" where
  "global_texts = [msg_format, num_format, ascii ''Hello, world!'', ascii ''Goodbye, world!'']"

definition hello_main :: "u32 \<Rightarrow> rodata \<Rightarrow> machine \<Rightarrow> (u32 \<times> machine) option" where
  "hello_main stack at st = do {
     st \<leftarrow> say stack at (textln ''Hello, World!'') [] st;
     Some (0, st)
   }"

definition test_main :: u32 where "test_main = 31"

section \<open>Lemmas\<close>

lemma four_times: "i < (1024 :: u32) \<Longrightarrow> unat (4 * i) = 4 * unat i"
  by (simp add: unat_mult_lem [THEN iffD1] word_less_nat_alt)

lemma entries_apart:
  assumes "i < (1024 :: u32)" "j < 1024" "i \<noteq> j"
  shows "apart (BASE_ADDR + 4 * j) 4 (BASE_ADDR + 4 * i) 4"
proof -
  have "unat i \<noteq> unat j" "unat i < 1024" "unat j < 1024"
    using assms by (simp_all add: word_less_nat_alt word_unat_eq_iff)
  then have "4 \<le> 4 * i - 4 * j \<and> 4 \<le> 4 * j - 4 * i"
    using four_times [OF assms(1)] four_times [OF assms(2)]
    by (auto simp: word_le_nat_alt unat_sub_if')
  then show ?thesis by (simp add: apart_def)
qed

lemma table_entries:
  assumes "n \<le> 1024"
  shows "\<forall>i < n. load32 (mem (for_up 0 n (\<lambda>i st. st\<lparr>mem := store32 (BASE_ADDR + 4 * i) (table_entry i) (mem st)\<rparr>) st))
      (BASE_ADDR + 4 * i) = table_entry i"
proof (rule for_up_inv [where P = "\<lambda>n s. \<forall>i < n. load32 (mem s) (BASE_ADDR + 4 * i) = table_entry i"])
  fix j :: u32 and s
  assume j: "j < n" and IH: "\<forall>i < j. load32 (mem s) (BASE_ADDR + 4 * i) = table_entry i"
  show "\<forall>i < j + 1. load32 (mem (s\<lparr>mem := store32 (BASE_ADDR + 4 * j) (table_entry j) (mem s)\<rparr>))
      (BASE_ADDR + 4 * i) = table_entry i"
  proof (intro allI impI)
    fix i assume "i < j + 1"
    then have i: "i \<le> j" using less_add1_iff [OF j] by simp
    show "load32 (mem (s\<lparr>mem := store32 (BASE_ADDR + 4 * j) (table_entry j) (mem s)\<rparr>))
      (BASE_ADDR + 4 * i) = table_entry i"
    proof (cases "i = j")
      case False
      with i have "i < j" by simp
      have "apart (BASE_ADDR + 4 * j) 4 (BASE_ADDR + 4 * i) 4"
        using entries_apart [of i j] \<open>i < j\<close> j assms False by auto
      with \<open>i < j\<close> IH show ?thesis by (simp add: load32_store32_apart)
    qed (simp add: load32_store32)
  qed
qed auto

lemma echo_rounds_map:
  "echo_rounds (length cs) (st\<lparr>uart_in := cs @ rest\<rparr>)
    = Some (st\<lparr>uart_in := rest, uart_out := uart_out st @ map echo_char cs\<rparr>)"
proof (induction cs arbitrary: st)
  case (Cons c cs)
  have "echo_round (st\<lparr>uart_in := (c # cs) @ rest\<rparr>)
      = Some ((st\<lparr>uart_out := uart_out st @ [echo_char c]\<rparr>)\<lparr>uart_in := cs @ rest\<rparr>)"
    by (simp add: echo_round_def UART_read_def UART_write_def)
  with Cons.IH [of "st\<lparr>uart_out := uart_out st @ [echo_char c]\<rparr>"] show ?case by simp
qed simp

text \<open>\<open>%s\<close> and \<open>%f\<close> inside a text; the floating point argument is left over.\<close>

lemma directive_f: "directive (102 # cs) args = Some ([102], cs, args)"
  by (simp add: directive_def scan_def flag_of_def r_width_def r_precision_def r_length_def starts_def
      is_digit_def conv_text_def int_specifier_def)

lemma render_message: "render msg_format [Text p s] = Some (ascii ''Message: {'' @ s @ ascii ''}'' @ [c_newline])"
proof -
  have f: "msg_format = ascii ''Message: {'' @ c_percent # c_s # ascii ''}'' @ [c_newline]"
    by (simp add: msg_format_def textln_def ascii_def)
  show ?thesis unfolding f by (rule render_s_inside) (simp_all add: ascii_def)
qed

lemma render_f_inside:
  assumes "c_percent \<notin> set s" and "c_percent \<notin> set t"
  shows "render (s @ c_percent # 102 # t) args = Some (s @ 102 # t)"
  unfolding render_append [OF assms(1)] using render_plain [OF assms(2), of args] by (simp add: directive_f)

lemma render_number: "render num_format args = Some (textln ''Number: {f}'')"
proof -
  have f: "num_format = ascii ''Number: {'' @ c_percent # 102 # ascii ''}'' @ [c_newline]"
    "textln ''Number: {f}'' = ascii ''Number: {'' @ 102 # ascii ''}'' @ [c_newline]"
    by (simp_all add: num_format_def textln_def ascii_def)
  show ?thesis unfolding f by (rule render_f_inside) (simp_all add: ascii_def)
qed

lemma say_message:
  assumes "literals_at at global_texts st" and "s \<in> set global_texts" and "length s < 2 ^ 30" and "stack \<noteq> 0"
  shows "say stack at msg_format [at s] st = Some (said (ascii ''Message: {'' @ s @ ascii ''}'' @ [c_newline]) st)"
proof -
  have lit: "literal st (at s) s" using assms(1,2) by (simp add: literals_at_def)
  then have "0 \<notin> set s" by (simp add: literal_def cstr_iff)
  then have "0 \<notin> set (ascii ''Message: {'' @ s @ ascii ''}'' @ [c_newline])" by (simp add: ascii_def)
  moreover have "length (ascii ''Message: {'' @ s @ ascii ''}'' @ [c_newline]) < 2 ^ 32 - 1"
    using assms(3) by (simp add: ascii_def)
  moreover have "\<forall>a \<in> set [Text (at s) s]. arg_ok (\<lambda>_. True) (mem st) a"
    using lit by (simp add: arg_ok_def literal_def kept_str_def)
  moreover have "msg_format \<in> set global_texts" by (simp add: global_texts_def)
  ultimately show ?thesis
    using say_exact [OF assms(1) _ render_message [of "at s" s], of stack] assms(4) by simp
qed

lemma hello_main_prints:
  assumes "literals_at at [textln ''Hello, World!''] st" and "stack \<noteq> 0"
  shows "hello_main stack at st = Some (0, said (textln ''Hello, World!'') st)"
  using say_plain [OF assms(1) _ _ assms(2), of "textln ''Hello, World!''"]
  by (simp add: hello_main_def) (simp add: textln_def ascii_def)

lemma vaddr_main_result: "vaddr_main st = (MAKE_SATP BASE_ADDR, 6, snd (ptable_init st))"
  by (simp add: vaddr_main_def ptable_init_def)

section \<open>Properties\<close>

text \<open>
  The page table \<open>vaddr.c\<close> builds is not the identity mapping of its pages: each entry
  holds the page's address with the valid bit where Sv32 has the page number in bits 31 to 10.
  So every entry is a pointer to a next level table (R, W and X are 0), and the page number in
  it is four times the intended one, cut to 20 bits: the table at \<open>4 * address mod 2^32\<close>.
\<close>

theorem vaddr_table_entries:
  assumes "i < 1024"
  shows "load32 (mem (snd (ptable_init st))) (BASE_ADDR + 4 * i) = table_entry i
    \<and> table_entry i AND 15 = 1
    \<and> push_bit 12 (drop_bit 10 (table_entry i)) = 4 * (BASE_ADDR + PAGE_SIZE * i)"
proof (intro conjI)
  show "load32 (mem (snd (ptable_init st))) (BASE_ADDR + 4 * i) = table_entry i"
    using table_entries [of 1024 st] assms by (simp add: ptable_init_def)
  have base: "BASE_ADDR + PAGE_SIZE * i = push_bit 12 (0x80002 + i)"
    by (simp add: BASE_ADDR_def PAGE_SIZE_def push_bit_eq_mult algebra_simps)
  show "table_entry i AND 15 = 1"
  proof -
    have "push_bit 12 (0x80002 + i) AND mask 4 = take_bit 4 (push_bit 12 (0x80002 + i))"
      by (simp only: take_bit_eq_mask)
    then have "push_bit 12 (0x80002 + i) AND 15 = 0"
      by (simp add: take_bit_push_bit mask_eq_exp_minus_1)
    then show ?thesis unfolding table_entry_def base by (simp add: bit.conj_disj_distrib2)
  qed
  show "push_bit 12 (drop_bit 10 (table_entry i)) = 4 * (BASE_ADDR + PAGE_SIZE * i)"
  proof -
    have "push_bit 12 (drop_bit 10 (table_entry i)) = push_bit 2 (push_bit 12 (0x80002 + i))"
      unfolding table_entry_def base
      by (rule bit_word_eqI) (auto simp: bit_simps)
    then show ?thesis unfolding base by (simp add: push_bit_eq_mult)
  qed
qed

theorem vaddr_table_entries_witness:
  "load32 (mem (snd (ptable_init (boot (\<lambda>_. 0))))) (BASE_ADDR + 4 * 3) = 0x80005001
   \<and> push_bit 12 (drop_bit 10 (table_entry 3)) = 0x14000"
  using vaddr_table_entries [of 3 "boot (\<lambda>_. 0)"] by (simp add: BASE_ADDR_def PAGE_SIZE_def table_entry_def)

text \<open>
  The program \<open>global\<close>: the static pointer of \<open>get_msg\<close> starts at the first message, keeps the
  second one once it was set, and \<open>%f\<close>, which is not compiled in, prints the letter \<open>f\<close> instead of
  the number.
\<close>

theorem global_main_transcript:
  assumes "literals_at at global_texts st" and "at (ascii ''Goodbye, world!'') \<noteq> 0" and "stack \<noteq> 0"
  shows "\<exists>st'. global_main stack at st = Some (0, st') \<and> uart_out st' = uart_out st
    @ textln ''Message: {Hello, world!}'' @ textln ''Message: {Goodbye, world!}'' @ textln ''Number: {f}''"
proof -
  let ?h = "ascii ''Hello, world!''" and ?g = "ascii ''Goodbye, world!''"
  let ?mh = "ascii ''Message: {'' @ ?h @ ascii ''}'' @ [c_newline]" and ?mg = "ascii ''Message: {'' @ ?g @ ascii ''}'' @ [c_newline]"
  have "?h \<in> set global_texts" "?g \<in> set global_texts" "length ?h < 2 ^ 30" "length ?g < 2 ^ 30"
    by (simp_all add: global_texts_def ascii_def)
  then have m: "say stack at msg_format [at ?h] st = Some (said ?mh st)"
    "say stack at msg_format [at ?g] (said ?mh st) = Some (said (?mh @ ?mg) st)"
    using say_message [OF assms(1), of ?h stack] say_message [of at "said ?mh st" ?g stack] assms(1,3) by simp_all
  have "num_format \<in> set global_texts" "length (textln ''Number: {f}'') < 2 ^ 32 - 1" "0 \<notin> set (textln ''Number: {f}'')"
    by (simp_all add: global_texts_def) (simp_all add: textln_def ascii_def)
  then have "say stack at num_format [0x9999999A, 0x40591999] (said (?mh @ ?mg) st)
      = Some (said (?mh @ ?mg @ textln ''Number: {f}'') st)"
    using say_exact [of at global_texts "said (?mh @ ?mg) st" num_format "[Num 0x9999999A, Num 0x40591999]"
        "textln ''Number: {f}''" stack] render_number assms(1,3)
    by (simp add: arg_ok_def)
  with m assms(2) have "global_main stack at st = Some (0, said (?mh @ ?mg @ textln ''Number: {f}'') st)"
    by (simp add: global_main_def get_msg_def Let_def)
  moreover have "textln ''Message: {Hello, world!}'' = ?mh" "textln ''Message: {Goodbye, world!}'' = ?mg"
    by (simp_all add: textln_def ascii_def)
  ultimately show ?thesis by simp
qed

theorem global_main_transcript_witness:
  "\<exists>st'. global_main 4 (place 1000 global_texts) (boot (lay_out 1000 global_texts (\<lambda>_. 0))) = Some (0, st')
    \<and> uart_out st' = textln ''Message: {Hello, world!}'' @ textln ''Message: {Goodbye, world!}'' @ textln ''Number: {f}''"
proof -
  have sz: "unat (1000 :: u32) + image_size global_texts < 2 ^ 31"
    and nz: "\<forall>s \<in> set global_texts. 0 \<notin> set s"
    by (simp_all add: global_texts_def msg_format_def num_format_def textln_def ascii_def)
  have "ascii ''Goodbye, world!'' \<in> set global_texts" by (simp add: global_texts_def)
  from place_bounds [OF sz this] have "place 1000 global_texts (ascii ''Goodbye, world!'') \<noteq> 0" by auto
  moreover have "literals_at (place 1000 global_texts) global_texts (boot (lay_out 1000 global_texts (\<lambda>_. 0)))"
    using sz nz by (intro literals_lay_out) simp_all
  ultimately show ?thesis
    using global_main_transcript [of "place 1000 global_texts" "boot (lay_out 1000 global_texts (\<lambda>_. 0))" 4] by simp
qed

end
