(* ===== verification/Device.thy ===== *)
theory Device
  imports Prelude "HOL-Library.Monad_Syntax"
begin

text \<open>
  What the emulated devices (\<open>src/devices\<close>, Rust) share: the sizes of an access, the exceptions a
  device raises and the results of its operations. A Rust function that returns
  \<open>Result<T, Exception>\<close> is an \<open>outcome\<close>: \<open>None\<close> is a panic, which ends the emulator,
  \<open>Some (Inl e)\<close> is \<open>Err(e)\<close> and \<open>Some (Inr x)\<close> is \<open>Ok(x)\<close>.

  Arithmetic that is not written with the \<open>wrapping_\<close> functions panics on overflow when the
  emulator is built with overflow checks (the debug profile) and wraps when it is not (the release
  profile). The build is the first argument \<open>checked\<close> of the definitions it matters for. Indexing
  an array out of its bounds panics in both.
\<close>

unbundle bit_operations_syntax

type_synonym u64 = "64 word"

datatype sizes = Byte | HalfWord | Word

datatype exception = LoadAccessFault | StoreAccessFault

type_synonym 'a outcome = "(exception + 'a) option"

abbreviation Ok :: "'a \<Rightarrow> ('e + 'a) option" where "Ok x \<equiv> Some (Inr x)"
abbreviation Err :: "'e \<Rightarrow> ('e + 'a) option" where "Err e \<equiv> Some (Inl e)"
abbreviation panic :: "'a option" where "panic \<equiv> None"

text \<open>The \<open>?\<close> of Rust.\<close>

definition attempt :: "('e + 'a) option \<Rightarrow> ('a \<Rightarrow> ('e + 'b) option) \<Rightarrow> ('e + 'b) option" where
  "attempt m f = (case m of None \<Rightarrow> None | Some (Inl e) \<Rightarrow> Err e | Some (Inr x) \<Rightarrow> f x)"

lemma attempt_simps [simp]: "attempt None f = None" "attempt (Err e) f = Err e" "attempt (Ok x) f = f x"
  by (simp_all add: attempt_def)

lemma attempt_eq_Ok: "attempt m f = Ok y \<longleftrightarrow> (\<exists>x. m = Ok x \<and> f x = Ok y)"
  by (auto simp: attempt_def split: option.splits sum.splits)

section \<open>Checked arithmetic\<close>

definition u_add :: "bool \<Rightarrow> u32 \<Rightarrow> u32 \<Rightarrow> u32 option" where
  "u_add checked a b = (if checked \<and> a + b < a then panic else Some (a + b))"

definition u_mul :: "bool \<Rightarrow> u32 \<Rightarrow> u32 \<Rightarrow> u32 option" where
  "u_mul checked a b = (if checked \<and> 2 ^ 32 \<le> unat a * unat b then panic else Some (a * b))"

definition u_shl :: "bool \<Rightarrow> u32 \<Rightarrow> u32 \<Rightarrow> u32 option" where
  "u_shl checked a n = (if checked \<and> 32 \<le> n then panic else Some (push_bit (unat (n AND 31)) a))"

definition u_shr :: "bool \<Rightarrow> u32 \<Rightarrow> u32 \<Rightarrow> u32 option" where
  "u_shr checked a n = (if checked \<and> 32 \<le> n then panic else Some (drop_bit (unat (n AND 31)) a))"

lemma u_add_exact: "unat a + unat b < 2 ^ 32 \<Longrightarrow> u_add checked a b = Some (a + b)"
  by (simp add: u_add_def no_olen_add_nat [symmetric] not_less no_olen_add_nat [THEN iffD2])

lemma u_mul_exact: "unat a * unat b < 2 ^ 32 \<Longrightarrow> u_mul checked a b = Some (a * b)"
  by (simp add: u_mul_def)

lemma u_shl_exact: "n < 32 \<Longrightarrow> u_shl checked a n = Some (push_bit (unat n) a)"
proof -
  assume n: "n < 32"
  have "n AND 31 = take_bit 5 n" by (simp add: take_bit_eq_mask mask_eq_exp_minus_1)
  moreover have "unat (take_bit 5 n) = unat n"
    using n by (simp add: unsigned_take_bit_eq take_bit_nat_eq_self word_less_nat_alt)
  ultimately show ?thesis using n by (simp add: u_shl_def not_le [symmetric])
qed

section \<open>Arrays\<close>

text \<open>Fixed arrays are lists of the right length; an index out of bounds panics.\<close>

definition at_index :: "'a list \<Rightarrow> u32 \<Rightarrow> 'a option" where
  "at_index xs i = (if unat i < length xs then Some (xs ! unat i) else panic)"

definition set_index :: "'a list \<Rightarrow> u32 \<Rightarrow> 'a \<Rightarrow> 'a list option" where
  "set_index xs i x = (if unat i < length xs then Some (xs[unat i := x]) else panic)"

lemma set_index_length: "set_index xs i x = Some ys \<Longrightarrow> length ys = length xs"
  by (auto simp: set_index_def split: if_splits)

lemma set_index_eq: "set_index xs i x = Some ys \<longleftrightarrow> unat i < length xs \<and> ys = xs[unat i := x]"
  by (auto simp: set_index_def)

lemma at_index_eq: "at_index xs i = Some x \<longleftrightarrow> unat i < length xs \<and> x = xs ! unat i"
  by (auto simp: at_index_def)

text \<open>The bit of a number below 32 in a register.\<close>

lemma bit_OR_exp: "n < LENGTH('a :: len) \<Longrightarrow> bit (w OR 2 ^ n :: 'a word) k \<longleftrightarrow> bit w k \<or> k = n"
  by (auto simp: bit_or_iff bit_exp_iff)

lemma bit_AND_NOT_exp: "n < LENGTH('a :: len) \<Longrightarrow> bit (w AND NOT (2 ^ n) :: 'a word) k \<longleftrightarrow> bit w k \<and> k \<noteq> n"
  by (auto simp: bit_and_iff bit_not_iff bit_exp_iff dest: bit_imp_le_length)

lemma ucast_byte [simp]: "ucast (ucast (c :: byte) :: u32) = c"
  by (rule bit_word_eqI) (simp add: bit_simps)

lemma AND_1_eq: "(w AND 1 = 1) \<longleftrightarrow> bit (w :: 'a :: len word) 0"
  by (simp add: bit_0 odd_iff_mod_2_eq_one and_one_eq)

section \<open>The CSR file of the CPU\<close>

text \<open>
  The CPU is the crate \<open>riscv_vm\<close>; the devices use its control and status registers through
  \<open>read\<close> and \<open>write\<close> and its constants. They are a parameter of the model.
\<close>

record 'c csr_file =
  csr_read :: "'c \<Rightarrow> u32 \<Rightarrow> u32"
  csr_write :: "'c \<Rightarrow> u32 \<Rightarrow> u32 \<Rightarrow> 'c"
  TIME :: u32
  MIP :: u32
  MIE :: u32
  MSTATUS :: u32
  SSTATUS :: u32
  SSIP_BIT :: u32
  MSIP_BIT :: u32
  STIP_BIT :: u32
  MTIP_BIT :: u32
  SEIP_BIT :: u32
  MEIP_BIT :: u32

text \<open>
  What the privileged architecture documents: a register keeps what is written to it, \<open>TIME\<close>, \<open>MIP\<close>
  and \<open>MIE\<close> are different registers, and the interrupts have these bits.
\<close>

definition csr_laws :: "'c csr_file \<Rightarrow> bool" where
  "csr_laws F \<longleftrightarrow>
     (\<forall>c v. csr_read F (csr_write F c (MIP F) v) (MIP F) = v)
   \<and> (\<forall>c v. csr_read F (csr_write F c (TIME F) v) (TIME F) = v)
   \<and> (\<forall>c v. csr_read F (csr_write F c (TIME F) v) (MIP F) = csr_read F c (MIP F))
   \<and> (\<forall>c v. csr_read F (csr_write F c (MIP F) v) (TIME F) = csr_read F c (TIME F))
   \<and> (\<forall>c v. csr_read F (csr_write F c (MIP F) v) (MIE F) = csr_read F c (MIE F))
   \<and> SSIP_BIT F = 2 ^ 1 \<and> MSIP_BIT F = 2 ^ 3 \<and> STIP_BIT F = 2 ^ 5
   \<and> MTIP_BIT F = 2 ^ 7 \<and> SEIP_BIT F = 2 ^ 9 \<and> MEIP_BIT F = 2 ^ 11"

lemma csr_lawsD [simp]:
  assumes "csr_laws F"
  shows "csr_read F (csr_write F c (MIP F) v) (MIP F) = v"
    "csr_read F (csr_write F c (TIME F) v) (TIME F) = v"
    "csr_read F (csr_write F c (TIME F) v) (MIP F) = csr_read F c (MIP F)"
    "csr_read F (csr_write F c (MIP F) v) (TIME F) = csr_read F c (TIME F)"
    "csr_read F (csr_write F c (MIP F) v) (MIE F) = csr_read F c (MIE F)"
  using assms by (simp_all add: csr_laws_def)

lemma csr_bits:
  assumes "csr_laws F"
  shows "SSIP_BIT F = 2 ^ 1" "MSIP_BIT F = 2 ^ 3" "STIP_BIT F = 2 ^ 5"
    "MTIP_BIT F = 2 ^ 7" "SEIP_BIT F = 2 ^ 9" "MEIP_BIT F = 2 ^ 11"
  using assms by (simp_all only: csr_laws_def)

text \<open>A register file that satisfies them: a map from register numbers to values.\<close>

definition plain_csrs :: "(u32 \<Rightarrow> u32) csr_file" where
  "plain_csrs = \<lparr>csr_read = (\<lambda>c. c), csr_write = (\<lambda>c a v. c(a := v)),
     TIME = 0xC01, MIP = 0x344, MIE = 0x304, MSTATUS = 0x300, SSTATUS = 0x100,
     SSIP_BIT = 2 ^ 1, MSIP_BIT = 2 ^ 3, STIP_BIT = 2 ^ 5, MTIP_BIT = 2 ^ 7, SEIP_BIT = 2 ^ 9, MEIP_BIT = 2 ^ 11\<rparr>"

lemma plain_csrs_laws: "csr_laws plain_csrs"
  by (simp add: csr_laws_def plain_csrs_def)

end
