(* ===== verification/OpTests.thy ===== *)
theory OpTests
  imports Console Device "HOL-Library.Signed_Division"
begin

text \<open>
  The program \<open>c_test/op_tests.c\<close>, which checks the operators of C and the instructions on control
  and status registers. Each macro is a definition. Two things stand outside of the repository and are
  parameters: the function \<open>assert_eq\<close>, which no file of it defines, and the registers of the CPU,
  through \<open>csr_file\<close>.
\<close>

section \<open>Operators\<close>

datatype bin_op = O_add | O_sub | O_mul | O_div | O_mod | O_xor | O_and | O_or | O_shl | O_shr
  | O_land | O_lor | O_eq | O_ne | O_lt | O_gt | O_le | O_ge

datatype un_op = U_neg | U_not | U_lnot

text \<open>The text of an operator, \<open>#op\<close> in the macros.\<close>

fun op_text :: "bin_op \<Rightarrow> string" where
  "op_text O_add = ''+''" | "op_text O_sub = ''-''" | "op_text O_mul = ''*''" | "op_text O_div = ''/''"
| "op_text O_mod = ''%''" | "op_text O_xor = ''^''" | "op_text O_and = ''&''" | "op_text O_or = ''|''"
| "op_text O_shl = ''<<''" | "op_text O_shr = ''>>''" | "op_text O_land = ''&&''" | "op_text O_lor = ''||''"
| "op_text O_eq = ''==''" | "op_text O_ne = ''!=''" | "op_text O_lt = ''<''" | "op_text O_gt = ''>''"
| "op_text O_le = ''<=''" | "op_text O_ge = ''>=''"

fun un_text :: "un_op \<Rightarrow> string" where
  "un_text U_neg = ''-''" | "un_text U_not = ''~''" | "un_text U_lnot = ''!''"

definition c_bool :: "bool \<Rightarrow> u32" where
  "c_bool b = (if b then 1 else 0)"

text \<open>The value of \<open>x op y\<close> on \<open>int\<close>; \<open>None\<close> for a division by zero and a shift by the width or more.\<close>

fun eval_bin :: "bin_op \<Rightarrow> u32 \<Rightarrow> u32 \<Rightarrow> u32 option" where
  "eval_bin O_add x y = Some (x + y)"
| "eval_bin O_sub x y = Some (x - y)"
| "eval_bin O_mul x y = Some (x * y)"
| "eval_bin O_div x y = (if y = 0 then None else Some (word_of_int (sint x sdiv sint y)))"
| "eval_bin O_mod x y = (if y = 0 then None else Some (word_of_int (sint x smod sint y)))"
| "eval_bin O_xor x y = Some (x XOR y)"
| "eval_bin O_and x y = Some (x AND y)"
| "eval_bin O_or x y = Some (x OR y)"
| "eval_bin O_shl x y = (if y < 32 then Some (push_bit (unat y) x) else None)"
| "eval_bin O_shr x y = (if y < 32 then Some (signed_drop_bit (unat y) x) else None)"
| "eval_bin O_land x y = Some (c_bool (x \<noteq> 0 \<and> y \<noteq> 0))"
| "eval_bin O_lor x y = Some (c_bool (x \<noteq> 0 \<or> y \<noteq> 0))"
| "eval_bin O_eq x y = Some (c_bool (x = y))"
| "eval_bin O_ne x y = Some (c_bool (x \<noteq> y))"
| "eval_bin O_lt x y = Some (c_bool (sint x < sint y))"
| "eval_bin O_gt x y = Some (c_bool (sint x > sint y))"
| "eval_bin O_le x y = Some (c_bool (sint x \<le> sint y))"
| "eval_bin O_ge x y = Some (c_bool (sint x \<ge> sint y))"

fun eval_un :: "un_op \<Rightarrow> u32 \<Rightarrow> u32" where
  "eval_un U_neg x = - x"
| "eval_un U_not x = NOT x"
| "eval_un U_lnot x = c_bool (x = 0)"

section \<open>The macros of the operators\<close>

text \<open>\<open>assert_eq\<close> returns or, with \<open>None\<close>, does not.\<close>

type_synonym assertion = "u32 \<Rightarrow> u32 \<Rightarrow> machine \<Rightarrow> machine option"

definition bin_format :: "byte list" where
  "bin_format = textln ''Testing Operation %s with x = %d and y = %d''"

definition un_format :: "byte list" where
  "un_format = textln ''Testing Operation %s with x = %d''"

definition check_format :: "byte list" where
  "check_format = textln ''Checking %d == %d''"

definition csr_format :: "byte list" where
  "csr_format = textln ''Testing CSR %s''"

definition TEST :: "assertion \<Rightarrow> u32 \<Rightarrow> rodata \<Rightarrow> bin_op \<Rightarrow> u32 \<Rightarrow> u32 \<Rightarrow> u32 \<Rightarrow> machine \<Rightarrow> machine option" where
  "TEST assert_eq stack at op expected x y st = do {
     st \<leftarrow> say stack at bin_format [at (ascii (op_text op)), x, y] st;
     v \<leftarrow> eval_bin op x y;
     assert_eq v expected st
   }"

definition TEST_UN :: "assertion \<Rightarrow> u32 \<Rightarrow> rodata \<Rightarrow> un_op \<Rightarrow> u32 \<Rightarrow> u32 \<Rightarrow> machine \<Rightarrow> machine option" where
  "TEST_UN assert_eq stack at op expected x st = do {
     st \<leftarrow> say stack at un_format [at (ascii (un_text op)), x] st;
     assert_eq (eval_un op x) expected st
   }"

definition test_un_ops :: "assertion \<Rightarrow> u32 \<Rightarrow> rodata \<Rightarrow> machine \<Rightarrow> machine option" where
  "test_un_ops A stack at st = do {
     st \<leftarrow> say stack at (textln ''Running un_op_tests'') [] st;
     st \<leftarrow> TEST_UN A stack at U_neg (- 5) 5 st;
     st \<leftarrow> TEST_UN A stack at U_not (- 6) 5 st;
     st \<leftarrow> TEST_UN A stack at U_lnot 0 1 st;
     say stack at (textln ''All tests passed'') [] st
   }"

definition test_bin_ops :: "assertion \<Rightarrow> u32 \<Rightarrow> rodata \<Rightarrow> machine \<Rightarrow> machine option" where
  "test_bin_ops A stack at st = do {
     st \<leftarrow> say stack at (textln ''Running op_tests'') [] st;
     st \<leftarrow> TEST A stack at O_add 10 5 5 st;
     st \<leftarrow> TEST A stack at O_sub 0 5 5 st;
     st \<leftarrow> TEST A stack at O_mul 25 5 5 st;
     st \<leftarrow> TEST A stack at O_div 2 10 5 st;
     st \<leftarrow> TEST A stack at O_mod 0 5 5 st;
     st \<leftarrow> TEST A stack at O_xor 1 5 4 st;
     st \<leftarrow> TEST A stack at O_and 4 5 4 st;
     st \<leftarrow> TEST A stack at O_or 5 5 4 st;
     st \<leftarrow> TEST A stack at O_shl 10 5 1 st;
     st \<leftarrow> TEST A stack at O_shr 2 5 1 st;
     st \<leftarrow> TEST A stack at O_land 1 1 1 st;
     st \<leftarrow> TEST A stack at O_lor 1 1 0 st;
     st \<leftarrow> TEST A stack at O_eq 1 1 1 st;
     st \<leftarrow> TEST A stack at O_ne 1 1 0 st;
     st \<leftarrow> TEST A stack at O_lt 1 1 2 st;
     st \<leftarrow> TEST A stack at O_gt 1 2 1 st;
     st \<leftarrow> TEST A stack at O_le 1 1 2 st;
     st \<leftarrow> TEST A stack at O_ge 1 2 1 st;
     say stack at (textln ''All tests passed'') [] st
   }"

section \<open>Control and status registers\<close>

text \<open>
  The instructions, as the architecture defines them: \<open>csrrw\<close> writes its source, \<open>csrrs\<close> sets its
  bits and \<open>csrrc\<close> clears them, and all return the old value. With \<open>zero\<close> as the source \<open>csrrs\<close>
  and \<open>csrrc\<close> do not write. \<open>PUSH_CSR\<close> has \<open>zero\<close> as the destination, \<open>POP_CSR\<close> as the source.
\<close>

datatype csr_op = csrrw | csrrs | csrrc

fun csr_name :: "csr_op \<Rightarrow> string" where
  "csr_name csrrw = ''csrrw''" | "csr_name csrrs = ''csrrs''" | "csr_name csrrc = ''csrrc''"

definition MTVEC :: u32 where "MTVEC = 0x305"
definition SATP :: u32 where "SATP = 0x180"

fun PUSH_CSR :: "'c csr_file \<Rightarrow> csr_op \<Rightarrow> u32 \<Rightarrow> u32 \<Rightarrow> 'c \<Rightarrow> 'c" where
  "PUSH_CSR F csrrw r v c = csr_write F c r v"
| "PUSH_CSR F csrrs r v c = csr_write F c r (csr_read F c r OR v)"
| "PUSH_CSR F csrrc r v c = csr_write F c r (csr_read F c r AND NOT v)"

fun POP_CSR :: "'c csr_file \<Rightarrow> csr_op \<Rightarrow> u32 \<Rightarrow> 'c \<Rightarrow> u32 \<times> 'c" where
  "POP_CSR F csrrw r c = (csr_read F c r, csr_write F c r 0)"
| "POP_CSR F csrrs r c = (csr_read F c r, c)"
| "POP_CSR F csrrc r c = (csr_read F c r, c)"

definition check_int :: "assertion \<Rightarrow> u32 \<Rightarrow> rodata \<Rightarrow> u32 \<Rightarrow> u32 \<Rightarrow> machine \<Rightarrow> machine option" where
  "check_int assert_eq stack at x expected st = do {
     st \<leftarrow> say stack at check_format [x, expected] st;
     assert_eq x expected st
   }"

definition TEST_CSR :: "'c csr_file \<Rightarrow> assertion \<Rightarrow> u32 \<Rightarrow> rodata \<Rightarrow> csr_op \<Rightarrow> u32 \<Rightarrow> u32 \<Rightarrow> machine \<times> 'c
    \<Rightarrow> (machine \<times> 'c) option" where
  "TEST_CSR F A stack at csr v r = (\<lambda>(st, c). do {
     st \<leftarrow> say stack at csr_format [at (ascii (csr_name csr))] st;
     let c = PUSH_CSR F csr r v c;
     let (x, c) = POP_CSR F csr r c;
     st \<leftarrow> check_int A stack at x v st;
     Some (st, c)
   })"

definition test_csrs :: "'c csr_file \<Rightarrow> assertion \<Rightarrow> u32 \<Rightarrow> rodata \<Rightarrow> machine \<times> 'c \<Rightarrow> (machine \<times> 'c) option" where
  "test_csrs F A stack at = (\<lambda>(st, c). do {
     st \<leftarrow> say stack at (textln ''Running csr_tests'') [] st;
     (st, c) \<leftarrow> TEST_CSR F A stack at csrrw 5 MTVEC (st, c);
     (st, c) \<leftarrow> TEST_CSR F A stack at csrrs 5 MTVEC (st, c);
     (st, c) \<leftarrow> TEST_CSR F A stack at csrrc 5 SATP (st, c);
     st \<leftarrow> say stack at (textln ''All tests passed'') [] st;
     Some (st, c)
   })"

definition op_tests_main :: "'c csr_file \<Rightarrow> assertion \<Rightarrow> u32 \<Rightarrow> rodata \<Rightarrow> machine \<times> 'c \<Rightarrow> (u32 \<times> machine \<times> 'c) option" where
  "op_tests_main F A stack at = (\<lambda>(st, c). do {
     st \<leftarrow> test_bin_ops A stack at st;
     st \<leftarrow> test_un_ops A stack at st;
     (st, c) \<leftarrow> test_csrs F A stack at (st, c);
     Some (0, st, c)
   })"

section \<open>Assumptions\<close>

text \<open>
  What the program needs of its parameters: \<open>assert_eq\<close> returns on equal arguments and changes
  nothing, \<open>mtvec\<close> keeps 0 and 5, and \<open>satp\<close> keeps the bits 0 and 2 as they were written.
\<close>

definition assert_returns :: "assertion \<Rightarrow> bool" where
  "assert_returns A \<longleftrightarrow> (\<forall>x st. A x x st = Some st)"

definition csr_keeps :: "'c csr_file \<Rightarrow> bool" where
  "csr_keeps F \<longleftrightarrow> (\<forall>c. \<forall>v \<in> {0, 5}. csr_read F (csr_write F c MTVEC v) MTVEC = v)
     \<and> (\<forall>c v. csr_read F (csr_write F c SATP v) SATP AND 5 = v AND 5)"

lemma csr_keepsD:
  assumes "csr_keeps F"
  shows "csr_read F (csr_write F c MTVEC 0) MTVEC = 0" "csr_read F (csr_write F c MTVEC 5) MTVEC = 5"
    "csr_read F (csr_write F c SATP v) SATP AND 5 = v AND 5"
  using assms by (simp_all add: csr_keeps_def)

definition op_literals :: "byte list list" where
  "op_literals = [textln ''Running op_tests'', textln ''Running un_op_tests'', textln ''Running csr_tests'',
     textln ''All tests passed'', bin_format, un_format, csr_format, check_format]
   @ map (ascii \<circ> op_text) [O_add, O_sub, O_mul, O_div, O_mod, O_xor, O_and, O_or, O_shl, O_shr, O_land, O_lor,
       O_eq, O_ne, O_lt, O_gt, O_le, O_ge]
   @ map (ascii \<circ> un_text) [U_neg, U_not, U_lnot] @ map (ascii \<circ> csr_name) [csrrw, csrrs, csrrc]"

section \<open>What the macros print\<close>

abbreviation dec :: "u32 \<Rightarrow> byte list" where "dec \<equiv> int_text c_d 0 0 0"

definition bin_line :: "bin_op \<Rightarrow> u32 \<Rightarrow> u32 \<Rightarrow> byte list" where
  "bin_line op x y = ascii ''Testing Operation '' @ ascii (op_text op) @ ascii '' with x = '' @ dec x
     @ ascii '' and y = '' @ dec y @ [c_newline]"

definition un_line :: "un_op \<Rightarrow> u32 \<Rightarrow> byte list" where
  "un_line op x = ascii ''Testing Operation '' @ ascii (un_text op) @ ascii '' with x = '' @ dec x @ [c_newline]"

definition csr_line :: "csr_op \<Rightarrow> byte list" where
  "csr_line csr = ascii ''Testing CSR '' @ ascii (csr_name csr) @ [c_newline]"

definition check_line :: "u32 \<Rightarrow> u32 \<Rightarrow> byte list" where
  "check_line x y = ascii ''Checking '' @ dec x @ ascii '' == '' @ dec y @ [c_newline]"

lemmas lines_def = bin_line_def un_line_def csr_line_def check_line_def

lemma format_parts:
  "bin_format = ascii ''Testing Operation '' @ c_percent # c_s # (ascii '' with x = '' @ c_percent # c_d #
     (ascii '' and y = '' @ c_percent # c_d # [c_newline]))"
  "un_format = ascii ''Testing Operation '' @ c_percent # c_s # (ascii '' with x = '' @ c_percent # c_d # [c_newline])"
  "csr_format = ascii ''Testing CSR '' @ c_percent # c_s # [c_newline]"
  "check_format = ascii ''Checking '' @ c_percent # c_d # (ascii '' == '' @ c_percent # c_d # [c_newline])"
  by (simp_all add: bin_format_def un_format_def csr_format_def check_format_def textln_def ascii_def)

lemma no_percent:
  "c_percent \<notin> set (ascii ''Testing Operation '')" "c_percent \<notin> set (ascii '' with x = '')"
  "c_percent \<notin> set (ascii '' and y = '')" "c_percent \<notin> set (ascii ''Testing CSR '')"
  "c_percent \<notin> set (ascii ''Checking '')" "c_percent \<notin> set (ascii '' == '')" "c_percent \<notin> set [c_newline]"
  by (simp_all add: ascii_def)

lemma render_lines:
  "render bin_format [Text p (ascii (op_text op)), Num x, Num y] = Some (bin_line op x y)"
  "render un_format [Text p (ascii (un_text uop)), Num x] = Some (un_line uop x)"
  "render csr_format [Text p (ascii (csr_name csr))] = Some (csr_line csr)"
  "render check_format [Num x, Num y] = Some (check_line x y)"
  unfolding format_parts lines_def
  by (simp_all add: render_s_next render_d_next no_percent render_plain)

lemma dec_text: "0 \<notin> set (dec v)" "length (dec v) \<le> 11"
proof -
  let ?n = "numeral_text 0 10 (nat \<bar>sint v\<bar>)"
  have "0 \<notin> set ?n" using numeral_text_digits [of "nat \<bar>sint v\<bar>"] by (auto simp: is_digit_def)
  then show "0 \<notin> set (dec v)" "length (dec v) \<le> 11"
    using int_text_signed [of c_d v] numeral_text_length [of v] by (cases "sint v < 0"; simp)+
qed

lemma op_text_ok: "0 \<notin> set (ascii (op_text op)) \<and> length (ascii (op_text op)) \<le> 2"
  by (cases op) (simp_all add: ascii_def)

lemma un_text_ok: "0 \<notin> set (ascii (un_text op)) \<and> length (ascii (un_text op)) \<le> 2"
  by (cases op) (simp_all add: ascii_def)

lemma csr_name_ok: "0 \<notin> set (ascii (csr_name op)) \<and> length (ascii (csr_name op)) \<le> 5"
  by (cases op) (simp_all add: ascii_def)

lemma plain_parts:
  "0 \<notin> set (ascii ''Testing Operation '')" "0 \<notin> set (ascii '' with x = '')" "0 \<notin> set (ascii '' and y = '')"
  "0 \<notin> set (ascii ''Testing CSR '')" "0 \<notin> set (ascii ''Checking '')" "0 \<notin> set (ascii '' == '')" "0 \<notin> set [c_newline]"
  by (simp_all add: ascii_def)

lemma lines_ok:
  "0 \<notin> set (bin_line op x y)" "length (bin_line op x y) < 2 ^ 32 - 1"
  "0 \<notin> set (un_line uop x)" "length (un_line uop x) < 2 ^ 32 - 1"
  "0 \<notin> set (csr_line csr)" "length (csr_line csr) < 2 ^ 32 - 1"
  "0 \<notin> set (check_line x y)" "length (check_line x y) < 2 ^ 32 - 1"
  using dec_text [of x] dec_text [of y] op_text_ok [of op] un_text_ok [of uop] csr_name_ok [of csr] plain_parts
  by (simp_all add: lines_def) (simp_all add: ascii_def)

lemma formats_in_literals:
  "bin_format \<in> set op_literals" "un_format \<in> set op_literals" "csr_format \<in> set op_literals"
  "check_format \<in> set op_literals" "textln ''Running op_tests'' \<in> set op_literals"
  "textln ''Running un_op_tests'' \<in> set op_literals" "textln ''Running csr_tests'' \<in> set op_literals"
  "textln ''All tests passed'' \<in> set op_literals"
  by (simp_all add: op_literals_def)

lemma op_text_in_literals: "ascii (op_text op) \<in> set op_literals"
  by (cases op) (simp_all add: op_literals_def)

lemma un_text_in_literals: "ascii (un_text op) \<in> set op_literals"
  by (cases op) (simp_all add: op_literals_def)

lemma csr_name_in_literals: "ascii (csr_name op) \<in> set op_literals"
  by (cases op) (simp_all add: op_literals_def)

lemma text_arg:
  assumes "literals_at at op_literals st" and "s \<in> set op_literals"
  shows "arg_ok (\<lambda>_. True) (mem st) (Text (at s) s)"
  using assms by (simp add: literals_at_def literal_def arg_ok_def kept_str_def)

text \<open>Each macro prints its line and asserts.\<close>

lemma say_lines:
  assumes "literals_at at op_literals st" and "stack \<noteq> 0"
  shows "say stack at bin_format [at (ascii (op_text op)), x, y] st = Some (said (bin_line op x y) st)"
    "say stack at un_format [at (ascii (un_text uop)), x] st = Some (said (un_line uop x) st)"
    "say stack at csr_format [at (ascii (csr_name csr))] st = Some (said (csr_line csr) st)"
    "say stack at check_format [x, y] st = Some (said (check_line x y) st)"
  using say_exact [OF assms(1) formats_in_literals(1) render_lines(1) lines_ok(2,1) _ assms(2)]
    say_exact [OF assms(1) formats_in_literals(2) render_lines(2) lines_ok(4,3) _ assms(2)]
    say_exact [OF assms(1) formats_in_literals(3) render_lines(3) lines_ok(6,5) _ assms(2)]
    say_exact [OF assms(1) formats_in_literals(4) render_lines(4) lines_ok(8,7) _ assms(2)]
    text_arg [OF assms(1)] op_text_in_literals [of op] un_text_in_literals [of uop] csr_name_in_literals [of csr]
  by (simp_all add: arg_ok_def)

section \<open>The transcripts\<close>

definition bin_transcript :: "string list" where
  "bin_transcript = [
     ''Running op_tests'',
     ''Testing Operation + with x = 5 and y = 5'',
     ''Testing Operation - with x = 5 and y = 5'',
     ''Testing Operation * with x = 5 and y = 5'',
     ''Testing Operation / with x = 10 and y = 5'',
     ''Testing Operation % with x = 5 and y = 5'',
     ''Testing Operation ^ with x = 5 and y = 4'',
     ''Testing Operation & with x = 5 and y = 4'',
     ''Testing Operation | with x = 5 and y = 4'',
     ''Testing Operation << with x = 5 and y = 1'',
     ''Testing Operation >> with x = 5 and y = 1'',
     ''Testing Operation && with x = 1 and y = 1'',
     ''Testing Operation || with x = 1 and y = 0'',
     ''Testing Operation == with x = 1 and y = 1'',
     ''Testing Operation != with x = 1 and y = 0'',
     ''Testing Operation < with x = 1 and y = 2'',
     ''Testing Operation > with x = 2 and y = 1'',
     ''Testing Operation <= with x = 1 and y = 2'',
     ''Testing Operation >= with x = 2 and y = 1'',
     ''All tests passed'']"

definition un_transcript :: "string list" where
  "un_transcript = [''Running un_op_tests'', ''Testing Operation - with x = 5'', ''Testing Operation ~ with x = 5'',
     ''Testing Operation ! with x = 1'', ''All tests passed'']"

definition csr_transcript :: "string list" where
  "csr_transcript = [''Running csr_tests'', ''Testing CSR csrrw'', ''Checking 5 == 5'',
     ''Testing CSR csrrs'', ''Checking 5 == 5'', ''Testing CSR csrrc'']"

definition console :: "string list \<Rightarrow> byte list" where
  "console ls = concat (map textln ls)"

lemma dec_values:
  "dec 0 = ascii ''0''" "dec 1 = ascii ''1''" "dec 2 = ascii ''2''" "dec 4 = ascii ''4''" "dec 5 = ascii ''5''"
  "dec 10 = ascii ''10''"
  by code_simp+

lemma bin_values:
  "eval_bin O_add 5 5 = Some 10"
  "eval_bin O_sub 5 5 = Some 0"
  "eval_bin O_mul 5 5 = Some 25"
  "eval_bin O_div 10 5 = Some 2"
  "eval_bin O_mod 5 5 = Some 0"
  "eval_bin O_xor 5 4 = Some 1"
  "eval_bin O_and 5 4 = Some 4"
  "eval_bin O_or 5 4 = Some 5"
  "eval_bin O_shl 5 1 = Some 10"
  "eval_bin O_shr 5 1 = Some 2"
  "eval_bin O_land 1 1 = Some 1"
  "eval_bin O_lor 1 0 = Some 1"
  "eval_bin O_eq 1 1 = Some 1"
  "eval_bin O_ne 1 0 = Some 1"
  "eval_bin O_lt 1 2 = Some 1"
  "eval_bin O_gt 2 1 = Some 1"
  "eval_bin O_le 1 2 = Some 1"
  "eval_bin O_ge 2 1 = Some 1"
  by code_simp+

lemma un_values: "eval_un U_neg 5 = - 5" "eval_un U_not 5 = - 6" "eval_un U_lnot 1 = 0"
  by (simp_all add: c_bool_def)

lemma bin_line_texts:
  "bin_line O_add 5 5 = textln ''Testing Operation + with x = 5 and y = 5''"
  "bin_line O_sub 5 5 = textln ''Testing Operation - with x = 5 and y = 5''"
  "bin_line O_mul 5 5 = textln ''Testing Operation * with x = 5 and y = 5''"
  "bin_line O_div 10 5 = textln ''Testing Operation / with x = 10 and y = 5''"
  "bin_line O_mod 5 5 = textln ''Testing Operation % with x = 5 and y = 5''"
  "bin_line O_xor 5 4 = textln ''Testing Operation ^ with x = 5 and y = 4''"
  "bin_line O_and 5 4 = textln ''Testing Operation & with x = 5 and y = 4''"
  "bin_line O_or 5 4 = textln ''Testing Operation | with x = 5 and y = 4''"
  "bin_line O_shl 5 1 = textln ''Testing Operation << with x = 5 and y = 1''"
  "bin_line O_shr 5 1 = textln ''Testing Operation >> with x = 5 and y = 1''"
  "bin_line O_land 1 1 = textln ''Testing Operation && with x = 1 and y = 1''"
  "bin_line O_lor 1 0 = textln ''Testing Operation || with x = 1 and y = 0''"
  "bin_line O_eq 1 1 = textln ''Testing Operation == with x = 1 and y = 1''"
  "bin_line O_ne 1 0 = textln ''Testing Operation != with x = 1 and y = 0''"
  "bin_line O_lt 1 2 = textln ''Testing Operation < with x = 1 and y = 2''"
  "bin_line O_gt 2 1 = textln ''Testing Operation > with x = 2 and y = 1''"
  "bin_line O_le 1 2 = textln ''Testing Operation <= with x = 1 and y = 2''"
  "bin_line O_ge 2 1 = textln ''Testing Operation >= with x = 2 and y = 1''"
  by (simp_all add: bin_line_def dec_values textln_def ascii_def)

lemma un_line_texts:
  "un_line U_neg 5 = textln ''Testing Operation - with x = 5''" "un_line U_not 5 = textln ''Testing Operation ~ with x = 5''"
  "un_line U_lnot 1 = textln ''Testing Operation ! with x = 1''"
  by (simp_all add: un_line_def dec_values textln_def ascii_def)

lemma csr_line_texts:
  "csr_line csrrw = textln ''Testing CSR csrrw''" "csr_line csrrs = textln ''Testing CSR csrrs''"
  "csr_line csrrc = textln ''Testing CSR csrrc''" "check_line 5 5 = textln ''Checking 5 == 5''"
  by (simp_all add: csr_line_def check_line_def dec_values textln_def ascii_def)

lemma TEST_passes:
  assumes "literals_at at op_literals st" and "stack \<noteq> 0" and "assert_returns A" and "eval_bin op x y = Some v"
  shows "TEST A stack at op v x y st = Some (said (bin_line op x y) st)"
  using say_lines(1) [OF assms(1,2)] assms(3,4) by (simp add: TEST_def assert_returns_def)

lemma TEST_UN_passes:
  assumes "literals_at at op_literals st" and "stack \<noteq> 0" and "assert_returns A" and "eval_un op x = v"
  shows "TEST_UN A stack at op v x st = Some (said (un_line op x) st)"
  using say_lines(2) [OF assms(1,2)] assms(3,4) by (simp add: TEST_UN_def assert_returns_def)

lemma say_headings:
  assumes "literals_at at op_literals st" and "stack \<noteq> 0"
  shows "say stack at (textln ''Running op_tests'') [] st = Some (said (textln ''Running op_tests'') st)"
    "say stack at (textln ''Running un_op_tests'') [] st = Some (said (textln ''Running un_op_tests'') st)"
    "say stack at (textln ''Running csr_tests'') [] st = Some (said (textln ''Running csr_tests'') st)"
    "say stack at (textln ''All tests passed'') [] st = Some (said (textln ''All tests passed'') st)"
  by (rule say_plain [OF assms(1) formats_in_literals(5) _ assms(2)]
      say_plain [OF assms(1) formats_in_literals(6) _ assms(2)]
      say_plain [OF assms(1) formats_in_literals(7) _ assms(2)]
      say_plain [OF assms(1) formats_in_literals(8) _ assms(2)]; simp add: textln_def ascii_def)+

lemma test_bin_ops_said:
  assumes "literals_at at op_literals st" and "stack \<noteq> 0" and "assert_returns A"
  shows "test_bin_ops A stack at st = Some (said (console bin_transcript) st)"
proof -
  have lits: "literals_at at op_literals (said t st)" for t using assms(1) by simp
  note passes = bin_values [THEN TEST_passes [OF lits assms(2,3)]]
    and heads = say_headings [OF lits assms(2)] say_headings [OF assms(1,2)]
  show ?thesis
    by (simp add: test_bin_ops_def passes heads bin_line_texts console_def bin_transcript_def)
qed

lemma test_un_ops_said:
  assumes "literals_at at op_literals st" and "stack \<noteq> 0" and "assert_returns A"
  shows "test_un_ops A stack at st = Some (said (console un_transcript) st)"
proof -
  have lits: "literals_at at op_literals (said t st)" for t using assms(1) by simp
  note passes = un_values [THEN TEST_UN_passes [OF lits assms(2,3)]]
    and heads = say_headings [OF lits assms(2)] say_headings [OF assms(1,2)]
  show ?thesis
    by (simp add: test_un_ops_def passes heads un_line_texts console_def un_transcript_def)
qed

text \<open>
  The tests of the registers: the first two pass, the third compares the cleared register with the
  bits that were cleared.
\<close>

lemma TEST_CSR_said:
  assumes "literals_at at op_literals st" and "stack \<noteq> 0"
  shows "TEST_CSR F A stack at csr v r (st, c) = (let (x, c) = POP_CSR F csr r (PUSH_CSR F csr r v c) in
    do { st \<leftarrow> A x v (said (csr_line csr @ check_line x v) st); Some (st, c) })"
proof -
  have "literals_at at op_literals (said t st)" for t using assms(1) by simp
  with say_lines(3) [OF assms] say_lines(4) [OF _ assms(2)] show ?thesis
    by (simp add: TEST_CSR_def check_int_def split_def Let_def)
qed

lemma cleared_bits: "(w AND NOT 5) AND 5 = (0 :: u32)"
  by (rule bit_word_eqI) (simp add: bit_simps)

lemma test_csrs_said:
  assumes "literals_at at op_literals st" and "stack \<noteq> 0" and "assert_returns A" and "csr_keeps F"
  shows "\<exists>v c'. v AND 5 = 0 \<and> test_csrs F A stack at (st, c)
    = do { st \<leftarrow> A v 5 (said (console csr_transcript @ check_line v 5) st);
           st \<leftarrow> say stack at (textln ''All tests passed'') [] st; Some (st, c') }"
proof -
  have lits: "literals_at at op_literals (said t st)" for t using assms(1) by simp
  have A: "A x x st = Some st" for x st using assms(3) by (simp add: assert_returns_def)
  note csr = TEST_CSR_said [OF lits assms(2)] csr_keepsD [OF assms(4)]
    and heads = say_headings [OF assms(1,2)]
  define c1 where "c1 = csr_write F (csr_write F (csr_write F c MTVEC 5) MTVEC 0) MTVEC 5"
  define c2 where "c2 = csr_write F c1 SATP (csr_read F c1 SATP AND NOT 5)"
  have "csr_read F c2 SATP AND 5 = 0" using cleared_bits [of "csr_read F c1 SATP"] by (simp add: c2_def csr)
  moreover have "test_csrs F A stack at (st, c)
    = do { st \<leftarrow> A (csr_read F c2 SATP) 5 (said (console csr_transcript @ check_line (csr_read F c2 SATP) 5) st);
           st \<leftarrow> say stack at (textln ''All tests passed'') [] st; Some (st, c2) }"
    by (simp add: test_csrs_def heads csr A csr_line_texts console_def csr_transcript_def c2_def c1_def)
  ultimately show ?thesis by blast
qed

lemma op_tests_main_said:
  assumes "literals_at at op_literals st" and "stack \<noteq> 0" and "assert_returns A" and "csr_keeps F"
  shows "\<exists>v c'. v AND 5 = 0 \<and> op_tests_main F A stack at (st, c)
    = do { st \<leftarrow> A v 5 (said (console (bin_transcript @ un_transcript @ csr_transcript) @ check_line v 5) st);
           st \<leftarrow> say stack at (textln ''All tests passed'') [] st; Some (0, st, c') }"
proof -
  let ?st = "said (console bin_transcript @ console un_transcript) st"
  have lits: "literals_at at op_literals (said t st)" for t using assms(1) by simp
  from test_csrs_said [OF lits assms(2-4)] obtain v c' where "v AND 5 = 0" and c: "test_csrs F A stack at (?st, c)
    = do { st \<leftarrow> A v 5 (said (console csr_transcript @ check_line v 5) ?st);
           st \<leftarrow> say stack at (textln ''All tests passed'') [] st; Some (st, c') }" by blast
  moreover have "op_tests_main F A stack at (st, c) = do { (st, c) \<leftarrow> test_csrs F A stack at (?st, c); Some (0, st, c) }"
    using test_bin_ops_said [OF assms(1-3)] test_un_ops_said [OF lits assms(2,3)] by (simp add: op_tests_main_def)
  ultimately show ?thesis by (auto simp: console_def)
qed

section \<open>Properties\<close>

text \<open>
  The tests of the operators pass: with an \<open>assert_eq\<close> that returns on equal arguments all
  eighteen binary and three unary operators have the expected values, and each function prints exactly
  its transcript.
\<close>

theorem op_tests_operators:
  assumes "literals_at at op_literals st" and "stack \<noteq> 0" and "assert_returns A"
  shows "test_bin_ops A stack at st = Some (said (console bin_transcript) st)
    \<and> test_un_ops A stack at st = Some (said (console un_transcript) st)"
  using test_bin_ops_said [OF assms] test_un_ops_said [OF assms] ..

text \<open>An \<open>assert_eq\<close> that stops on different arguments, and the literals laid out at address 1000.\<close>

definition stopping :: assertion where
  "stopping x y st = (if x = y then Some st else None)"

lemma stopping_returns: "assert_returns stopping"
  by (simp add: assert_returns_def stopping_def)

lemma op_literals_laid_out: "literals_at (place 1000 op_literals) op_literals (boot (lay_out 1000 op_literals (\<lambda>_. 0)))"
proof (rule literals_lay_out)
  show "unat (1000 :: u32) + image_size op_literals < 2 ^ 31" "\<forall>s \<in> set op_literals. 0 \<notin> set s"
    by (simp_all add: op_literals_def bin_format_def un_format_def csr_format_def check_format_def textln_def ascii_def)
qed simp

theorem op_tests_operators_witness:
  "\<exists>st'. test_un_ops stopping 4 (place 1000 op_literals) (boot (lay_out 1000 op_literals (\<lambda>_. 0))) = Some st'
     \<and> uart_out st' = console un_transcript"
  using op_tests_operators [OF op_literals_laid_out _ stopping_returns, of 4] by simp

text \<open>
  C29. The program cannot pass: it prints the transcripts of the operators and of the first two register
  tests, and then its outcome is that of one assertion, that \<open>v\<close> is 5, where \<open>v\<close> has the bits 0 and
  2 cleared, since \<open>TEST_CSR(csrrc, 5, satp)\<close> reads back what it cleared. With an \<open>assert_eq\<close> that stops on
  different arguments \<open>main\<close> does not return.
\<close>

theorem op_tests_csrrc:
  assumes "literals_at at op_literals st" and "stack \<noteq> 0" and "assert_returns A" and "csr_keeps F"
  shows "(\<exists>v c'. v AND 5 = 0 \<and> op_tests_main F A stack at (st, c)
      = do { st \<leftarrow> A v 5 (said (console (bin_transcript @ un_transcript @ csr_transcript) @ check_line v 5) st);
             st \<leftarrow> say stack at (textln ''All tests passed'') [] st; Some (0, st, c') })
    \<and> ((\<forall>x y st. x \<noteq> y \<longrightarrow> A x y st = None) \<longrightarrow> op_tests_main F A stack at (st, c) = None)"
proof -
  from op_tests_main_said [OF assms] obtain v c' where v: "v AND 5 = 0" and m: "op_tests_main F A stack at (st, c)
      = do { st \<leftarrow> A v 5 (said (console (bin_transcript @ un_transcript @ csr_transcript) @ check_line v 5) st);
             st \<leftarrow> say stack at (textln ''All tests passed'') [] st; Some (0, st, c') }" by blast
  from v have "v \<noteq> 5" by auto
  then have "op_tests_main F A stack at (st, c) = None" if "\<forall>x y st. x \<noteq> y \<longrightarrow> A x y st = None"
    using that by (simp add: m)
  with v m show ?thesis by blast
qed

theorem op_tests_csrrc_witness:
  "op_tests_main plain_csrs stopping 4 (place 1000 op_literals) (boot (lay_out 1000 op_literals (\<lambda>_. 0)), \<lambda>_. 7) = None"
proof -
  have "csr_keeps plain_csrs" by (simp add: csr_keeps_def plain_csrs_def)
  then show ?thesis using op_tests_csrrc [OF op_literals_laid_out _ stopping_returns, of 4 plain_csrs "\<lambda>_. 7"]
    by (simp add: stopping_def)
qed

end
