(* ===== verification/AsmPrograms.thy ===== *)
theory AsmPrograms
  imports OpTests
begin

text \<open>
  The assembly programs of \<open>c_test\<close> (\<open>csrs.S\<close>, \<open>jmp_test.S\<close>, \<open>print_out.S\<close>, \<open>spin.S\<close>). A program is the list of
  its lines, labels included, and runs on the registers, the machine of the C programs and the control and
  status registers. The addresses of the code and of the data are parameters, as the linker chooses them.
\<close>

section \<open>The instructions the programs use\<close>

datatype reg = R_zero | R_ra | R_sp | R_t0 | R_t1 | R_t2 | R_a0

datatype instr =
    Addi reg reg u32 | Li reg u32 | La reg string
  | Lw reg u32 reg | Sw reg u32 reg | Lb reg u32 reg | Lbu reg u32 reg | Sb reg u32 reg
  | Beqz reg string | Bnez reg string | J string | Jal string | Ret
  | Csr csr_op reg u32 reg | Csri csr_op reg u32 u32

datatype asm_line = Label string | Ins instr

text \<open>The program counter is a line of the program, or an address outside of it.\<close>

datatype place = Line nat | Away u32

record 'c hart =
  pc :: place
  regs :: "reg \<Rightarrow> u32"
  mach :: machine
  csr_state :: 'c

record 'c image =
  csr_unit :: "'c csr_file"
  code_at :: "nat \<Rightarrow> u32"
  symbol :: "string \<Rightarrow> u32"

definition get_reg :: "'c hart \<Rightarrow> reg \<Rightarrow> u32" where
  "get_reg h r = (if r = R_zero then 0 else regs h r)"

definition set_reg :: "reg \<Rightarrow> u32 \<Rightarrow> 'c hart \<Rightarrow> 'c hart" where
  "set_reg r v h = (if r = R_zero then h else h\<lparr>regs := (regs h)(r := v)\<rparr>)"

fun label_line :: "asm_line list \<Rightarrow> string \<Rightarrow> nat" where
  "label_line [] l = 0"
| "label_line (x # xs) l = (if x = Label l then 0 else Suc (label_line xs l))"

text \<open>A jump to an address: to a line of the program if one is there.\<close>

definition place_of :: "'c image \<Rightarrow> asm_line list \<Rightarrow> u32 \<Rightarrow> place" where
  "place_of E p v = (case find (\<lambda>k. code_at E k = v) [0..<length p] of Some k \<Rightarrow> Line k | None \<Rightarrow> Away v)"

text \<open>The UART: the programs only store to its first register; other accesses to it are not modelled.\<close>

definition in_uart :: "u32 \<Rightarrow> bool" where
  "in_uart a \<longleftrightarrow> a - 0x10000000 < 0x100"

definition word_in_uart :: "u32 \<Rightarrow> bool" where
  "word_in_uart a \<longleftrightarrow> in_uart a \<or> in_uart (a + 1) \<or> in_uart (a + 2) \<or> in_uart (a + 3)"

definition csr_exec :: "'c csr_file \<Rightarrow> csr_op \<Rightarrow> reg \<Rightarrow> u32 \<Rightarrow> u32 \<Rightarrow> bool \<Rightarrow> 'c hart \<Rightarrow> 'c hart" where
  "csr_exec F csr rd r v writes h =
     (let old = csr_read F (csr_state h) r;
          new = (case csr of csrrw \<Rightarrow> v | csrrs \<Rightarrow> old OR v | csrrc \<Rightarrow> old AND NOT v);
          h = (if writes then h\<lparr>csr_state := csr_write F (csr_state h) r new\<rparr> else h)
      in set_reg rd old h)"

fun exec :: "'c image \<Rightarrow> asm_line list \<Rightarrow> nat \<Rightarrow> instr \<Rightarrow> 'c hart \<Rightarrow> 'c hart option" where
  "exec E p k (Addi rd rs i) h = Some (set_reg rd (get_reg h rs + i) (h\<lparr>pc := Line (Suc k)\<rparr>))"
| "exec E p k (Li rd i) h = Some (set_reg rd i (h\<lparr>pc := Line (Suc k)\<rparr>))"
| "exec E p k (La rd l) h = Some (set_reg rd (symbol E l) (h\<lparr>pc := Line (Suc k)\<rparr>))"
| "exec E p k (Lw rd i rs) h = (let a = get_reg h rs + i in
     if word_in_uart a then None else Some (set_reg rd (load32 (mem (mach h)) a) (h\<lparr>pc := Line (Suc k)\<rparr>)))"
| "exec E p k (Sw r i rs) h = (let a = get_reg h rs + i in
     if word_in_uart a then None
     else Some (h\<lparr>pc := Line (Suc k), mach := (mach h)\<lparr>mem := store32 a (get_reg h r) (mem (mach h))\<rparr>\<rparr>))"
| "exec E p k (Lb rd i rs) h = (let a = get_reg h rs + i in
     if in_uart a then None else Some (set_reg rd (scast (mem (mach h) a)) (h\<lparr>pc := Line (Suc k)\<rparr>)))"
| "exec E p k (Lbu rd i rs) h = (let a = get_reg h rs + i in
     if in_uart a then None else Some (set_reg rd (ucast (mem (mach h) a)) (h\<lparr>pc := Line (Suc k)\<rparr>)))"
| "exec E p k (Sb r i rs) h = (let a = get_reg h rs + i; c = ucast (get_reg h r) in
     if a = 0x10000000 then Some (h\<lparr>pc := Line (Suc k), mach := UART_write c (mach h)\<rparr>)
     else if in_uart a then None
     else Some (h\<lparr>pc := Line (Suc k), mach := (mach h)\<lparr>mem := (mem (mach h))(a := c)\<rparr>\<rparr>))"
| "exec E p k (Beqz r l) h = Some (h\<lparr>pc := Line (if get_reg h r = 0 then label_line p l else Suc k)\<rparr>)"
| "exec E p k (Bnez r l) h = Some (h\<lparr>pc := Line (if get_reg h r \<noteq> 0 then label_line p l else Suc k)\<rparr>)"
| "exec E p k (J l) h = Some (h\<lparr>pc := Line (label_line p l)\<rparr>)"
| "exec E p k (Jal l) h = Some (set_reg R_ra (code_at E (Suc k)) (h\<lparr>pc := Line (label_line p l)\<rparr>))"
| "exec E p k Ret h = Some (h\<lparr>pc := place_of E p (get_reg h R_ra)\<rparr>)"
| "exec E p k (Csr csr rd r rs) h =
     Some (csr_exec (csr_unit E) csr rd r (get_reg h rs) (csr = csrrw \<or> rs \<noteq> R_zero) (h\<lparr>pc := Line (Suc k)\<rparr>))"
| "exec E p k (Csri csr rd r i) h =
     Some (csr_exec (csr_unit E) csr rd r i (csr = csrrw \<or> i \<noteq> 0) (h\<lparr>pc := Line (Suc k)\<rparr>))"

text \<open>A line, and \<open>n\<close> of them; a label is a line that does nothing.\<close>

definition asm_step :: "'c image \<Rightarrow> asm_line list \<Rightarrow> 'c hart \<Rightarrow> 'c hart option" where
  "asm_step E p h = (case pc h of
       Line k \<Rightarrow> if k < length p then (case p ! k of Label _ \<Rightarrow> Some (h\<lparr>pc := Line (Suc k)\<rparr>) | Ins i \<Rightarrow> exec E p k i h) else None
     | Away _ \<Rightarrow> None)"

fun asm_run :: "'c image \<Rightarrow> asm_line list \<Rightarrow> nat \<Rightarrow> 'c hart \<Rightarrow> 'c hart option" where
  "asm_run E p 0 h = Some h"
| "asm_run E p (Suc n) h = do { h \<leftarrow> asm_step E p h; asm_run E p n h }"

section \<open>The programs\<close>

definition MSTATUS_csr :: u32 where "MSTATUS_csr = 0x300"
definition MEPC :: u32 where "MEPC = 0x341"
definition SSTATUS_csr :: u32 where "SSTATUS_csr = 0x100"
definition STVEC :: u32 where "STVEC = 0x105"
definition SEPC :: u32 where "SEPC = 0x141"

definition csrs_prog :: "asm_line list" where
  "csrs_prog = [
     Label ''main'',
       Ins (Addi R_t0 R_zero 1),
       Ins (Addi R_t1 R_zero 2),
       Ins (Addi R_t2 R_zero 3),
       Ins (Csr csrrw R_zero MSTATUS_csr R_t0),
       Ins (Csr csrrs R_zero MTVEC R_t1),
       Ins (Csr csrrw R_zero MEPC R_t2),
       Ins (Csr csrrc R_t2 MEPC R_zero),
       Ins (Csri csrrw R_zero SSTATUS_csr 4),
       Ins (Csri csrrs R_zero STVEC 5),
       Ins (Csri csrrw R_zero SEPC 6),
       Ins (Csri csrrc R_zero SEPC 0),
       Ins Ret]"

definition NUM_LOOPS :: u32 where "NUM_LOOPS = 100"

definition jmp_test :: "asm_line list" where
  "jmp_test = [
     Label ''main'',
       Ins (Addi R_sp R_sp (- 4)),
       Ins (Sw R_ra 0 R_sp),
       Ins (Jal ''spin''),
       Ins (Lw R_ra 0 R_sp),
       Ins (Addi R_sp R_sp 4),
       Ins Ret,
     Label ''spin'',
       Ins (Li R_t0 NUM_LOOPS),
     Label ''loop'',
       Ins (Addi R_t0 R_t0 (- 1)),
       Ins (Bnez R_t0 ''loop''),
       Ins Ret]"

definition print_out :: "asm_line list" where
  "print_out = [
     Label ''main'',
       Ins (La R_t0 ''string''),
       Ins (Li R_t1 0x10000000),
     Label ''print'',
       Ins (Lb R_t2 0 R_t0),
       Ins (Beqz R_t2 ''end''),
       Ins (Sb R_t2 0 R_t1),
       Ins (Addi R_t0 R_t0 1),
       Ins (J ''print''),
     Label ''end'',
       Ins Ret]"

definition spin_prog :: "asm_line list" where
  "spin_prog = [
     Label ''main'',
     Label ''spin'',
       Ins (Li R_t1 0x10000000),
       Ins (La R_t0 ''string''),
       Ins (J ''print_str''),
       Ins (J ''spin''),
     Label ''print_str'',
       Ins (Addi R_sp R_sp (- 32)),
       Ins (Sw R_ra 0 R_sp),
     Label ''loop'',
       Ins (Lbu R_a0 0 R_t0),
       Ins (Beqz R_a0 ''done''),
       Ins (Sb R_a0 0 R_t1),
       Ins (Addi R_t0 R_t0 1),
       Ins (J ''loop''),
     Label ''done'',
       Ins (Lw R_ra 0 R_sp),
       Ins (Addi R_sp R_sp 32),
       Ins Ret]"

section \<open>Running\<close>

fun is_ins :: "asm_line \<Rightarrow> bool" where
  "is_ins (Ins i) = True" | "is_ins (Label l) = False"

text \<open>
  What the linker does: lines with an instruction between them have different addresses. \<open>outside\<close>
  is an address to return to.
\<close>

definition code_ok :: "'c image \<Rightarrow> asm_line list \<Rightarrow> bool" where
  "code_ok E p \<longleftrightarrow> (\<forall>k < length p. \<forall>j < k. (\<exists>i < k. j \<le> i \<and> is_ins (p ! i)) \<longrightarrow> code_at E j \<noteq> code_at E k)"

definition outside :: "'c image \<Rightarrow> asm_line list \<Rightarrow> u32 \<Rightarrow> bool" where
  "outside E p v \<longleftrightarrow> (\<forall>k < length p. code_at E k \<noteq> v)"

lemma place_of_outside: "outside E p v \<Longrightarrow> place_of E p v = Away v"
proof -
  assume "outside E p v"
  then have "find (\<lambda>k. code_at E k = v) [0..<length p] = None" by (auto simp: find_None_iff outside_def)
  then show ?thesis by (simp add: place_of_def)
qed

lemma place_of_line:
  assumes "code_ok E p" and "k < length p" and "0 < k" and "is_ins (p ! (k - 1))"
  shows "place_of E p (code_at E k) = Line k"
proof -
  have "code_at E j \<noteq> code_at E k" if "j < k" for j
  proof -
    have "k - 1 < k \<and> j \<le> k - 1 \<and> is_ins (p ! (k - 1))" using assms(3,4) that by simp
    then show ?thesis using assms(1,2) that unfolding code_ok_def by blast
  qed
  then have "find (\<lambda>i. code_at E i = code_at E k) [0..<length p] = Some k"
    unfolding find_Some_iff using assms(2) by (intro exI [of _ k]) auto
  then show ?thesis by (simp add: place_of_def)
qed

lemma asm_run_add: "asm_run E p (m + n) h = do { h \<leftarrow> asm_run E p m h; asm_run E p n h }"
proof (induction m arbitrary: h)
  case (Suc m)
  then show ?case by (cases "asm_step E p h") simp_all
qed simp

lemma asm_run_numeral: "asm_run E p (numeral n) h = do { h \<leftarrow> asm_step E p h; asm_run E p (pred_numeral n) h }"
  by (simp add: numeral_eq_Suc)

lemmas running = asm_run_numeral asm_step_def get_reg_def set_reg_def Let_def

lemma jmp_loop:
  "pc h = Line 9 \<Longrightarrow> regs h R_t0 = of_nat (Suc n) \<Longrightarrow> Suc n < 2 ^ 32 \<Longrightarrow>
   asm_run E jmp_test (3 * Suc n) h = Some (h\<lparr>pc := Line 12, regs := (regs h)(R_t0 := 0)\<rparr>)"
proof (induction n arbitrary: h)
  case 0
  then show ?case by (cases h) (simp add: running jmp_test_def fun_eq_iff)
next
  case (Suc n)
  let ?h = "h\<lparr>pc := Line 9, regs := (regs h)(R_t0 := of_nat (Suc n))\<rparr>"
  have "(of_nat (Suc n) :: u32) \<noteq> 0" using Suc.prems(3) of_nat32_inject [of "Suc n" 0] by auto
  then have "asm_run E jmp_test 3 h = Some ?h"
    using Suc.prems(1,2) by (cases h) (simp add: running jmp_test_def fun_eq_iff)
  moreover have "asm_run E jmp_test (3 * Suc n) ?h = Some (?h\<lparr>pc := Line 12, regs := (regs ?h)(R_t0 := 0)\<rparr>)"
    using Suc.prems(3) by (intro Suc.IH) simp_all
  moreover have "3 * Suc (Suc n) = 3 + 3 * Suc n" by simp
  ultimately have "asm_run E jmp_test (3 * Suc (Suc n)) h = Some (?h\<lparr>pc := Line 12, regs := (regs ?h)(R_t0 := 0)\<rparr>)"
    by (simp only: asm_run_add bind.bind_lunit)
  then show ?case by (cases h) (simp add: fun_eq_iff)
qed

text \<open>The loop that prints a string, in \<open>print_out.S\<close> and \<open>spin.S\<close>.\<close>

definition print_loop_at :: "asm_line list \<Rightarrow> nat \<Rightarrow> reg \<Rightarrow> instr \<Rightarrow> string \<Rightarrow> string \<Rightarrow> bool" where
  "print_loop_at p k r ld loop done \<longleftrightarrow> k + 5 < length p \<and> p ! k = Label loop \<and> p ! (k + 1) = Ins ld \<and> ld \<in> {Lb r 0 R_t0, Lbu r 0 R_t0}
     \<and> p ! (k + 2) = Ins (Beqz r done) \<and> p ! (k + 3) = Ins (Sb r 0 R_t1) \<and> p ! (k + 4) = Ins (Addi R_t0 R_t0 1)
     \<and> p ! (k + 5) = Ins (J loop) \<and> label_line p loop = k \<and> r \<notin> {R_zero, R_t0, R_t1}"

lemma print_loop_ends:
  assumes "print_loop_at p k r ld loop done" and "pc h = Line k" and "mem (mach h) (regs h R_t0) = 0"
    and "\<not> in_uart (regs h R_t0)"
  shows "asm_run E p 3 h = Some (h\<lparr>pc := Line (label_line p done), regs := (regs h)(r := 0)\<rparr>)"
  using assms by (cases h) (auto simp: print_loop_at_def running)

lemma ucast_scast_byte: "ucast (scast (c :: byte) :: u32) = c"
  by (rule bit_word_eqI) (simp add: bit_simps)

lemma print_loop_round:
  assumes "print_loop_at p k r ld loop done" and "pc h = Line k" and "mem (mach h) (regs h R_t0) \<noteq> 0"
    and "\<not> in_uart (regs h R_t0)" and "regs h R_t1 = 0x10000000"
  shows "\<exists>v. asm_run E p 6 h = Some (h\<lparr>pc := Line k, regs := (regs h)(r := v, R_t0 := regs h R_t0 + 1),
      mach := UART_write (mem (mach h) (regs h R_t0)) (mach h)\<rparr>)"
proof -
  let ?c = "mem (mach h) (regs h R_t0)"
  have c: "ucast (scast ?c :: u32) = ?c" "ucast (ucast ?c :: u32) = ?c"
    by (simp_all add: ucast_scast_byte)
  have "(ucast (0 :: u32) :: byte) \<noteq> ?c" using assms(3) by simp
  then have nz: "(scast ?c :: u32) \<noteq> 0" "(ucast ?c :: u32) \<noteq> 0" using c by metis+
  have lines: "p ! k = Label loop" "p ! Suc k = Ins ld" "p ! Suc (Suc k) = Ins (Beqz r done)" "p ! Suc (Suc (Suc k)) = Ins (Sb r 0 R_t1)"
    "p ! Suc (Suc (Suc (Suc k))) = Ins (Addi R_t0 R_t0 1)" "p ! Suc (Suc (Suc (Suc (Suc k)))) = Ins (J loop)"
    "Suc (Suc (Suc (Suc (Suc k)))) < length p" "label_line p loop = k" "r \<noteq> R_zero" "r \<noteq> R_t0" "r \<noteq> R_t1"
    using assms(1) by (simp_all add: print_loop_at_def eval_nat_numeral)
  have "ld = Lb r 0 R_t0 \<or> ld = Lbu r 0 R_t0" using assms(1) by (simp add: print_loop_at_def)
  then show ?thesis using assms(2-) nz c lines
    by (cases h) (auto simp: running fun_upd_twist)
qed

lemma UART_write_said: "UART_write c st = said [c] st"
  by (simp add: UART_write_def said_def)

lemma print_loop_run:
  assumes "print_loop_at p k r ld loop done"
  shows "pc h = Line k \<Longrightarrow> cstr (mem (mach h)) (regs h R_t0) s \<Longrightarrow> regs h R_t1 = 0x10000000 \<Longrightarrow>
    \<forall>i \<le> length s. \<not> in_uart (regs h R_t0 + of_nat i) \<Longrightarrow>
    asm_run E p (6 * length s + 3) h = Some (h\<lparr>pc := Line (label_line p done),
      regs := (regs h)(r := 0, R_t0 := regs h R_t0 + of_nat (length s)), mach := said s (mach h)\<rparr>)"
proof (induction s arbitrary: h)
  case Nil
  then have "asm_run E p 3 h = Some (h\<lparr>pc := Line (label_line p done), regs := (regs h)(r := 0)\<rparr>)"
    by (intro print_loop_ends [OF assms]) simp_all
  moreover have "r \<noteq> R_t0" using assms by (simp add: print_loop_at_def)
  ultimately show ?case by (cases h) (auto simp: fun_eq_iff)
next
  case (Cons c s)
  have r: "r \<noteq> R_t0" "r \<noteq> R_t1" using assms by (simp_all add: print_loop_at_def)
  have c: "mem (mach h) (regs h R_t0) = c" "c \<noteq> 0" "cstr (mem (mach h)) (regs h R_t0 + 1) s" using Cons.prems(2) by simp_all
  have "\<not> in_uart (regs h R_t0)" using Cons.prems(4) [rule_format, of 0] by simp
  with print_loop_round [OF assms Cons.prems(1) _ _ Cons.prems(3)] c obtain v where
    one: "asm_run E p 6 h = Some (h\<lparr>pc := Line k, regs := (regs h)(r := v, R_t0 := regs h R_t0 + 1),
      mach := said [c] (mach h)\<rparr>)" (is "_ = Some ?h") unfolding UART_write_said by blast
  have "\<not> in_uart (regs ?h R_t0 + of_nat i)" if "i \<le> length s" for i
    using Cons.prems(4) [rule_format, of "Suc i"] that by (simp add: add.assoc)
  then have "asm_run E p (6 * length s + 3) ?h = Some (?h\<lparr>pc := Line (label_line p done),
      regs := (regs ?h)(r := 0, R_t0 := regs ?h R_t0 + of_nat (length s)), mach := said s (mach ?h)\<rparr>)"
    using c(3) Cons.prems(3) r by (intro Cons.IH) simp_all
  with one have "asm_run E p (6 + (6 * length s + 3)) h = Some (?h\<lparr>pc := Line (label_line p done),
      regs := (regs ?h)(r := 0, R_t0 := regs ?h R_t0 + of_nat (length s)), mach := said s (mach ?h)\<rparr>)"
    by (simp only: asm_run_add bind.bind_lunit)
  moreover have "6 * length (c # s) + 3 = 6 + (6 * length s + 3)" by simp
  ultimately show ?case using r
    by (cases h) (auto simp: fun_eq_iff)
qed

lemma print_loops:
  "print_loop_at print_out 3 R_t2 (Lb R_t2 0 R_t0) ''print'' ''end''"
  "print_loop_at spin_prog 9 R_a0 (Lbu R_a0 0 R_t0) ''loop'' ''done''"
  by (simp_all add: print_loop_at_def print_out_def spin_prog_def)

text \<open>
  \<open>csrs\<close> writes six registers in this order; with \<open>zero\<close> or 0 as their source, \<open>csrrc\<close> and \<open>csrrci\<close>
  do not write, so \<open>t2\<close> gets what \<open>mepc\<close> has kept of 3, and \<open>sepc\<close> is written once.
\<close>

lemma csrs_prog_effect:
  assumes "pc h = Line 0" and "outside E csrs_prog (regs h R_ra)"
  defines "F \<equiv> csr_unit E"
  defines "c1 \<equiv> csr_write F (csr_state h) MSTATUS_csr 1"
  defines "c2 \<equiv> csr_write F c1 MTVEC (csr_read F c1 MTVEC OR 2)"
  defines "c3 \<equiv> csr_write F c2 MEPC 3"
  defines "c4 \<equiv> csr_write F c3 SSTATUS_csr 4"
  defines "c5 \<equiv> csr_write F c4 STVEC (csr_read F c4 STVEC OR 5)"
  shows "asm_run E csrs_prog 13 h = Some (h\<lparr>pc := Away (regs h R_ra),
    regs := (regs h)(R_t0 := 1, R_t1 := 2, R_t2 := csr_read F c3 MEPC), csr_state := csr_write F c5 SEPC 6\<rparr>)"
  using assms(1) place_of_outside [OF assms(2)]
  by (cases h) (simp add: running csrs_prog_def csr_exec_def fun_eq_iff assms(3-))

text \<open>The text of \<open>spin.S\<close>.\<close>

definition spin_text :: "byte list" where
  "spin_text = textln ''spining''"

section \<open>Properties\<close>

text \<open>
  \<open>jmp_test\<close>: \<open>main\<close> calls \<open>spin\<close>, which runs its loop one hundred times, and returns to its caller
  after 310 lines with the return address and the stack pointer it was called with; of memory only
  the word below the stack pointer has changed.
\<close>

theorem jmp_test_returns:
  assumes "pc h = Line 0" and "code_ok E jmp_test" and "outside E jmp_test (regs h R_ra)"
    and "\<not> word_in_uart (regs h R_sp - 4)"
  shows "asm_run E jmp_test 310 h = Some (h\<lparr>pc := Away (regs h R_ra), regs := (regs h)(R_t0 := 0),
    mach := (mach h)\<lparr>mem := store32 (regs h R_sp - 4) (regs h R_ra) (mem (mach h))\<rparr>\<rparr>)"
proof -
  let ?m = "(mach h)\<lparr>mem := store32 (regs h R_sp - 4) (regs h R_ra) (mem (mach h))\<rparr>"
  let ?r = "(regs h)(R_sp := regs h R_sp - 4, R_ra := code_at E 4)"
  let ?h1 = "h\<lparr>pc := Line 9, regs := ?r(R_t0 := 100), mach := ?m\<rparr>"
  let ?h2 = "h\<lparr>pc := Line 12, regs := ?r(R_t0 := 0), mach := ?m\<rparr>"
  have "asm_run E jmp_test 6 h = Some ?h1"
    using assms(1,4) by (cases h) (simp add: running jmp_test_def NUM_LOOPS_def, simp add: eval_nat_numeral)
  moreover have "asm_run E jmp_test (3 * Suc 99) ?h1 = Some ?h2"
    by (subst jmp_loop) simp_all
  moreover have "place_of E jmp_test (code_at E 4) = Line 4"
    by (rule place_of_line [OF assms(2)]) (simp_all add: jmp_test_def)
  then have "asm_run E jmp_test 4 ?h2 = Some (h\<lparr>pc := Away (regs h R_ra), regs := (regs h)(R_t0 := 0), mach := ?m\<rparr>)"
    using assms(4) place_of_outside [OF assms(3)]
    by (cases h) (auto simp: running jmp_test_def mem_simps fun_eq_iff)
  moreover have "(310 :: nat) = 6 + (3 * Suc 99 + 4)" by simp
  ultimately show ?thesis by (simp only: asm_run_add bind.bind_lunit)
qed

text \<open>
  \<open>print_out\<close> prints its text and then whatever follows it: \<open>.ascii\<close> does not terminate the text, so
  the output goes on with the bytes behind it up to the first NUL.
\<close>

theorem print_out_prints:
  assumes "pc h = Line 0" and "cstr (mem (mach h)) (symbol E ''string'') (ascii ''Hello, World!'' @ ts)"
    and "\<forall>i \<le> 13 + length ts. \<not> in_uart (symbol E ''string'' + of_nat i)"
    and "outside E print_out (regs h R_ra)"
  shows "\<exists>h'. asm_run E print_out (86 + 6 * length ts) h = Some h' \<and> pc h' = Away (regs h R_ra)
    \<and> mach h' = said (ascii ''Hello, World!'' @ ts) (mach h)"
proof -
  let ?s = "ascii ''Hello, World!'' @ ts" and ?p = "symbol E ''string''"
  let ?h1 = "h\<lparr>pc := Line 3, regs := (regs h)(R_t0 := ?p, R_t1 := 0x10000000)\<rparr>"
  let ?h2 = "h\<lparr>pc := Line 9, regs := (regs h)(R_t1 := 0x10000000, R_t2 := 0, R_t0 := ?p + of_nat (length ?s)), mach := said ?s (mach h)\<rparr>"
  have hello: "length (ascii ''Hello, World!'') = 13" by (simp add: ascii_def)
  have "asm_run E print_out 3 h = Some ?h1"
    using assms(1) by (cases h) (simp add: running print_out_def)
  moreover have "label_line print_out ''end'' = 9" by (simp add: print_out_def)
  then have "asm_run E print_out (6 * length ?s + 3) ?h1 = Some ?h2"
    using assms(2,3) by (subst print_loop_run [OF print_loops(1)]) (simp_all add: hello fun_upd_twist)
  moreover have "asm_run E print_out 2 ?h2 = Some (?h2\<lparr>pc := Away (regs h R_ra)\<rparr>)"
    using place_of_outside [OF assms(4)] by (simp add: running print_out_def)
  moreover have "86 + 6 * length ts = 3 + ((6 * length ?s + 3) + 2)" by (simp add: hello)
  ultimately have "asm_run E print_out (86 + 6 * length ts) h = Some (?h2\<lparr>pc := Away (regs h R_ra)\<rparr>)"
    by (simp only: asm_run_add bind.bind_lunit)
  then show ?thesis by simp
qed

text \<open>
  \<open>spin\<close> does not spin: it prints its text once and returns to the caller of \<open>main\<close>, because \<open>print_str\<close>
  is entered by a jump that leaves no return address, and the jump back to \<open>spin\<close> is never reached.
\<close>

theorem spin_returns:
  assumes "pc h = Line 0" and "cstr (mem (mach h)) (symbol E ''string'') spin_text"
    and "\<forall>i \<le> 8. \<not> in_uart (symbol E ''string'' + of_nat i) \<and> \<not> span (regs h R_sp - 32) 4 (symbol E ''string'' + of_nat i)"
    and "\<not> word_in_uart (regs h R_sp - 32)" and "outside E spin_prog (regs h R_ra)"
  shows "\<exists>h'. asm_run E spin_prog 63 h = Some h' \<and> pc h' = Away (regs h R_ra) \<and> regs h' R_sp = regs h R_sp
    \<and> mach h' = said spin_text ((mach h)\<lparr>mem := store32 (regs h R_sp - 32) (regs h R_ra) (mem (mach h))\<rparr>)"
proof -
  let ?s = spin_text and ?p = "symbol E ''string''"
  let ?m = "(mach h)\<lparr>mem := store32 (regs h R_sp - 32) (regs h R_ra) (mem (mach h))\<rparr>"
  let ?h1 = "h\<lparr>pc := Line 9, regs := (regs h)(R_t1 := 0x10000000, R_t0 := ?p, R_sp := regs h R_sp - 32), mach := ?m\<rparr>"
  let ?h2 = "?h1\<lparr>pc := Line 15, regs := (regs ?h1)(R_a0 := 0, R_t0 := ?p + of_nat (length ?s)), mach := said ?s ?m\<rparr>"
  have len: "length ?s = 8" by (simp add: spin_text_def textln_def ascii_def)
  have "asm_run E spin_prog 8 h = Some ?h1"
    using assms(1,4) by (cases h) (simp add: running spin_prog_def)
  moreover have "label_line spin_prog ''done'' = 15" by (simp add: spin_prog_def)
  moreover have "cstr (mem ?m) ?p ?s"
    using assms(2,3) len cstr_cong [of ?s "mem ?m" ?p "mem (mach h)"] by (simp add: mem_simps)
  ultimately have "asm_run E spin_prog 8 h = Some ?h1" and "asm_run E spin_prog (6 * length ?s + 3) ?h1 = Some ?h2"
    using assms(3) by (simp, subst print_loop_run [OF print_loops(2)]) (simp_all add: len)
  moreover have "asm_run E spin_prog 4 ?h2 = Some (?h2\<lparr>pc := Away (regs h R_ra), regs := (regs ?h2)(R_ra := regs h R_ra, R_sp := regs h R_sp)\<rparr>)"
    using assms(4) place_of_outside [OF assms(5)] by (simp add: running spin_prog_def mem_simps)
  moreover have "(63 :: nat) = 8 + ((6 * length ?s + 3) + 4)" by (simp add: len)
  ultimately have "asm_run E spin_prog 63 h = Some (?h2\<lparr>pc := Away (regs h R_ra), regs := (regs ?h2)(R_ra := regs h R_ra, R_sp := regs h R_sp)\<rparr>)"
    by (simp only: asm_run_add bind.bind_lunit)
  then show ?thesis by simp
qed

text \<open>An image with the code at \<open>0x1000\<close> and the text at \<open>0x2000\<close>.\<close>

definition ex_image :: "(u32 \<Rightarrow> u32) image" where
  "ex_image = \<lparr>csr_unit = plain_csrs, code_at = (\<lambda>k. 0x1000 + 4 * of_nat k), symbol = (\<lambda>_. 0x2000)\<rparr>"

definition ex_hart :: "byte list \<Rightarrow> (u32 \<Rightarrow> u32) hart" where
  "ex_hart t = \<lparr>pc = Line 0, regs = (\<lambda>_. 0)(R_sp := 0x8000, R_ra := 64),
     mach = boot (write_bytes 0x2000 (t @ [0]) (\<lambda>_. 0)), csr_state = (\<lambda>_. 0)\<rparr>"

lemma ex_outside: "length p < 1000 \<Longrightarrow> outside ex_image p 64"
proof -
  assume p: "length p < 1000"
  have "0x1000 + 4 * of_nat k \<noteq> (64 :: u32)" if "k < length p" for k
  proof
    assume "0x1000 + 4 * of_nat k = (64 :: u32)"
    moreover have "0x1000 + 4 * of_nat k = (of_nat (0x1000 + 4 * k) :: u32)" by simp
    ultimately have "unat (of_nat (0x1000 + 4 * k) :: u32) = 64" by (simp only:) simp
    with that p show False by (subst (asm) unat_of_nat32) simp_all
  qed
  then show ?thesis by (simp add: outside_def ex_image_def)
qed

theorem spin_returns_witness:
  "\<exists>h'. asm_run ex_image spin_prog 63 (ex_hart spin_text) = Some h' \<and> pc h' = Away 64 \<and> uart_out (mach h') = spin_text"
proof -
  have "cstr (write_bytes 0x2000 (spin_text @ [0]) (\<lambda>_. 0)) 0x2000 spin_text"
    by (rule cstr_of_bytes [OF bytes_write_bytes]) (simp_all add: spin_text_def textln_def ascii_def)
  moreover have "\<not> in_uart (0x2000 + of_nat i) \<and> \<not> span 0x7FE0 4 (0x2000 + of_nat i)" if "i \<le> 8" for i
  proof -
    have "i \<in> {0, 1, 2, 3, 4, 5, 6, 7, 8}" using that by auto
    then show ?thesis by (auto simp: in_uart_def span_def)
  qed
  moreover have "\<not> word_in_uart 0x7FE0" by (simp add: word_in_uart_def in_uart_def)
  moreover have "outside ex_image spin_prog 64" by (rule ex_outside) (simp add: spin_prog_def)
  ultimately show ?thesis
    using spin_returns [of "ex_hart spin_text" ex_image] by (auto simp: ex_hart_def ex_image_def)
qed

end
