(* ===== verification/Clint.thy ===== *)
theory Clint
  imports Device
begin

text \<open>
  The core local interruptor (\<open>src/devices/clint.rs\<close>): the timer registers and the software
  interrupt register, 64 bits wide inside and accessed as 32-bit words.
\<close>

definition CLINT_BASE :: u32 where "CLINT_BASE = 0x2000000"
definition CLINT_END :: u32 where "CLINT_END = CLINT_BASE + 0x10000"
definition MSIP :: u32 where "MSIP = 0"
definition MSIP_END :: u32 where "MSIP_END = MSIP + 4"
definition MTIMECMP :: u32 where "MTIMECMP = 0x4000"
definition MTIMECMP_END :: u32 where "MTIMECMP_END = MTIMECMP + 8"
definition MTIME :: u32 where "MTIME = 0xbff8"
definition MTIME_END :: u32 where "MTIME_END = MTIME + 8"

lemmas clint_map = MSIP_def MSIP_END_def MTIMECMP_def MTIMECMP_END_def MTIME_def MTIME_END_def

record clint =
  mtime :: u64
  mtimecmp :: u64
  msip :: u64

definition clint_new :: clint where
  "clint_new = \<lparr>mtime = 0, mtimecmp = 0, msip = 0\<rparr>"

definition increment :: "'c csr_file \<Rightarrow> clint \<Rightarrow> 'c \<Rightarrow> clint \<times> 'c" where
  "increment F self state =
     (let self = self\<lparr>mtime := mtime self + 1\<rparr>;
          state = csr_write F state (TIME F) (ucast (mtime self));
          state = (if msip self AND 1 \<noteq> 0 then csr_write F state (MIP F) (csr_read F state (MIP F) OR MSIP_BIT F)
                   else state);
          state = (if mtimecmp self > mtime self
                   then csr_write F state (MIP F) (csr_read F state (MIP F) AND NOT (MTIP_BIT F)) else state);
          state = (if mtime self \<ge> mtimecmp self
                   then csr_write F state (MIP F) (csr_read F state (MIP F) OR MTIP_BIT F) else state)
      in (self, state))"

definition clint_read :: "clint \<Rightarrow> u32 \<Rightarrow> sizes \<Rightarrow> u32 outcome" where
  "clint_read self addr sz =
     (if sz \<noteq> Word then Err LoadAccessFault
      else if MTIMECMP \<le> addr \<and> addr < MTIMECMP_END then Ok (ucast (mtimecmp self))
      else if MTIME \<le> addr \<and> addr < MTIME_END then Ok (ucast (mtime self))
      else if MSIP \<le> addr \<and> addr < MSIP_END then Ok (ucast (msip self))
      else Err LoadAccessFault)"

definition clint_write :: "clint \<Rightarrow> u32 \<Rightarrow> u32 \<Rightarrow> sizes \<Rightarrow> clint outcome" where
  "clint_write self addr data sz =
     (if sz \<noteq> Word then Err StoreAccessFault
      else if MTIMECMP \<le> addr \<and> addr < MTIMECMP_END then Ok (self\<lparr>mtimecmp := ucast data\<rparr>)
      else if MTIME \<le> addr \<and> addr < MTIME_END then Ok (self\<lparr>mtime := ucast data\<rparr>)
      else if MSIP \<le> addr \<and> addr < MSIP_END then Ok (self\<lparr>msip := ucast data\<rparr>)
      else Err StoreAccessFault)"

section \<open>Specification\<close>

text \<open>The register an address selects.\<close>

datatype clint_reg = R_mtimecmp | R_mtime | R_msip

definition clint_decode :: "u32 \<Rightarrow> clint_reg option" where
  "clint_decode a = (if 0x4000 \<le> a \<and> a < 0x4008 then Some R_mtimecmp
     else if 0xbff8 \<le> a \<and> a < 0xc000 then Some R_mtime else if a < 4 then Some R_msip else None)"

fun clint_get :: "clint_reg \<Rightarrow> clint \<Rightarrow> u64" where
  "clint_get R_mtimecmp k = mtimecmp k"
| "clint_get R_mtime k = mtime k"
| "clint_get R_msip k = msip k"

fun clint_set :: "clint_reg \<Rightarrow> u64 \<Rightarrow> clint \<Rightarrow> clint" where
  "clint_set R_mtimecmp v k = k\<lparr>mtimecmp := v\<rparr>"
| "clint_set R_mtime v k = k\<lparr>mtime := v\<rparr>"
| "clint_set R_msip v k = k\<lparr>msip := v\<rparr>"

lemma clint_get_set: "clint_get r (clint_set s v k) = (if r = s then v else clint_get r k)"
  by (cases r; cases s) simp_all

lemma clint_read_decode:
  "clint_read k a Word = (case clint_decode a of None \<Rightarrow> Err LoadAccessFault | Some r \<Rightarrow> Ok (ucast (clint_get r k)))"
  by (simp add: clint_read_def clint_decode_def clint_map)

lemma clint_write_decode:
  "clint_write k a v Word = (case clint_decode a of None \<Rightarrow> Err StoreAccessFault | Some r \<Rightarrow> Ok (clint_set r (ucast v) k))"
  by (simp add: clint_write_def clint_decode_def clint_map)

lemma clint_sizes:
  "sz \<noteq> Word \<Longrightarrow> clint_read k a sz = Err LoadAccessFault"
  "sz \<noteq> Word \<Longrightarrow> clint_write k a v sz = Err StoreAccessFault"
  by (simp_all add: clint_read_def clint_write_def)

lemma ucast_up_down [simp]: "ucast (ucast (v :: u32) :: u64) = v"
  by (rule bit_word_eqI) (simp add: bit_simps)

text \<open>A history of guest stores; stores that fault change nothing.\<close>

fun clint_stores :: "(u32 \<times> u32 \<times> sizes) list \<Rightarrow> clint \<Rightarrow> clint" where
  "clint_stores [] k = k"
| "clint_stores ((a, v, sz) # ss) k =
     clint_stores ss (case clint_write k a v sz of Ok k' \<Rightarrow> k' | _ \<Rightarrow> k)"

text \<open>The last word stored to a register, 0 if there was none.\<close>

fun last_store :: "clint_reg \<Rightarrow> u32 \<Rightarrow> (u32 \<times> u32 \<times> sizes) list \<Rightarrow> u32" where
  "last_store r d [] = d"
| "last_store r d ((a, v, sz) # ss) =
     last_store r (if sz = Word \<and> clint_decode a = Some r then v else d) ss"

lemma clint_stores_last:
  assumes "\<forall>r. clint_get r k = ucast (d r)"
  shows "clint_get r (clint_stores ss k) = ucast (last_store r (d r) ss)"
  using assms
proof (induction ss arbitrary: k d)
  case (Cons s ss)
  obtain a v sz where s: "s = (a, v, sz)" by (metis surj_pair)
  let ?k = "case clint_write k a v sz of Ok k' \<Rightarrow> k' | _ \<Rightarrow> k"
  let ?d = "\<lambda>r. if sz = Word \<and> clint_decode a = Some r then v else d r"
  have "\<forall>r. clint_get r ?k = ucast (?d r)"
    using Cons.prems clint_sizes(2) [of sz k a v]
    by (cases "sz = Word") (auto simp: clint_write_decode clint_get_set split: option.splits)
  from Cons.IH [OF this] show ?case by (simp add: s)
qed simp

lemma increment_effect:
  assumes "csr_laws F" and "increment F k c = (k', c')"
  shows "k' = k\<lparr>mtime := mtime k + 1\<rparr>" and "csr_read F c' (TIME F) = ucast (mtime k + 1)"
    and "bit (csr_read F c' (MIP F)) n =
        (if n = 7 then mtimecmp k \<le> mtime k + 1
         else bit (csr_read F c (MIP F)) n \<or> (n = 3 \<and> odd (msip k)))"
proof -
  note bits = bit_OR_exp [where 'a = 32] bit_AND_NOT_exp [where 'a = 32]
  have "odd (msip k) \<longleftrightarrow> msip k AND 1 \<noteq> 0" by (simp add: and_one_eq odd_iff_mod_2_eq_one)
  with assms csr_bits [OF assms(1)]
  show "k' = k\<lparr>mtime := mtime k + 1\<rparr>" "csr_read F c' (TIME F) = ucast (mtime k + 1)"
    "bit (csr_read F c' (MIP F)) n =
        (if n = 7 then mtimecmp k \<le> mtime k + 1
         else bit (csr_read F c (MIP F)) n \<or> (n = 3 \<and> odd (msip k)))"
    by (auto simp: increment_def Let_def not_le not_less bits simp del: power_numeral split: if_splits)
qed

lemma clint_new_get [simp]: "clint_get r clint_new = 0"
  by (cases r) (simp_all add: clint_new_def)

text \<open>The stores that set a deadline.\<close>

definition set_deadline :: "u64 \<Rightarrow> clint \<Rightarrow> clint" where
  "set_deadline t = clint_stores [(MTIMECMP, - 1, Word), (MTIMECMP + 4, ucast (drop_bit 32 t), Word), (MTIMECMP, ucast t, Word)]"

section \<open>Properties\<close>

text \<open>
  One tick of the timer: \<open>TIME\<close> is the low word of the new time; the timer interrupt is pending
  exactly when \<open>mtime\<close> has reached \<open>mtimecmp\<close>, the software interrupt is raised when \<open>msip\<close> is set
  and otherwise left as it is, and no other interrupt changes.
\<close>

theorem increment_posts:
  assumes "csr_laws F" and "increment F k c = (k', c')"
  shows "k' = k\<lparr>mtime := mtime k + 1\<rparr> \<and> csr_read F c' (TIME F) = ucast (mtime k + 1)
    \<and> bit (csr_read F c' (MIP F)) n =
        (if n = 7 then mtimecmp k \<le> mtime k + 1
         else bit (csr_read F c (MIP F)) n \<or> (n = 3 \<and> odd (msip k)))"
  using increment_effect(1,2) [OF assms] increment_effect(3) [OF assms, of n] by simp

theorem increment_posts_witness:
  "let (k', c') = increment plain_csrs \<lparr>mtime = 4, mtimecmp = 5, msip = 1\<rparr> (\<lambda>_. 0)
   in mtime k' = 5 \<and> bit (csr_read plain_csrs c' (MIP plain_csrs)) 7 \<and> bit (csr_read plain_csrs c' (MIP plain_csrs)) 3
      \<and> \<not> bit (csr_read plain_csrs c' (MIP plain_csrs)) 11"
proof -
  let ?k = "\<lparr>mtime = 4, mtimecmp = 5, msip = 1\<rparr>"
  obtain k' c' where i: "increment plain_csrs ?k (\<lambda>_. 0) = (k', c')" by (metis surj_pair)
  from increment_posts [OF plain_csrs_laws i, of 7] increment_posts [OF plain_csrs_laws i, of 3]
    increment_posts [OF plain_csrs_laws i, of 11]
  show ?thesis by (simp add: i) (simp add: plain_csrs_def)
qed

text \<open>
  C35. The registers are a memory of three words: after any history of guest accesses a word load
  returns the last word stored to the same register, at whichever of its addresses, and 0 if there
  was none; any other access faults. The upper halves of the 64-bit registers are always 0.
\<close>

theorem clint_load_after_stores:
  "clint_get r (clint_stores ss clint_new) = ucast (last_store r 0 ss)
   \<and> clint_read (clint_stores ss clint_new) a sz =
      (case clint_decode a of Some r \<Rightarrow> if sz = Word then Ok (last_store r 0 ss) else Err LoadAccessFault
       | None \<Rightarrow> Err LoadAccessFault)"
proof -
  have last: "clint_get r (clint_stores ss clint_new) = ucast (last_store r 0 ss)" for r
    using clint_stores_last [of clint_new "\<lambda>_. 0"] by simp
  then show ?thesis
    by (cases "sz = Word") (simp_all add: clint_read_decode clint_sizes split: option.splits)
qed

text \<open>
  A 64-bit deadline cannot be set: after the stores the privileged architecture prescribes (all
  ones to the low word, then the high word, then the low word of the deadline) \<open>mtimecmp\<close> is the low
  word alone, so the timer interrupt is posted from there on, too early whenever the high word is not 0.
\<close>

theorem deadline_truncated:
  assumes "csr_laws F" and "increment F (set_deadline t k) c = (k', c')"
  shows "mtimecmp k' = take_bit 32 t \<and> mtime k' = mtime k + 1
    \<and> (bit (csr_read F c' (MIP F)) 7 \<longleftrightarrow> take_bit 32 t \<le> mtime k + 1)"
proof -
  have "(ucast (ucast t :: u32) :: u64) = take_bit 32 t"
    by (rule bit_word_eqI) (simp add: bit_simps)
  then have "mtimecmp (set_deadline t k) = take_bit 32 t" "mtime (set_deadline t k) = mtime k"
    by (simp_all add: set_deadline_def clint_write_def clint_map)
  with increment_effect(1) [OF assms] increment_effect(3) [OF assms, of 7] show ?thesis by simp
qed

theorem deadline_truncated_witness:
  "\<exists>k' c'. increment plain_csrs (set_deadline (2 ^ 32 + 7) clint_new) (\<lambda>_. 0) = (k', c') \<and> mtimecmp k' = 7"
proof -
  obtain k' c' where i: "increment plain_csrs (set_deadline (2 ^ 32 + 7) clint_new) (\<lambda>_. 0) = (k', c')" by (metis surj_pair)
  have "take_bit 32 (2 ^ 32 + 7 :: u64) = 7" by simp
  with deadline_truncated [OF plain_csrs_laws i] i show ?thesis by auto
qed

end
