(* ===== verification/Plic.thy ===== *)
theory Plic
  imports Device
begin

text \<open>
  The platform-level interrupt controller (\<open>src/devices/plic.rs\<close>): the register file the guest
  accesses as words, the pending bits the front end sets, and the claim register of context 1, the
  only one in use.
\<close>

definition PLIC_BASE :: u32 where "PLIC_BASE = 0xC000000"
definition PLIC_SIZE :: u32 where "PLIC_SIZE = 0x208000"
definition SOURCE_PRIORITY :: u32 where "SOURCE_PRIORITY = PLIC_BASE"
definition SOURCE_PRIORITY_END :: u32 where "SOURCE_PRIORITY_END = PLIC_BASE + 0xfff"
definition PENDING :: u32 where "PENDING = PLIC_BASE + 0x1000"
definition PENDING_END :: u32 where "PENDING_END = PLIC_BASE + 0x107f"
definition ENABLE :: u32 where "ENABLE = PLIC_BASE + 0x2000"
definition ENABLE_END :: u32 where "ENABLE_END = PLIC_BASE + 0x20ff"
definition THRESHOLD_AND_CLAIM :: u32 where "THRESHOLD_AND_CLAIM = PLIC_BASE + 0x200000"
definition THRESHOLD_AND_CLAIM_END :: u32 where "THRESHOLD_AND_CLAIM_END = PLIC_BASE + 0x201007"
definition WORD_SIZE :: u32 where "WORD_SIZE = 4"
definition CONTEXT_OFFSET :: u32 where "CONTEXT_OFFSET = 0x1000"
definition SOURCE_NUM :: u32 where "SOURCE_NUM = 1024"

lemmas plic_map = PLIC_BASE_def SOURCE_PRIORITY_def SOURCE_PRIORITY_END_def PENDING_def PENDING_END_def
  ENABLE_def ENABLE_END_def THRESHOLD_AND_CLAIM_def THRESHOLD_AND_CLAIM_END_def WORD_SIZE_def
  CONTEXT_OFFSET_def SOURCE_NUM_def

record plic =
  priority :: "u32 list"
  pending :: "u32 list"
  enable :: "u32 list"
  threshold :: "u32 list"
  claim :: "u32 list"

definition plic_new :: plic where
  "plic_new = \<lparr>priority = replicate 1024 0, pending = replicate 32 0, enable = replicate 64 0,
     threshold = replicate 2 0, claim = replicate 2 0\<rparr>"

section \<open>Interrupts\<close>

definition is_enable :: "bool \<Rightarrow> plic \<Rightarrow> u32 \<Rightarrow> u32 \<Rightarrow> bool option" where
  "is_enable checked self ctx irq = do {
     let index = (irq mod SOURCE_NUM) div (WORD_SIZE * 8);
     let offset = (irq mod SOURCE_NUM) mod (WORD_SIZE * 8);
     c \<leftarrow> u_mul checked ctx 32;
     i \<leftarrow> u_add checked c index;
     e \<leftarrow> at_index (enable self) i;
     Some (drop_bit (unat offset) e AND 1 = 1)
   }"

definition update_claim :: "bool \<Rightarrow> plic \<Rightarrow> u32 \<Rightarrow> plic option" where
  "update_claim checked self irq = do {
     on \<leftarrow> is_enable checked self 1 irq;
     if on \<or> irq = 0 then do { cl \<leftarrow> set_index (claim self) 1 irq; Some (self\<lparr>claim := cl\<rparr>) }
     else Some self
   }"

definition update_pending :: "bool \<Rightarrow> plic \<Rightarrow> u32 \<Rightarrow> plic option" where
  "update_pending checked self irq = do {
     let index = irq div WORD_SIZE;
     m \<leftarrow> u_shl checked 1 irq;
     w \<leftarrow> at_index (pending self) index;
     pe \<leftarrow> set_index (pending self) index (w OR m);
     update_claim checked (self\<lparr>pending := pe\<rparr>) irq
   }"

definition clear_pending :: "bool \<Rightarrow> plic \<Rightarrow> u32 \<Rightarrow> plic option" where
  "clear_pending checked self irq = do {
     let index = irq div WORD_SIZE;
     m \<leftarrow> u_shl checked 1 irq;
     w \<leftarrow> at_index (pending self) index;
     pe \<leftarrow> set_index (pending self) index (w AND NOT m);
     update_claim checked (self\<lparr>pending := pe\<rparr>) 0
   }"

definition get_interrupt :: "plic \<Rightarrow> u32 option" where
  "get_interrupt self = (if claim self ! 1 \<noteq> 0 then Some (claim self ! 1) else None)"

section \<open>Register access\<close>

definition plic_read :: "bool \<Rightarrow> plic \<Rightarrow> u32 \<Rightarrow> sizes \<Rightarrow> u32 outcome" where
  "plic_read checked self addr sz =
     (if sz \<noteq> Word then Err LoadAccessFault else do {
        addr \<leftarrow> u_add checked addr PLIC_BASE;
        if SOURCE_PRIORITY \<le> addr \<and> addr \<le> SOURCE_PRIORITY_END then
          if (addr - SOURCE_PRIORITY) mod WORD_SIZE \<noteq> 0 then Err LoadAccessFault
          else map_option Inr (at_index (priority self) ((addr - SOURCE_PRIORITY) div WORD_SIZE))
        else if PENDING \<le> addr \<and> addr \<le> PENDING_END then
          if (addr - PENDING) mod WORD_SIZE \<noteq> 0 then Err LoadAccessFault
          else map_option Inr (at_index (pending self) ((addr - PENDING) div WORD_SIZE))
        else if ENABLE \<le> addr \<and> addr \<le> ENABLE_END then
          if (addr - ENABLE) mod WORD_SIZE \<noteq> 0 then Err LoadAccessFault
          else map_option Inr (at_index (enable self) ((addr - ENABLE) div WORD_SIZE))
        else if THRESHOLD_AND_CLAIM \<le> addr \<and> addr \<le> THRESHOLD_AND_CLAIM_END then
          (let ctx = (addr - THRESHOLD_AND_CLAIM) div CONTEXT_OFFSET;
               offset = addr - (THRESHOLD_AND_CLAIM + CONTEXT_OFFSET * ctx)
           in if offset = 0 then map_option Inr (at_index (threshold self) ctx)
              else if offset = 4 then map_option Inr (at_index (claim self) ctx)
              else Err LoadAccessFault)
        else Err LoadAccessFault
      })"

definition plic_write :: "bool \<Rightarrow> plic \<Rightarrow> u32 \<Rightarrow> u32 \<Rightarrow> sizes \<Rightarrow> plic outcome" where
  "plic_write checked self addr val sz =
     (if sz \<noteq> Word then Err StoreAccessFault else do {
        addr \<leftarrow> u_add checked addr PLIC_BASE;
        if SOURCE_PRIORITY \<le> addr \<and> addr \<le> SOURCE_PRIORITY_END then
          if (addr - SOURCE_PRIORITY) mod WORD_SIZE \<noteq> 0 then Err StoreAccessFault
          else do { xs \<leftarrow> set_index (priority self) ((addr - SOURCE_PRIORITY) div WORD_SIZE) val;
                    Ok (self\<lparr>priority := xs\<rparr>) }
        else if PENDING \<le> addr \<and> addr \<le> PENDING_END then
          if (addr - PENDING) mod WORD_SIZE \<noteq> 0 then Err StoreAccessFault
          else do { xs \<leftarrow> set_index (pending self) ((addr - PENDING) div WORD_SIZE) val;
                    Ok (self\<lparr>pending := xs\<rparr>) }
        else if ENABLE \<le> addr \<and> addr \<le> ENABLE_END then
          if (addr - ENABLE) mod WORD_SIZE \<noteq> 0 then Err StoreAccessFault
          else do { xs \<leftarrow> set_index (enable self) ((addr - ENABLE) div WORD_SIZE) val;
                    Ok (self\<lparr>enable := xs\<rparr>) }
        else if THRESHOLD_AND_CLAIM \<le> addr \<and> addr \<le> THRESHOLD_AND_CLAIM_END then
          (let ctx = (addr - THRESHOLD_AND_CLAIM) div CONTEXT_OFFSET;
               offset = addr - (THRESHOLD_AND_CLAIM + CONTEXT_OFFSET * ctx)
           in if offset = 0 then do { xs \<leftarrow> set_index (threshold self) ctx val; Ok (self\<lparr>threshold := xs\<rparr>) }
              else if offset = 4 then map_option Inr (clear_pending checked self val)
              else Err StoreAccessFault)
        else Err StoreAccessFault
      })"

section \<open>The registers by address\<close>

text \<open>The arrays have the lengths of their Rust types.\<close>

definition plic_ok :: "plic \<Rightarrow> bool" where
  "plic_ok p \<longleftrightarrow> length (priority p) = 1024 \<and> length (pending p) = 32 \<and> length (enable p) = 64
     \<and> length (threshold p) = 2 \<and> length (claim p) = 2"

lemma plic_new_ok: "plic_ok plic_new"
  by (simp add: plic_ok_def plic_new_def)

datatype plic_reg = Priority nat | Pending nat | Enable nat | Threshold nat | Claim nat

definition plic_decode :: "u32 \<Rightarrow> plic_reg option" where
  "plic_decode a = (let n = unat a in
     if n mod 4 \<noteq> 0 then None
     else if n < 0x1000 then Some (Priority (n div 4))
     else if n < 0x1080 then Some (Pending ((n - 0x1000) div 4))
     else if 0x2000 \<le> n \<and> n < 0x2100 then Some (Enable ((n - 0x2000) div 4))
     else if n = 0x200000 then Some (Threshold 0) else if n = 0x201000 then Some (Threshold 1)
     else if n = 0x200004 then Some (Claim 0) else if n = 0x201004 then Some (Claim 1) else None)"

fun plic_get :: "plic_reg \<Rightarrow> plic \<Rightarrow> u32" where
  "plic_get (Priority i) p = priority p ! i"
| "plic_get (Pending i) p = pending p ! i"
| "plic_get (Enable i) p = enable p ! i"
| "plic_get (Threshold i) p = threshold p ! i"
| "plic_get (Claim i) p = claim p ! i"

lemma plic_cmp:
  assumes "(a :: u32) < 0xF4000000" and "k < 0xF4000000"
  shows "0xC000000 + k \<le> a + 0xC000000 \<longleftrightarrow> k \<le> a" and "a + 0xC000000 \<le> 0xC000000 + k \<longleftrightarrow> a \<le> k"
proof -
  have s: "unat (x + 0xC000000) = unat x + 0xC000000" if "x < 0xF4000000" for x :: u32
    using that by (simp add: unat_word_ariths word_less_nat_alt)
  show "0xC000000 + k \<le> a + 0xC000000 \<longleftrightarrow> k \<le> a" "a + 0xC000000 \<le> 0xC000000 + k \<longleftrightarrow> a \<le> k"
    using s [OF assms(1)] s [OF assms(2)] by (simp_all add: word_le_nat_alt add.commute)
qed

lemma plic_ranges:
  assumes "a < 0xF4000000"
  shows "SOURCE_PRIORITY \<le> a + PLIC_BASE \<and> a + PLIC_BASE \<le> SOURCE_PRIORITY_END \<longleftrightarrow> a < 0x1000"
    "PENDING \<le> a + PLIC_BASE \<and> a + PLIC_BASE \<le> PENDING_END \<longleftrightarrow> 0x1000 \<le> a \<and> a < 0x1080"
    "ENABLE \<le> a + PLIC_BASE \<and> a + PLIC_BASE \<le> ENABLE_END \<longleftrightarrow> 0x2000 \<le> a \<and> a < 0x2100"
    "THRESHOLD_AND_CLAIM \<le> a + PLIC_BASE \<and> a + PLIC_BASE \<le> THRESHOLD_AND_CLAIM_END \<longleftrightarrow> 0x200000 \<le> a \<and> a < 0x201008"
proof -
  have lt: "a < 0x1000 \<longleftrightarrow> a \<le> 0xFFF" "a < 0x1080 \<longleftrightarrow> a \<le> 0x107F" "a < 0x2100 \<longleftrightarrow> a \<le> 0x20FF" "a < 0x201008 \<longleftrightarrow> a \<le> 0x201007"
    by (simp_all add: word_less_nat_alt word_le_nat_alt) arith+
  show "SOURCE_PRIORITY \<le> a + PLIC_BASE \<and> a + PLIC_BASE \<le> SOURCE_PRIORITY_END \<longleftrightarrow> a < 0x1000"
    "PENDING \<le> a + PLIC_BASE \<and> a + PLIC_BASE \<le> PENDING_END \<longleftrightarrow> 0x1000 \<le> a \<and> a < 0x1080"
    "ENABLE \<le> a + PLIC_BASE \<and> a + PLIC_BASE \<le> ENABLE_END \<longleftrightarrow> 0x2000 \<le> a \<and> a < 0x2100"
    "THRESHOLD_AND_CLAIM \<le> a + PLIC_BASE \<and> a + PLIC_BASE \<le> THRESHOLD_AND_CLAIM_END \<longleftrightarrow> 0x200000 \<le> a \<and> a < 0x201008"
    using plic_cmp [OF assms, of "0"] plic_cmp [OF assms, of "0xFFF"] plic_cmp [OF assms, of "0x1000"] plic_cmp [OF assms, of "0x107F"]
      plic_cmp [OF assms, of "0x2000"] plic_cmp [OF assms, of "0x20FF"] plic_cmp [OF assms, of "0x200000"] plic_cmp [OF assms, of "0x201007"] lt
    by (simp_all add: plic_map)
qed

lemma plic_offsets:
  "a + PLIC_BASE - SOURCE_PRIORITY = a" "a + PLIC_BASE - PENDING = a - 0x1000"
  "a + PLIC_BASE - ENABLE = a - 0x2000" "a + PLIC_BASE - THRESHOLD_AND_CLAIM = a - 0x200000"
  by (simp_all add: plic_map)

text \<open>The index of a word register, and the context of a threshold or claim register.\<close>

lemma word_index:
  assumes "k \<le> (a :: u32)" and "unat k mod 4 = 0"
  shows "(a - k) mod WORD_SIZE = 0 \<longleftrightarrow> unat a mod 4 = 0"
    and "unat ((a - k) div WORD_SIZE) = (unat a - unat k) div 4"
proof -
  have s: "unat (a - k) = unat a - unat k" using assms(1) by (simp add: unat_sub)
  have le: "unat k \<le> unat a" using assms(1) by (simp add: word_le_nat_alt)
  show "unat ((a - k) div WORD_SIZE) = (unat a - unat k) div 4" by (simp add: unat_div s WORD_SIZE_def)
  have "(a - k) mod WORD_SIZE = 0 \<longleftrightarrow> unat ((a - k) mod WORD_SIZE) = 0" by (simp add: unat_eq_zero)
  also have "\<dots> \<longleftrightarrow> (unat a - unat k) mod 4 = 0" by (simp add: unat_mod s WORD_SIZE_def)
  also have "\<dots> \<longleftrightarrow> unat a mod 4 = 0" using le assms(2) by presburger
  finally show "(a - k) mod WORD_SIZE = 0 \<longleftrightarrow> unat a mod 4 = 0" .
qed

lemma context_of:
  assumes "0x200000 \<le> (a :: u32)" and "a < 0x201008"
  defines "c \<equiv> (a - 0x200000) div CONTEXT_OFFSET"
  shows "c = (if a < 0x201000 then 0 else 1)"
    and "a + PLIC_BASE - (THRESHOLD_AND_CLAIM + CONTEXT_OFFSET * c) = a - (if a < 0x201000 then 0x200000 else 0x201000)"
proof -
  have "unat a - 0x200000 < 0x1008" using assms(1,2) by (simp add: word_le_nat_alt word_less_nat_alt)
  moreover have "unat c = (unat a - 0x200000) div 0x1000"
    using assms(1) by (simp add: c_def unat_div unat_sub CONTEXT_OFFSET_def)
  ultimately have "unat c = (if unat a < 0x201000 then 0 else 1)"
    using assms(1) by (auto simp: word_le_nat_alt)
  then show c: "c = (if a < 0x201000 then 0 else 1)"
    by (simp add: word_unat_eq_iff word_less_nat_alt split: if_splits)
  show "a + PLIC_BASE - (THRESHOLD_AND_CLAIM + CONTEXT_OFFSET * c) = a - (if a < 0x201000 then 0x200000 else 0x201000)"
    unfolding c by (simp add: plic_map)
qed

lemma plic_decode_cases:
  "plic_decode a = (if unat a mod 4 \<noteq> 0 then None
     else if a < 0x1000 then Some (Priority (unat a div 4))
     else if a < 0x1080 then Some (Pending ((unat a - 0x1000) div 4))
     else if 0x2000 \<le> a \<and> a < 0x2100 then Some (Enable ((unat a - 0x2000) div 4))
     else if a = 0x200000 then Some (Threshold 0) else if a = 0x201000 then Some (Threshold 1)
     else if a = 0x200004 then Some (Claim 0) else if a = 0x201004 then Some (Claim 1) else None)"
  by (simp add: plic_decode_def Let_def word_less_nat_alt word_le_nat_alt word_unat_eq_iff)

text \<open>What the code does at an address that selects a register, and that it faults elsewhere.\<close>

fun plic_put :: "bool \<Rightarrow> plic_reg \<Rightarrow> u32 \<Rightarrow> plic \<Rightarrow> plic option" where
  "plic_put ck (Priority i) v p = Some (p\<lparr>priority := (priority p)[i := v]\<rparr>)"
| "plic_put ck (Pending i) v p = Some (p\<lparr>pending := (pending p)[i := v]\<rparr>)"
| "plic_put ck (Enable i) v p = Some (p\<lparr>enable := (enable p)[i := v]\<rparr>)"
| "plic_put ck (Threshold i) v p = Some (p\<lparr>threshold := (threshold p)[i := v]\<rparr>)"
| "plic_put ck (Claim i) v p = clear_pending ck p v"

lemma threshold_and_claim:
  assumes "0x200000 \<le> (a :: u32)" and "a < 0x201008"
  defines "c \<equiv> (a - 0x200000) div CONTEXT_OFFSET"
  defines "off \<equiv> a + PLIC_BASE - (THRESHOLD_AND_CLAIM + CONTEXT_OFFSET * c)"
  shows "plic_decode a = (if off = 0 then Some (Threshold (unat c)) else if off = 4 then Some (Claim (unat c)) else None)"
    and "unat c < 2"
proof -
  note k = context_of [OF assms(1,2), folded c_def, folded off_def]
  show "unat c < 2" using k(1) by simp
  have "\<not> a < 0x1000" "\<not> a < 0x1080" "\<not> a < 0x2100" using assms(1) by (simp_all add: word_less_nat_alt word_le_nat_alt)
  moreover have "a - 0x200000 = 0 \<longleftrightarrow> a = 0x200000" "a - 0x200000 = 4 \<longleftrightarrow> a = 0x200004"
    "a - 0x201000 = 0 \<longleftrightarrow> a = 0x201000" "a - 0x201000 = 4 \<longleftrightarrow> a = 0x201004"
    by (simp_all add: diff_eq_eq)
  ultimately show "plic_decode a = (if off = 0 then Some (Threshold (unat c)) else if off = 4 then Some (Claim (unat c)) else None)"
    unfolding plic_decode_cases k by (auto simp: k(1))
qed

text \<open>The case distinction both accesses make, with \<open>f1\<close> to \<open>f5\<close> for what they do.\<close>

lemma plic_dispatch:
  assumes "a < 0xF4000000"
  defines "addr \<equiv> a + PLIC_BASE"
  defines "c \<equiv> (addr - THRESHOLD_AND_CLAIM) div CONTEXT_OFFSET"
  defines "off \<equiv> addr - (THRESHOLD_AND_CLAIM + CONTEXT_OFFSET * c)"
  shows "(if SOURCE_PRIORITY \<le> addr \<and> addr \<le> SOURCE_PRIORITY_END then
       if (addr - SOURCE_PRIORITY) mod WORD_SIZE \<noteq> 0 then e else f1 ((addr - SOURCE_PRIORITY) div WORD_SIZE)
     else if PENDING \<le> addr \<and> addr \<le> PENDING_END then
       if (addr - PENDING) mod WORD_SIZE \<noteq> 0 then e else f2 ((addr - PENDING) div WORD_SIZE)
     else if ENABLE \<le> addr \<and> addr \<le> ENABLE_END then
       if (addr - ENABLE) mod WORD_SIZE \<noteq> 0 then e else f3 ((addr - ENABLE) div WORD_SIZE)
     else if THRESHOLD_AND_CLAIM \<le> addr \<and> addr \<le> THRESHOLD_AND_CLAIM_END then
       if off = 0 then f4 c else if off = 4 then f5 c else e
     else e) =
     (case plic_decode a of None \<Rightarrow> e
      | Some r \<Rightarrow> (case r of Priority i \<Rightarrow> f1 (of_nat i) | Pending i \<Rightarrow> f2 (of_nat i) | Enable i \<Rightarrow> f3 (of_nat i)
          | Threshold i \<Rightarrow> f4 (of_nat i) | Claim i \<Rightarrow> f5 (of_nat i)))"
proof -
  have idx: "(a - k) div WORD_SIZE = of_nat ((unat a - unat k) div 4)" if "k \<le> a" "unat k mod 4 = 0" for k
    using word_index(2) [OF that] by (metis of_nat_unat ucast_id)
  note r = plic_ranges [OF assms(1), folded addr_def] plic_offsets [of a, folded addr_def]
  consider "a < 0x1000" | "0x1000 \<le> a" "a < 0x1080" | "0x2000 \<le> a" "a < 0x2100"
    | "0x200000 \<le> a" "a < 0x201008" | "\<not> a < 0x1080" "\<not> (0x2000 \<le> a \<and> a < 0x2100)" "\<not> (0x200000 \<le> a \<and> a < 0x201008)"
    by fastforce
  then show ?thesis
  proof cases
    case 1
    with word_index [of 0 a] idx [of 0] show ?thesis by (simp add: r plic_decode_cases)
  next
    case 2
    then have "\<not> a < 0x1000" "\<not> 0x2000 \<le> a" by (simp_all add: word_less_nat_alt word_le_nat_alt)
    with 2 word_index [of "0x1000" a] idx [of "0x1000"] show ?thesis by (simp add: r plic_decode_cases)
  next
    case 3
    then have "\<not> a < 0x1000" "\<not> a < 0x1080" by (simp_all add: word_less_nat_alt word_le_nat_alt)
    with 3 word_index [of "0x2000" a] idx [of "0x2000"] show ?thesis by (simp add: r plic_decode_cases)
  next
    case 4
    then have "\<not> a < 0x1000" "\<not> a < 0x1080" "\<not> a < 0x2100" by (simp_all add: word_less_nat_alt word_le_nat_alt)
    moreover have c: "(a - 0x200000) div CONTEXT_OFFSET = c" by (simp add: c_def r)
    have "plic_decode a = (if off = 0 then Some (Threshold (unat c)) else if off = 4 then Some (Claim (unat c)) else None)"
      using threshold_and_claim(1) [OF 4, unfolded c] unfolding off_def addr_def .
    ultimately show ?thesis using 4 by (simp add: r)
  next
    case 5
    then have "\<not> a < 0x1000" "a \<notin> {0x200000, 0x201000, 0x200004, 0x201004}"
      by (auto simp: word_less_nat_alt word_le_nat_alt)
    with 5 show ?thesis by (auto simp: r plic_decode_cases)
  qed
qed

text \<open>The registers exist.\<close>

fun reg_ok :: "plic_reg \<Rightarrow> bool" where
  "reg_ok (Priority i) = (i < 1024)"
| "reg_ok (Pending i) = (i < 32)"
| "reg_ok (Enable i) = (i < 64)"
| "reg_ok (Threshold i) = (i < 2)"
| "reg_ok (Claim i) = (i < 2)"

lemma plic_decode_ok: "plic_decode a = Some r \<Longrightarrow> reg_ok r"
  by (auto simp: plic_decode_def Let_def split: if_splits)

lemma at_index_of_nat: "i < 1024 \<Longrightarrow> at_index xs (of_nat i) = (if i < length xs then Some (xs ! i) else panic)"
  by (simp add: at_index_def unat_of_nat32)

lemma set_index_of_nat: "i < 1024 \<Longrightarrow> set_index xs (of_nat i) v = (if i < length xs then Some (xs[i := v]) else panic)"
  by (simp add: set_index_def unat_of_nat32)

lemma plic_base_add: "a < 0xF4000000 \<Longrightarrow> u_add ck a PLIC_BASE = Some (a + PLIC_BASE)"
  by (intro u_add_exact) (simp add: PLIC_BASE_def word_less_nat_alt)

lemma plic_read_decode:
  assumes "plic_ok p" and "a < 0xF4000000"
  shows "plic_read ck p a Word = (case plic_decode a of None \<Rightarrow> Err LoadAccessFault | Some r \<Rightarrow> Ok (plic_get r p))"
proof -
  have "plic_read ck p a Word = (case plic_decode a of None \<Rightarrow> Err LoadAccessFault
      | Some r \<Rightarrow> (case r of Priority i \<Rightarrow> map_option Inr (at_index (priority p) (of_nat i))
          | Pending i \<Rightarrow> map_option Inr (at_index (pending p) (of_nat i))
          | Enable i \<Rightarrow> map_option Inr (at_index (enable p) (of_nat i))
          | Threshold i \<Rightarrow> map_option Inr (at_index (threshold p) (of_nat i))
          | Claim i \<Rightarrow> map_option Inr (at_index (claim p) (of_nat i))))"
    by (simp only: plic_read_def plic_base_add [OF assms(2)] bind.bind_lunit Let_def simp_thms if_False)
      (rule plic_dispatch [OF assms(2)])
  with assms(1) show ?thesis
    by (auto simp: plic_ok_def at_index_of_nat dest: plic_decode_ok split: option.splits plic_reg.splits)
qed

lemma plic_write_decode:
  assumes "plic_ok p" and "a < 0xF4000000"
  shows "plic_write ck p a v Word =
    (case plic_decode a of None \<Rightarrow> Err StoreAccessFault | Some r \<Rightarrow> map_option Inr (plic_put ck r v p))"
proof -
  have "plic_write ck p a v Word = (case plic_decode a of None \<Rightarrow> Err StoreAccessFault
      | Some r \<Rightarrow> (case r of Priority i \<Rightarrow> do { xs \<leftarrow> set_index (priority p) (of_nat i) v; Ok (p\<lparr>priority := xs\<rparr>) }
          | Pending i \<Rightarrow> do { xs \<leftarrow> set_index (pending p) (of_nat i) v; Ok (p\<lparr>pending := xs\<rparr>) }
          | Enable i \<Rightarrow> do { xs \<leftarrow> set_index (enable p) (of_nat i) v; Ok (p\<lparr>enable := xs\<rparr>) }
          | Threshold i \<Rightarrow> do { xs \<leftarrow> set_index (threshold p) (of_nat i) v; Ok (p\<lparr>threshold := xs\<rparr>) }
          | Claim i \<Rightarrow> map_option Inr (clear_pending ck p v)))"
    by (simp only: plic_write_def plic_base_add [OF assms(2)] bind.bind_lunit Let_def simp_thms if_False)
      (rule plic_dispatch [OF assms(2)])
  with assms(1) show ?thesis
    by (auto simp: plic_ok_def set_index_of_nat dest: plic_decode_ok split: option.splits plic_reg.splits)
qed

lemma plic_sizes:
  "sz \<noteq> Word \<Longrightarrow> plic_read ck p a sz = Err LoadAccessFault"
  "sz \<noteq> Word \<Longrightarrow> plic_write ck p a v sz = Err StoreAccessFault"
  by (simp_all add: plic_read_def plic_write_def)

section \<open>The claim register\<close>

text \<open>The enable bit of context 1, and the shift the code computes the pending bit with.\<close>

definition enabled :: "plic \<Rightarrow> u32 \<Rightarrow> bool" where
  "enabled p irq = bit (enable p ! (32 + unat irq mod 1024 div 32)) (unat irq mod 32)"

definition claims :: "u32 \<Rightarrow> plic \<Rightarrow> plic" where
  "claims irq p = p\<lparr>claim := (claim p)[1 := irq]\<rparr>"

definition irq_panics :: "bool \<Rightarrow> u32 \<Rightarrow> bool" where
  "irq_panics ck irq \<longleftrightarrow> 128 \<le> irq \<or> ck \<and> 32 \<le> irq"

definition irq_mask :: "u32 \<Rightarrow> u32" where
  "irq_mask irq = push_bit (unat (irq AND 31)) 1"

lemma is_enable_1: "plic_ok p \<Longrightarrow> is_enable ck p 1 irq = Some (enabled p irq)"
proof -
  assume p: "plic_ok p"
  let ?i = "irq mod SOURCE_NUM div (WORD_SIZE * 8)" and ?o = "irq mod SOURCE_NUM mod (WORD_SIZE * 8)"
  have i: "unat ?i = unat irq mod 1024 div 32" by (simp add: SOURCE_NUM_def WORD_SIZE_def unat_div unat_mod)
  have o: "unat ?o = unat irq mod 32"
    by (simp add: SOURCE_NUM_def WORD_SIZE_def unat_mod mod_mod_cancel)
  have lt: "unat irq mod 1024 div 32 < 32" by simp
  then have add: "u_add ck 32 ?i = Some (32 + ?i)" "unat (32 + ?i) = 32 + unat irq mod 1024 div 32"
    using i by (auto intro!: u_add_exact simp: unat_word_ariths)
  have "(drop_bit n w AND 1 = 1) \<longleftrightarrow> bit w n" for w :: u32 and n
    by (simp add: AND_1_eq bit_drop_bit_eq)
  with p lt show ?thesis
    by (simp add: is_enable_def Let_def u_mul_def add at_index_def plic_ok_def o enabled_def)
qed

lemma update_claim_eq:
  assumes "plic_ok p"
  shows "update_claim ck p irq = Some (if enabled p irq \<or> irq = 0 then claims irq p else p)"
proof -
  have "length (claim p) = 2" using assms by (simp add: plic_ok_def)
  then show ?thesis by (simp add: update_claim_def is_enable_1 [OF assms] set_index_def claims_def)
qed

lemma enabled_other [simp]:
  "enabled (p\<lparr>pending := xs\<rparr>) irq = enabled p irq" "enabled (p\<lparr>claim := xs\<rparr>) irq = enabled p irq"
  "enabled (claims i p) irq = enabled p irq"
  by (simp_all add: enabled_def claims_def)

lemma plic_ok_update [simp]:
  "plic_ok (p\<lparr>pending := (pending p)[i := v]\<rparr>) = plic_ok p" "plic_ok (claims irq p) = plic_ok p"
  by (simp_all add: plic_ok_def claims_def)

text \<open>The word of the pending array, and that the guest reaches the end of it.\<close>

lemma pending_index:
  assumes "plic_ok p"
  shows "unat (irq div WORD_SIZE) < length (pending p) \<longleftrightarrow> irq < 128" and "unat (irq div WORD_SIZE) = unat irq div 4"
proof -
  show i: "unat (irq div WORD_SIZE) = unat irq div 4" by (simp add: WORD_SIZE_def unat_div)
  have "unat irq div 4 < 32 \<longleftrightarrow> unat irq < 128" by presburger
  then show "unat (irq div WORD_SIZE) < length (pending p) \<longleftrightarrow> irq < 128"
    using assms by (simp add: i plic_ok_def word_less_nat_alt)
qed

lemma u_shl_1: "u_shl ck 1 irq = (if ck \<and> 32 \<le> irq then panic else Some (irq_mask irq))"
  by (simp add: u_shl_def irq_mask_def)

lemma update_pending_eq:
  assumes "plic_ok p"
  shows "update_pending ck p irq = (if irq_panics ck irq then panic else
    (let p' = p\<lparr>pending := (pending p)[unat irq div 4 := pending p ! (unat irq div 4) OR irq_mask irq]\<rparr>
     in Some (if enabled p irq \<or> irq = 0 then claims irq p' else p')))"
  using assms pending_index [OF assms, of irq]
  by (auto simp: update_pending_def u_shl_1 at_index_def set_index_def update_claim_eq irq_panics_def Let_def not_le not_less)

lemma clear_pending_eq:
  assumes "plic_ok p"
  shows "clear_pending ck p irq = (if irq_panics ck irq then panic else
    Some (claims 0 (p\<lparr>pending := (pending p)[unat irq div 4 := pending p ! (unat irq div 4) AND NOT (irq_mask irq)]\<rparr>)))"
  using assms pending_index [OF assms, of irq]
  by (auto simp: clear_pending_def u_shl_1 at_index_def set_index_def update_claim_eq irq_panics_def Let_def not_le not_less)

lemma plic_put_ok: "plic_ok p \<Longrightarrow> plic_put ck r v p = Some p' \<Longrightarrow> plic_ok p'"
  by (cases r) (auto simp: plic_ok_def clear_pending_eq claims_def split: if_splits)

section \<open>The controller in operation\<close>

text \<open>
  What happens to it: the front end raises one of the two interrupts of the board (virtio 1 and the
  UART 10), and the guest stores to its registers. Loads change nothing.
\<close>

definition board_irq :: "u32 \<Rightarrow> bool" where
  "board_irq irq \<longleftrightarrow> irq = 1 \<or> irq = 10"

inductive plic_step :: "bool \<Rightarrow> plic \<Rightarrow> plic \<Rightarrow> bool" for ck where
  raise: "board_irq irq \<Longrightarrow> update_pending ck p irq = Some p' \<Longrightarrow> plic_step ck p p'"
| store: "a < PLIC_SIZE \<Longrightarrow> plic_write ck p a v sz = Ok p' \<Longrightarrow> plic_step ck p p'"

inductive_cases plic_stepE: "plic_step ck p p'"

abbreviation plic_reach :: "bool \<Rightarrow> plic \<Rightarrow> bool" where
  "plic_reach ck p \<equiv> (plic_step ck)\<^sup>*\<^sup>* plic_new p"

lemma plic_size: "a < PLIC_SIZE \<Longrightarrow> a < 0xF4000000"
  by (simp add: PLIC_SIZE_def word_less_nat_alt)

lemma board_irq_ok: "board_irq irq \<Longrightarrow> \<not> irq_panics ck irq"
  by (auto simp: board_irq_def irq_panics_def word_le_nat_alt)

definition plic_inv :: "plic \<Rightarrow> bool" where
  "plic_inv p \<longleftrightarrow> plic_ok p \<and> claim p ! 0 = 0 \<and> claim p ! 1 \<in> {0, 1, 10}"

lemma plic_inv_claims: "plic_inv p \<Longrightarrow> irq \<in> {0, 1, 10} \<Longrightarrow> plic_inv (claims irq p)"
  by (auto simp: plic_inv_def plic_ok_def claims_def)

lemma plic_inv_pending [simp]: "plic_inv (p\<lparr>pending := (pending p)[i := v]\<rparr>) = plic_inv p"
  by (simp add: plic_inv_def)

lemma plic_put_inv:
  assumes "plic_inv p" and "plic_put ck r v p = Some p'"
  shows "plic_inv p'"
proof -
  have ok: "plic_ok p" using assms(1) by (simp add: plic_inv_def)
  show ?thesis
  proof (cases r)
    case (Claim i)
    with assms ok show ?thesis
      by (auto simp: clear_pending_eq split: if_splits intro!: plic_inv_claims)
  qed (use assms in \<open>auto simp: plic_inv_def plic_ok_def\<close>)
qed

lemma plic_step_inv:
  assumes "plic_step ck p p'" and "plic_inv p"
  shows "plic_inv p'"
  using assms
proof (cases rule: plic_step.cases)
  case (raise irq)
  then show ?thesis using assms(2) plic_inv_claims [of _ irq]
    by (auto simp: plic_inv_def update_pending_eq Let_def board_irq_def split: if_splits)
      (auto simp: plic_ok_def claims_def)
next
  case (store a v sz)
  have ok: "plic_ok p" using assms(2) by (simp add: plic_inv_def)
  from store have "sz = Word" using plic_sizes(2) [of sz ck p a v] by (cases sz) auto
  with store show ?thesis using plic_write_decode [OF ok plic_size [OF store(1)], of ck v] plic_put_inv [OF assms(2)]
    by (auto split: option.splits)
qed

lemma plic_reach_inv: "plic_reach ck p \<Longrightarrow> plic_inv p"
proof (induction rule: rtranclp_induct)
  case base
  show ?case using plic_new_ok by (simp add: plic_inv_def) (simp add: plic_new_def)
qed (auto dest: plic_step_inv)

lemma update_pending_reach: "plic_reach ck p \<Longrightarrow> update_pending ck p 10 = Some p' \<Longrightarrow> plic_reach ck p'"
  by (rule rtranclp.rtrancl_into_rtrancl) (auto intro: plic_step.raise [of 10] simp: board_irq_def)

lemma plic_reach_ok: "plic_reach ck p \<Longrightarrow> plic_ok p"
  by (drule plic_reach_inv) (simp add: plic_inv_def)

text \<open>Which addresses are claim registers, and that a register has one address.\<close>

lemma plic_decode_claim: "plic_decode a = Some (Claim i) \<longleftrightarrow> a = 0x200004 \<and> i = 0 \<or> a = 0x201004 \<and> i = 1"
  by (auto simp: plic_decode_cases split: if_splits)

lemma slot_inj:
  assumes "(x - k) div 4 = (y - k) div 4" and "k \<le> x" "k \<le> y" "4 dvd x" "4 dvd y" "4 dvd (k :: nat)"
  shows "x = y"
proof -
  have "4 dvd x - k" "4 dvd y - k" using assms(4-6) by (simp_all add: dvd_diff_nat)
  then have "x - k = y - k" using assms(1) by (metis dvd_mult_div_cancel)
  with assms(2,3) show ?thesis by simp
qed

lemma plic_decode_inj: "plic_decode a = Some r \<Longrightarrow> plic_decode b = Some r \<Longrightarrow> a = b"
  by (auto simp: plic_decode_def Let_def word_unat_eq_iff split: if_splits)
    (auto intro: slot_inj [of _ 4096] slot_inj [of _ 8192])

lemma plic_get_put:
  assumes "plic_put ck r v p = Some p'" and "reg_ok r" and "plic_ok p" and "\<forall>i. r \<noteq> Claim i"
  shows "plic_get s p' = (if s = r then v else plic_get s p)"
  using assms by (cases r; cases s) (auto simp: plic_ok_def nth_list_update)

section \<open>The claim protocol\<close>

text \<open>
  What matters to the guest between two changes of the enable bits: interrupts being raised, loads of
  the claim register of context 1 and stores to it. \<open>plic_run\<close> returns the values loaded.
\<close>

datatype plic_event = Raise u32 | Load_claim | Complete u32

fun plic_run :: "bool \<Rightarrow> plic_event list \<Rightarrow> plic \<Rightarrow> (u32 list \<times> plic) option" where
  "plic_run ck [] p = Some ([], p)"
| "plic_run ck (Raise irq # es) p = do { p \<leftarrow> update_pending ck p irq; plic_run ck es p }"
| "plic_run ck (Load_claim # es) p = do {
     r \<leftarrow> plic_read ck p 0x201004 Word;
     (vs, p) \<leftarrow> plic_run ck es p;
     Some (case r of Inr v \<Rightarrow> v # vs | Inl _ \<Rightarrow> vs, p)
   }"
| "plic_run ck (Complete v # es) p = do {
     r \<leftarrow> plic_write ck p 0x201004 v Word;
     plic_run ck es (case r of Inr p \<Rightarrow> p | Inl _ \<Rightarrow> p)
   }"

text \<open>
  The specification: one cell that the last enabled interrupt overwrites and any completion empties. A
  number of 128 or more, or of 32 or more with overflow checks, stops the emulator.
\<close>

fun claim_cell :: "bool \<Rightarrow> (u32 \<Rightarrow> bool) \<Rightarrow> plic_event list \<Rightarrow> u32 \<Rightarrow> (u32 list \<times> u32) option" where
  "claim_cell ck on [] c = Some ([], c)"
| "claim_cell ck on (Raise irq # es) c =
     (if 128 \<le> irq \<or> ck \<and> 32 \<le> irq then None else claim_cell ck on es (if on irq \<or> irq = 0 then irq else c))"
| "claim_cell ck on (Load_claim # es) c = map_option (\<lambda>(vs, c'). (c # vs, c')) (claim_cell ck on es c)"
| "claim_cell ck on (Complete v # es) c = (if 128 \<le> v \<or> ck \<and> 32 \<le> v then None else claim_cell ck on es 0)"

lemma claim_access:
  assumes "plic_ok p"
  shows "plic_read ck p 0x201004 Word = Ok (claim p ! 1)"
    and "plic_write ck p 0x201004 v Word = map_option Inr (clear_pending ck p v)"
proof -
  have a: "0x201004 < (0xF4000000 :: u32)" by (simp add: word_less_nat_alt)
  have d: "plic_decode 0x201004 = Some (Claim 1)" by (simp add: plic_decode_def Let_def)
  show "plic_read ck p 0x201004 Word = Ok (claim p ! 1)" by (simp add: plic_read_decode [OF assms a] d)
  show "plic_write ck p 0x201004 v Word = map_option Inr (clear_pending ck p v)"
    by (simp add: plic_write_decode [OF assms a] d)
qed

lemma claims_cell [simp]: "plic_ok p \<Longrightarrow> claim (claims irq p) ! Suc 0 = irq"
  by (simp add: claims_def plic_ok_def)

lemma plic_run_cell:
  assumes "plic_ok p" and "\<forall>irq. enabled p irq = on irq"
  shows "map_option (\<lambda>(vs, p'). (vs, claim p' ! 1)) (plic_run ck es p) = claim_cell ck on es (claim p ! 1)"
  using assms
proof (induction es arbitrary: p)
  case (Cons e es)
  show ?case
  proof (cases e)
    case (Raise irq)
    let ?p = "p\<lparr>pending := (pending p)[unat irq div 4 := pending p ! (unat irq div 4) OR irq_mask irq]\<rparr>"
    let ?q = "if on irq \<or> irq = 0 then claims irq ?p else ?p"
    have u: "update_pending ck p irq = (if 128 \<le> irq \<or> ck \<and> 32 \<le> irq then None else Some ?q)"
      using Cons.prems by (auto simp: update_pending_eq Let_def irq_panics_def)
    have "claim ?q ! 1 = (if on irq \<or> irq = 0 then irq else claim p ! 1)" "plic_ok ?q" "\<forall>irq. enabled ?q irq = on irq"
      using Cons.prems by simp_all
    with u obtain q where q: "update_pending ck p irq = (if 128 \<le> irq \<or> ck \<and> 32 \<le> irq then None else Some q)"
      "claim q ! 1 = (if on irq \<or> irq = 0 then irq else claim p ! 1)" "plic_ok q" "\<forall>irq. enabled q irq = on irq" by blast
    from Cons.IH [OF q(3,4)] q(1,2) show ?thesis by (auto simp: Raise)
  next
    case Load_claim
    from Cons.IH [OF Cons.prems] claim_access(1) [OF Cons.prems(1)] show ?thesis
      by (cases "plic_run ck es p"; cases "claim_cell ck on es (claim p ! 1)") (auto simp: Load_claim split_def)
  next
    case (Complete v)
    let ?q = "claims 0 (p\<lparr>pending := (pending p)[unat v div 4 := pending p ! (unat v div 4) AND NOT (irq_mask v)]\<rparr>)"
    have w: "plic_write ck p 0x201004 v Word = (if 128 \<le> v \<or> ck \<and> 32 \<le> v then None else Ok ?q)"
      using Cons.prems by (simp add: claim_access(2) clear_pending_eq irq_panics_def)
    have "claim ?q ! 1 = 0" "plic_ok ?q" "\<forall>irq. enabled ?q irq = on irq" using Cons.prems by simp_all
    with Cons.IH [of ?q] show ?thesis by (simp only: Complete plic_run.simps claim_cell.simps w) simp
  qed
qed simp

section \<open>Properties\<close>

text \<open>
  C24. In every state the controller can reach its arrays keep their lengths, the claim register of
  context 0 is 0 and the one of context 1 names no interrupt or one the board has; raising an interrupt
  of the board never panics, and what the claim register holds is what \<open>get_interrupt\<close> returns.
\<close>

theorem plic_invariant:
  assumes "plic_reach ck p"
  shows "plic_ok p \<and> claim p ! 0 = 0 \<and> get_interrupt p \<in> {None, Some 1, Some 10}
    \<and> (board_irq irq \<longrightarrow> (\<exists>p'. update_pending ck p irq = Some p'))"
  using plic_reach_inv [OF assms] board_irq_ok by (auto simp: plic_inv_def get_interrupt_def update_pending_eq Let_def)

theorem plic_invariant_witness:
  "\<exists>p. plic_step True plic_new p \<and> plic_ok p \<and> get_interrupt p \<in> {None, Some 1, Some 10}"
proof -
  obtain p where p: "update_pending True plic_new 10 = Some p"
    using board_irq_ok [of 10 True] by (auto simp: update_pending_eq [OF plic_new_ok] board_irq_def Let_def)
  then have s: "plic_step True plic_new p" by (intro raise [of 10]) (simp_all add: board_irq_def)
  with plic_invariant [OF r_into_rtranclp [of "plic_step True"]] show ?thesis by blast
qed

text \<open>
  C34. A guest can stop the emulator: an access to the map panics exactly when it is a word store of a
  number of 128 or more (32 or more with overflow checks) to a claim register. Every other access
  returns a value or raises an access fault.
\<close>

theorem plic_panics_iff:
  assumes "plic_reach ck p" and "a < PLIC_SIZE"
  shows "plic_read ck p a sz \<noteq> panic
    \<and> (plic_write ck p a v sz = panic \<longleftrightarrow> sz = Word \<and> (a = 0x200004 \<or> a = 0x201004) \<and> (128 \<le> v \<or> ck \<and> 32 \<le> v))"
proof (cases "sz = Word")
  case True
  have ok: "plic_ok p" using plic_reach_ok [OF assms(1)] .
  have put: "plic_put ck r v p = None \<longleftrightarrow> (\<exists>i. r = Claim i) \<and> irq_panics ck v" for r
    by (cases r) (simp_all add: clear_pending_eq [OF ok])
  have "(\<exists>i. plic_decode a = Some (Claim i)) \<longleftrightarrow> a = 0x200004 \<or> a = 0x201004"
    by (auto simp: plic_decode_claim)
  with True put plic_read_decode [OF ok plic_size [OF assms(2)], of ck] plic_write_decode [OF ok plic_size [OF assms(2)], of ck v]
  show ?thesis by (auto simp: irq_panics_def split: option.splits)
qed (simp add: plic_sizes)

theorem plic_panics_iff_witness:
  "plic_write False plic_new 0x200004 200 Word = panic \<and> plic_write True plic_new 0x201004 32 Word = panic
   \<and> plic_write False plic_new 0x201004 32 Word \<noteq> panic"
  using plic_panics_iff [of False plic_new "0x200004" Word 200] plic_panics_iff [of True plic_new "0x201004" Word 32]
    plic_panics_iff [of False plic_new "0x201004" Word 32]
  by (simp add: PLIC_SIZE_def word_less_nat_alt word_le_nat_alt)

text \<open>
  Except for the claim registers the controller is a memory: after a store that did not fault a
  word load of the same register returns the value stored, and of any other register what it returned
  before.
\<close>

theorem plic_load_after_store:
  assumes "plic_reach ck p" and "a < PLIC_SIZE" and "b < PLIC_SIZE"
    and "plic_write ck p a v Word = Ok p'" and "a \<noteq> 0x200004" and "a \<noteq> 0x201004"
  shows "plic_read ck p' b Word = (if b = a then Ok v else plic_read ck p b Word)"
proof -
  have ok: "plic_ok p" using plic_reach_ok [OF assms(1)] .
  from assms(4) obtain r where r: "plic_decode a = Some r" "plic_put ck r v p = Some p'"
    by (auto simp: plic_write_decode [OF ok plic_size [OF assms(2)]] split: option.splits)
  then have "\<forall>i. r \<noteq> Claim i" using assms(5,6) plic_decode_claim [of a] by auto
  with r(2) plic_decode_ok [OF r(1)] ok have get: "plic_get s p' = (if s = r then v else plic_get s p)" for s
    by (rule plic_get_put)
  have ok': "plic_ok p'" using plic_put_ok [OF ok r(2)] .
  note rd = plic_read_decode [OF ok plic_size [OF assms(3)], of ck] plic_read_decode [OF ok' plic_size [OF assms(3)], of ck]
  show ?thesis
  proof (cases "plic_decode b")
    case None
    then have "b \<noteq> a" using r(1) by auto
    with None show ?thesis by (simp add: rd)
  next
    case (Some s)
    then have "s = r \<longleftrightarrow> b = a" using r(1) plic_decode_inj [of b r a] by auto
    with Some show ?thesis by (simp add: rd get)
  qed
qed

theorem plic_load_after_store_witness:
  "\<exists>p'. plic_write True plic_new 0x2080 0x402 Word = Ok p' \<and> plic_read True p' 0x2080 Word = Ok 0x402"
proof -
  let ?a = "0x2080 :: u32"
  have a: "?a < PLIC_SIZE" by (simp add: PLIC_SIZE_def word_less_nat_alt)
  have "plic_decode ?a = Some (Enable 32)" by (simp add: plic_decode_def Let_def)
  then obtain p' where w: "plic_write True plic_new ?a 0x402 Word = Ok p'"
    using plic_write_decode [OF plic_new_ok plic_size [OF a], of True "0x402"] by auto
  with plic_load_after_store [OF rtranclp.rtrancl_refl a a w] show ?thesis by simp
qed

text \<open>
  C13. For the guest the controller is one cell: for every sequence of interrupts raised and of accesses
  to the claim register, a load returns the interrupt raised last among the enabled ones since
  the last completion, and 0 if there was none; priorities and thresholds play no part. The sequence
  panics exactly when it raises or completes a number of 128 or more, or of 32 or more with overflow checks.
\<close>

theorem claim_protocol:
  assumes "plic_reach ck p"
  shows "map_option (\<lambda>(vs, p'). (vs, claim p' ! 1)) (plic_run ck es p) = claim_cell ck (enabled p) es (claim p ! 1)"
  using plic_run_cell [OF plic_reach_ok [OF assms]] by simp

text \<open>The controller after the guest enabled both interrupts of the board for context 1.\<close>

definition both_enabled :: plic where
  "both_enabled = plic_new\<lparr>enable := (replicate 64 0)[32 := 0x402]\<rparr>"

lemma both_enabled_reach: "plic_reach ck both_enabled"
proof -
  let ?a = "0x2080 :: u32"
  have a: "?a < PLIC_SIZE" by (simp add: PLIC_SIZE_def word_less_nat_alt)
  have "plic_decode ?a = Some (Enable 32)" by (simp add: plic_decode_def Let_def)
  then have "plic_write ck plic_new ?a 0x402 Word = Ok both_enabled"
    using plic_write_decode [OF plic_new_ok plic_size [OF a], of ck "0x402"] by (simp add: both_enabled_def plic_new_def)
  then show ?thesis using store [OF a] by blast
qed

lemma both_enabled_on: "enabled both_enabled 1" "enabled both_enabled 10" "claim both_enabled ! 1 = 0"
proof -
  have "enable both_enabled ! 32 = 0x402" by (simp add: both_enabled_def)
  then show "enabled both_enabled 1" "enabled both_enabled 10" by (simp_all add: enabled_def)
  show "claim both_enabled ! 1 = 0" by (simp add: both_enabled_def plic_new_def)
qed

theorem claim_protocol_witness:
  "(\<exists>p'. plic_run True [Raise 10, Raise 1, Load_claim, Complete 1, Load_claim] both_enabled = Some ([1, 0], p'))
   \<and> plic_run False [Raise 10, Complete 128, Load_claim] both_enabled = None"
  using claim_protocol [OF both_enabled_reach, of True "[Raise 10, Raise 1, Load_claim, Complete 1, Load_claim]"]
    claim_protocol [OF both_enabled_reach, of False "[Raise 10, Complete 128, Load_claim]"] both_enabled_on
  by (auto simp: word_le_nat_alt)

text \<open>
  The pending bit of the UART (interrupt 10) is not where the map documents it, in the word at
  \<open>0x1000\<close>, but in bit 10 of the word at \<open>0x1008\<close>, the place of interrupt 74.
\<close>

theorem uart_pending_misplaced:
  assumes "plic_reach ck p" and "update_pending ck p 10 = Some p'"
  shows "plic_read ck p' 0x1000 Word = plic_read ck p 0x1000 Word
    \<and> (\<exists>w. plic_read ck p' 0x1008 Word = Ok w \<and> bit w 10)"
proof -
  have ok: "plic_ok p" using plic_reach_ok [OF assms(1)] .
  have ok': "plic_ok p'" using assms update_pending_reach by (blast intro: plic_reach_ok)
  have m: "irq_mask 10 = 2 ^ 10" by (simp add: irq_mask_def)
  have "length (pending p) = 32" using ok by (simp add: plic_ok_def)
  then have pe: "pending p' ! 0 = pending p ! 0" "pending p' ! 2 = pending p ! 2 OR 2 ^ 10"
    using assms(2) by (auto simp: update_pending_eq [OF ok] m claims_def Let_def split: if_splits)
  have a: "0x1000 < (0xF4000000 :: u32)" "0x1008 < (0xF4000000 :: u32)" by (simp_all add: word_less_nat_alt)
  have d: "plic_decode 0x1000 = Some (Pending 0)" "plic_decode 0x1008 = Some (Pending 2)"
    by (simp_all add: plic_decode_def Let_def)
  have "bit (pending p ! 2 OR 2 ^ 10) 10" by (subst bit_OR_exp) simp_all
  then show ?thesis
    by (simp only: plic_read_decode [OF ok a(1)] plic_read_decode [OF ok' a(1)] plic_read_decode [OF ok' a(2)] d pe
        option.case plic_get.simps) simp
qed

theorem uart_pending_misplaced_witness:
  "\<exists>p'. update_pending True plic_new 10 = Some p' \<and> plic_read True p' 0x1000 Word = Ok 0"
proof -
  obtain p' where p: "update_pending True plic_new 10 = Some p'"
    using board_irq_ok [of 10 True] by (auto simp: update_pending_eq [OF plic_new_ok] board_irq_def Let_def)
  have "plic_decode 0x1000 = Some (Pending 0)" "(0x1000 :: u32) < 0xF4000000"
    by (simp_all add: plic_decode_def Let_def word_less_nat_alt)
  then have "plic_read True plic_new 0x1000 Word = Ok 0"
    using plic_read_decode [OF plic_new_ok, of "0x1000" True] by (simp add: plic_new_def)
  with uart_pending_misplaced [OF rtranclp.rtrancl_refl p] p show ?thesis by simp
qed

end
