(* ===== verification/UartDevice.thy ===== *)
theory UartDevice
  imports Device Machine
begin

text \<open>
  The emulator's UART (\<open>src/devices/uart.rs\<close>): 256 byte registers behind a mutex, shared between the
  CPU thread, which loads and stores them, and a reader thread, which moves the bytes of the standard
  input to the receive register one at a time. \<open>Machine\<close> gives the C programs a UART that is a stream
  of bytes; here that is proved to be what the device provides.

  A step of the reader is what it does between two points where the CPU thread may run: the call of
  \<open>read\<close>, the test under the lock with going to sleep on the condition variable, and the delivery.
\<close>

definition UART_BASE :: u32 where "UART_BASE = 0x10000000"
definition UART_SIZE :: u32 where "UART_SIZE = 0x100"
definition UART_IRQ :: u32 where "UART_IRQ = 10"
definition UART_RHR :: u32 where "UART_RHR = UART_BASE"
definition UART_THR :: u32 where "UART_THR = UART_BASE"
definition UART_LSR :: u32 where "UART_LSR = UART_BASE + 5"
definition UART_LSR_RX :: byte where "UART_LSR_RX = 1"
definition UART_LSR_TX :: byte where "UART_LSR_TX = push_bit 5 1"

lemmas uart_map = UART_BASE_def UART_RHR_def UART_THR_def UART_LSR_def UART_LSR_RX_def UART_LSR_TX_def

text \<open>Where the reader thread is: in \<open>read\<close>, at the head of its waiting loop, or asleep in it.\<close>

datatype reader_pc = Reading | Checking | Sleeping

record uart =
  umem :: "byte list"
  interrupting :: bool
  reader :: reader_pc
  held :: byte
  stdin :: "byte list"
  closed :: bool
  stdout :: "byte list"

definition uart_new :: "byte list \<Rightarrow> bool \<Rightarrow> uart" where
  "uart_new input eof = \<lparr>umem = (replicate 256 0)[unat (UART_LSR - UART_BASE) := 0 OR UART_LSR_TX],
     interrupting = False, reader = Reading, held = 0, stdin = input, closed = eof, stdout = []\<rparr>"

definition is_interrupting :: "uart \<Rightarrow> bool" where
  "is_interrupting u = interrupting u"

text \<open>\<open>print!\<close> of a \<open>char\<close> writes its UTF-8 encoding.\<close>

definition utf8 :: "byte \<Rightarrow> byte list" where
  "utf8 c = (if c < 128 then [c] else [0xC0 OR drop_bit 6 c, 0x80 OR (c AND 0x3F)])"

section \<open>The CPU thread\<close>

definition notify_one :: "uart \<Rightarrow> uart" where
  "notify_one u = (if reader u = Sleeping then u\<lparr>reader := Checking\<rparr> else u)"

definition uart_load :: "bool \<Rightarrow> uart \<Rightarrow> u32 \<Rightarrow> sizes \<Rightarrow> (u32 \<times> uart) outcome" where
  "uart_load checked u addr sz =
     (if sz \<noteq> Byte then Err LoadAccessFault else do {
        a \<leftarrow> u_add checked addr UART_BASE;
        if a = UART_RHR then do {
          let u = notify_one u;
          lsr \<leftarrow> at_index (umem u) (UART_LSR - UART_BASE);
          m \<leftarrow> set_index (umem u) (UART_LSR - UART_BASE) (lsr AND NOT UART_LSR_RX);
          let u = u\<lparr>umem := m\<rparr>;
          c \<leftarrow> at_index (umem u) (UART_RHR - UART_BASE);
          Ok (ucast c, u)
        } else do {
          c \<leftarrow> at_index (umem u) addr;
          Ok (ucast c, u)
        }
      })"

definition uart_store :: "bool \<Rightarrow> uart \<Rightarrow> u32 \<Rightarrow> sizes \<Rightarrow> u32 \<Rightarrow> uart outcome" where
  "uart_store checked u addr sz val =
     (if sz \<noteq> Byte then Err StoreAccessFault else do {
        a \<leftarrow> u_add checked addr UART_BASE;
        if a = UART_THR then Ok (u\<lparr>stdout := stdout u @ utf8 (ucast val)\<rparr>)
        else do { m \<leftarrow> set_index (umem u) addr (ucast val); Ok (u\<lparr>umem := m\<rparr>) }
      })"

section \<open>The reader thread\<close>

definition rx_ready :: "uart \<Rightarrow> bool" where
  "rx_ready u \<longleftrightarrow> umem u ! unat (UART_LSR - UART_BASE) AND UART_LSR_RX = 1"

definition deliver :: "uart \<Rightarrow> uart" where
  "deliver u = (let m = (umem u)[0 := held u];
                    l = unat (UART_LSR - UART_BASE)
     in u\<lparr>umem := m[l := m ! l OR UART_LSR_RX], interrupting := True, reader := Reading\<rparr>)"

text \<open>
  At the end of the input \<open>read\<close> returns \<open>Ok(0)\<close> and leaves the byte as it was. \<open>wake\<close> is the spurious
  wake-up a condition variable may have. Reads that fail are left out.
\<close>

inductive reader_step :: "uart \<Rightarrow> uart \<Rightarrow> bool" where
  read: "reader u = Reading \<Longrightarrow> stdin u = c # cs \<Longrightarrow> reader_step u (u\<lparr>held := c, stdin := cs, reader := Checking\<rparr>)"
| eof: "reader u = Reading \<Longrightarrow> stdin u = [] \<Longrightarrow> closed u \<Longrightarrow> reader_step u (u\<lparr>reader := Checking\<rparr>)"
| sleep: "reader u = Checking \<Longrightarrow> rx_ready u \<Longrightarrow> reader_step u (u\<lparr>reader := Sleeping\<rparr>)"
| wake: "reader u = Sleeping \<Longrightarrow> reader_step u (u\<lparr>reader := Checking\<rparr>)"
| store: "reader u = Checking \<Longrightarrow> \<not> rx_ready u \<Longrightarrow> reader_step u (deliver u)"

inductive_simps reader_stepE: "reader_step u u'"

text \<open>
  A guest that follows the protocol: it loads the status register, loads the receive register only
  when the status said that a byte is ready, and stores to the transmit register.
\<close>

inductive uart_step :: "bool \<Rightarrow> uart \<Rightarrow> uart \<Rightarrow> bool" for ck where
  reader: "reader_step u u' \<Longrightarrow> uart_step ck u u'"
| status: "uart_load ck u 5 Byte = Ok (w, u') \<Longrightarrow> uart_step ck u u'"
| receive: "rx_ready u \<Longrightarrow> uart_load ck u 0 Byte = Ok (w, u') \<Longrightarrow> uart_step ck u u'"
| transmit: "uart_store ck u 0 Byte v = Ok u' \<Longrightarrow> uart_step ck u u'"

section \<open>The device as a stream\<close>

text \<open>The bytes still to come, wherever they are.\<close>

definition incoming :: "uart \<Rightarrow> byte list" where
  "incoming u = (if rx_ready u then [umem u ! 0] else []) @ (if reader u = Reading then [] else [held u]) @ stdin u"

text \<open>The registers are there, and the reader sleeps only while a byte is waiting.\<close>

definition uart_inv :: "uart \<Rightarrow> bool" where
  "uart_inv u \<longleftrightarrow> length (umem u) = 256 \<and> (reader u = Sleeping \<longrightarrow> rx_ready u)"

text \<open>The machine of the C programs sees this device.\<close>

definition provides :: "uart \<Rightarrow> machine \<Rightarrow> bool" where
  "provides u st \<longleftrightarrow> uart_inv u \<and> \<not> closed u \<and> incoming u = uart_in st
     \<and> stdout u = concat (map utf8 (uart_out st))"

lemma uart_inv_new: "uart_inv (uart_new input eof)" "\<not> rx_ready (uart_new input eof)" "incoming (uart_new input eof) = input"
  by (simp_all add: uart_inv_def uart_new_def rx_ready_def uart_map incoming_def)

lemma RX_bit: "(b AND UART_LSR_RX = 1) = odd b" "odd (b OR UART_LSR_RX)" "even (b AND NOT UART_LSR_RX)"
  by (simp_all add: UART_LSR_RX_def and_one_eq odd_iff_mod_2_eq_one [symmetric] even_or_iff even_and_iff even_not_iff)

lemma rx_ready_odd: "rx_ready u \<longleftrightarrow> odd (umem u ! 5)"
  by (simp add: rx_ready_def uart_map) (simp add: and_one_eq odd_iff_mod_2_eq_one)

text \<open>What the accesses of the protocol do.\<close>

lemma load_status:
  "length (umem u) = 256 \<Longrightarrow> uart_load ck u 5 Byte = Ok (ucast (umem u ! 5), u)"
  by (simp add: uart_load_def u_add_def uart_map at_index_def)

definition received :: "uart \<Rightarrow> uart" where
  "received u = (notify_one u)\<lparr>umem := (umem u)[5 := umem u ! 5 AND NOT UART_LSR_RX]\<rparr>"

lemma load_receive:
  assumes "length (umem u) = 256"
  shows "uart_load ck u 0 Byte = Ok (ucast (umem u ! 0), received u)"
proof -
  have "umem u \<noteq> []" using assms by auto
  with assms show ?thesis
    by (simp add: uart_load_def u_add_def uart_map at_index_def set_index_def notify_one_def received_def Let_def)
qed

lemma store_transmit: "uart_store ck u 0 Byte v = Ok (u\<lparr>stdout := stdout u @ utf8 (ucast v)\<rparr>)"
  by (simp add: uart_store_def u_add_def uart_map)

lemma received_inv:
  assumes "uart_inv u"
  shows "uart_inv (received u)" "\<not> rx_ready (received u)" "rx_ready u \<Longrightarrow> incoming u = umem u ! 0 # incoming (received u)"
    "closed (received u) = closed u" "stdout (received u) = stdout u"
  using assms by (auto simp: received_def notify_one_def uart_inv_def rx_ready_odd RX_bit incoming_def)

lemma deliver_inv:
  assumes "uart_inv u" and "\<not> rx_ready u" and "reader u = Checking"
  shows "uart_inv (deliver u)" "rx_ready (deliver u)" "incoming (deliver u) = incoming u"
    "umem (deliver u) ! 0 = held u" "interrupting (deliver u)"
proof -
  have "odd (b OR 1)" for b :: byte by (simp add: even_or_iff)
  with assms show "uart_inv (deliver u)" "rx_ready (deliver u)" "incoming (deliver u) = incoming u"
    "umem (deliver u) ! 0 = held u" "interrupting (deliver u)"
    by (auto simp: deliver_def uart_inv_def rx_ready_odd incoming_def Let_def uart_map)
qed

lemma reader_step_inv:
  assumes "reader_step u u'" and "uart_inv u"
  shows "uart_inv u'" and "closed u' = closed u" and "stdout u' = stdout u"
    and "\<not> closed u \<Longrightarrow> incoming u' = incoming u" and "interrupting u \<Longrightarrow> interrupting u'"
  using assms deliver_inv
  by (auto simp: reader_stepE uart_inv_def rx_ready_odd incoming_def deliver_def Let_def uart_map)

lemma uart_provides_stream_steps: "reader_step u u' \<Longrightarrow> provides u st \<Longrightarrow> provides u' st"
  using reader_step_inv [of u u'] by (simp add: provides_def)

section \<open>Properties\<close>

text \<open>
  C3. The UART device is the byte stream of \<open>Machine\<close>: whatever the reader thread does in between,
  the next byte a polling guest receives is the next of \<open>uart_in\<close>, none is lost, repeated or reordered,
  and a byte stored to the transmit register is the next printed, in UTF-8. No access of the protocol
  fails.
\<close>

theorem uart_provides_stream:
  assumes "provides u st"
  shows "(\<forall>u'. reader_step u u' \<longrightarrow> provides u' st)
    \<and> uart_load ck u 5 Byte = Ok (ucast (umem u ! 5), u) \<and> (odd (umem u ! 5) \<longleftrightarrow> rx_ready u)
    \<and> (rx_ready u \<longrightarrow> (\<exists>c st' u'. uart_load ck u 0 Byte = Ok (ucast c, u') \<and> UART_read st = Some (c, st') \<and> provides u' st'))
    \<and> (\<exists>u'. uart_store ck u 0 Byte (ucast v) = Ok u' \<and> provides u' (UART_write v st))"
proof (intro conjI allI impI)
  note p = assms [unfolded provides_def]
  have len: "length (umem u) = 256" using p by (simp add: uart_inv_def)
  show "provides u' st" if "reader_step u u'" for u'
    using uart_provides_stream_steps [OF that assms] .
  show "uart_load ck u 5 Byte = Ok (ucast (umem u ! 5), u)" by (rule load_status [OF len])
  show "odd (umem u ! 5) \<longleftrightarrow> rx_ready u" by (simp add: rx_ready_odd)
  show "\<exists>c st' u'. uart_load ck u 0 Byte = Ok (ucast c, u') \<and> UART_read st = Some (c, st') \<and> provides u' st'" if "rx_ready u"
  proof -
    have i: "uart_in st = umem u ! 0 # incoming (received u)" using p received_inv(3) [of u] that by simp
    then have "UART_read st = Some (umem u ! 0, st\<lparr>uart_in := incoming (received u)\<rparr>)" by (simp add: UART_read_def)
    moreover have "provides (received u) (st\<lparr>uart_in := incoming (received u)\<rparr>)"
      using p received_inv [of u] by (simp add: provides_def)
    ultimately show ?thesis using load_receive [OF len] by blast
  qed
  have "provides (u\<lparr>stdout := stdout u @ utf8 v\<rparr>) (UART_write v st)"
    using p by (auto simp: provides_def UART_write_def uart_inv_def incoming_def rx_ready_odd split: if_splits)
  then show "\<exists>u'. uart_store ck u 0 Byte (ucast v) = Ok u' \<and> provides u' (UART_write v st)"
    by (simp add: store_transmit)
qed

text \<open>A board just started on an input that stays open.\<close>

definition started :: "byte list \<Rightarrow> machine" where
  "started input = (boot (\<lambda>_. 0))\<lparr>uart_in := input\<rparr>"

lemma provides_new: "provides (uart_new input False) (started input)"
  by (simp add: provides_def uart_inv_new started_def) (simp add: uart_new_def)

theorem uart_provides_stream_witness:
  "\<exists>u'. uart_store True (uart_new [65] False) 0 Byte (ucast (66 :: byte)) = Ok u' \<and> provides u' (UART_write 66 (started [65]))"
  using uart_provides_stream [OF provides_new, where ck = True and v = 66] by blast

text \<open>
  \<open>inevitable P u\<close>: the reader thread, left alone, reaches a state with \<open>P\<close>, whichever of its steps it
  takes, and it is never stuck before.
\<close>

inductive inevitable :: "(uart \<Rightarrow> bool) \<Rightarrow> uart \<Rightarrow> bool" for P where
  now: "P u \<Longrightarrow> inevitable P u"
| later: "reader_step u u' \<Longrightarrow> (\<And>u'. reader_step u u' \<Longrightarrow> inevitable P u') \<Longrightarrow> inevitable P u"

lemma inevitable_checking:
  assumes "uart_inv u" and "\<not> rx_ready u" and "reader u = Checking" and "P (deliver u)"
  shows "inevitable P u"
proof (rule later)
  show "reader_step u (deliver u)" using assms by (intro store)
  fix u' assume "reader_step u u'"
  with assms(2,3) have "u' = deliver u" by (auto simp: reader_stepE)
  with assms(4) show "inevitable P u'" by (simp add: now)
qed

lemma rx_ready_reading [simp]:
  "rx_ready (u\<lparr>held := c\<rparr>) = rx_ready u" "rx_ready (u\<lparr>stdin := cs\<rparr>) = rx_ready u"
  "rx_ready (u\<lparr>reader := pc\<rparr>) = rx_ready u"
  by (simp_all add: rx_ready_def)

lemma inevitable_reading:
  assumes "uart_inv u" and "\<not> rx_ready u" and "reader u = Reading" and "stdin u = c # cs"
    and "P (deliver (u\<lparr>held := c, stdin := cs, reader := Checking\<rparr>))"
  shows "inevitable P u"
proof (rule later)
  show "reader_step u (u\<lparr>held := c, stdin := cs, reader := Checking\<rparr>)" using assms by (intro read)
  fix u' assume "reader_step u u'"
  with assms(3,4) have "u' = u\<lparr>held := c, stdin := cs, reader := Checking\<rparr>" by (auto simp: reader_stepE)
  with assms show "inevitable P u'"
    by (auto intro!: inevitable_checking simp: uart_inv_def)
qed

lemma inevitable_eof:
  assumes "uart_inv u" and "\<not> rx_ready u" and "reader u = Reading" and "stdin u = []" and "closed u"
    and "P (deliver (u\<lparr>reader := Checking\<rparr>))"
  shows "inevitable P u"
proof (rule later)
  show "reader_step u (u\<lparr>reader := Checking\<rparr>)" using assms by (intro eof)
  fix u' assume "reader_step u u'"
  with assms(3,4) have "u' = u\<lparr>reader := Checking\<rparr>" by (auto simp: reader_stepE)
  with assms show "inevitable P u'"
    by (auto intro!: inevitable_checking simp: uart_inv_def)
qed

text \<open>
  C14. A guest polling for a byte does not wait for ever: when a byte is still to come the reader thread
  inevitably makes it ready, and it is the next one.
\<close>

theorem byte_inevitable:
  assumes "provides u st" and "uart_in st = c # cs"
  shows "inevitable (\<lambda>u. rx_ready u \<and> umem u ! 0 = c \<and> provides u st) u"
proof (cases "rx_ready u")
  case True
  with assms show ?thesis by (intro now) (auto simp: provides_def incoming_def)
next
  case False
  have i: "uart_inv u" "incoming u = c # cs" using assms by (simp_all add: provides_def)
  have keep: "provides u' st" if "reader_step u u'" "provides u st" for u u'
    using uart_provides_stream_steps [OF that] .
  show ?thesis
  proof (cases "reader u")
    case Reading
    with i(2) False have s: "stdin u = c # cs" by (simp add: incoming_def)
    let ?u = "u\<lparr>held := c, stdin := cs, reader := Checking\<rparr>"
    have p: "provides ?u st" using keep [OF read [OF Reading s] assms(1)] .
    then have "uart_inv ?u" "reader_step ?u (deliver ?u)" using False by (auto simp: provides_def intro!: store)
    with keep [OF _ p] deliver_inv [of ?u] False show ?thesis
      by (intro inevitable_reading [OF i(1) False Reading s]) simp
  next
    case Checking
    with i(2) False have h: "held u = c" by (simp add: incoming_def)
    have "reader_step u (deliver u)" using Checking False by (rule store)
    with keep [OF _ assms(1)] deliver_inv [OF i(1) False Checking] h show ?thesis
      by (intro inevitable_checking [OF i(1) False Checking]) simp
  next
    case Sleeping
    with i(1) False show ?thesis by (simp add: uart_inv_def)
  qed
qed

theorem byte_inevitable_witness:
  "inevitable (\<lambda>u. rx_ready u \<and> umem u ! 0 = 65 \<and> provides u (started [65, 66])) (uart_new [65, 66] False)"
  by (rule byte_inevitable [OF provides_new]) (simp add: started_def)

text \<open>A state in which the last byte read is ready again, and what follows when the guest takes it.\<close>

definition again :: "byte \<Rightarrow> uart \<Rightarrow> bool" where
  "again c u \<longleftrightarrow> rx_ready u \<and> umem u ! 0 = c \<and> stdin u = [] \<and> closed u \<and> held u = c \<and> uart_inv u"

lemma checking_again:
  assumes "uart_inv u" and "\<not> rx_ready u" and "reader u = Checking" and "stdin u = []" and "closed u"
  shows "inevitable (again (held u)) u"
proof (rule inevitable_checking [OF assms(1-3)])
  show "again (held u) (deliver u)"
    using deliver_inv [OF assms(1-3)] assms(4,5) by (simp add: again_def) (simp add: deliver_def Let_def)
qed

lemma eof_again:
  assumes "uart_inv u" and "\<not> rx_ready u" and "reader u = Reading" and "stdin u = []" and "closed u"
  shows "inevitable (again (held u)) u"
proof (rule inevitable_eof [OF assms])
  have "uart_inv (u\<lparr>reader := Checking\<rparr>)" using assms(1) by (simp add: uart_inv_def)
  with deliver_inv [of "u\<lparr>reader := Checking\<rparr>"] assms(2,4,5)
  show "again (held u) (deliver (u\<lparr>reader := Checking\<rparr>))"
    by (simp add: again_def) (simp add: deliver_def Let_def)
qed

lemma received_again:
  assumes "again c u"
  shows "uart_inv (received u)" "\<not> rx_ready (received u)" "stdin (received u) = []" "closed (received u)"
    "held (received u) = c"
  using assms received_inv [of u] by (auto simp: again_def) (auto simp: received_def notify_one_def)

text \<open>
  The end of the input is not reported to the guest: once it is reached the last byte read is
  delivered again each time the guest has taken it, without end.
\<close>

theorem eof_repeats_last_byte:
  assumes "uart_inv u" and "\<not> rx_ready u" and "reader u = Reading" and "stdin u = []" and "closed u"
  shows "inevitable (again (held u)) u \<and> (\<forall>u'. again (held u) u' \<longrightarrow>
    uart_load ck u' 0 Byte = Ok (ucast (held u), received u') \<and> inevitable (again (held u)) (received u'))"
proof (intro conjI allI impI)
  show "inevitable (again (held u)) u" using eof_again [OF assms] .
  fix u' assume a: "again (held u) u'"
  then have i: "length (umem u') = 256" by (simp add: again_def uart_inv_def)
  show "uart_load ck u' 0 Byte = Ok (ucast (held u), received u')"
    using load_receive [OF i] a by (simp add: again_def)
  show "inevitable (again (held u)) (received u')"
    using received_again [OF a] eof_again [of "received u'"] checking_again [of "received u'"]
    by (cases "reader (received u')") (auto simp: uart_inv_def)
qed

theorem eof_repeats_last_byte_witness:
  "inevitable (again 0) (uart_new [] True)"
  using eof_repeats_last_byte [of "uart_new [] True" True] uart_inv_new(1,2) [of "[]" True]
  by (simp add: uart_new_def)

end
