(* ===== verification/Virtio.thy ===== *)
theory Virtio
  imports Device Machine
begin

text \<open>
  The virtio block device (\<open>src/devices/viritio.rs\<close>): its register file, the addresses of its queue
  and the disk access the front end performs when the guest has notified the queue.
\<close>

definition VIRTIO_BASE :: u32 where "VIRTIO_BASE = 0x10001000"
definition VIRTIO_SIZE :: u32 where "VIRTIO_SIZE = 0x1000"
definition VIRTIO_IRQ :: u32 where "VIRTIO_IRQ = 1"
definition VRING_DESC_SIZE :: u32 where "VRING_DESC_SIZE = 16"
definition QUEUE_SIZE :: u32 where "QUEUE_SIZE = 8"
definition SECTOR_SIZE :: u32 where "SECTOR_SIZE = 512"
definition VIRTQ_DESC_F_NEXT :: u32 where "VIRTQ_DESC_F_NEXT = 1"
definition VIRTQ_DESC_F_WRITE :: u32 where "VIRTQ_DESC_F_WRITE = 2"

text \<open>Registers are four bytes from these addresses on; \<open>CONFIG\<close> is eight.\<close>

definition MAGIC :: u32 where "MAGIC = VIRTIO_BASE"
definition VERSION :: u32 where "VERSION = VIRTIO_BASE + 0x4"
definition DEVICE_ID :: u32 where "DEVICE_ID = VIRTIO_BASE + 0x8"
definition VENDOR_ID :: u32 where "VENDOR_ID = VIRTIO_BASE + 0xc"
definition DEVICE_FEATURES :: u32 where "DEVICE_FEATURES = VIRTIO_BASE + 0x10"
definition DEVICE_FEATURES_SEL :: u32 where "DEVICE_FEATURES_SEL = VIRTIO_BASE + 0x14"
definition DRIVER_FEATURES :: u32 where "DRIVER_FEATURES = VIRTIO_BASE + 0x20"
definition DRIVER_FEATURES_SEL :: u32 where "DRIVER_FEATURES_SEL = VIRTIO_BASE + 0x24"
definition GUEST_PAGE_SIZE :: u32 where "GUEST_PAGE_SIZE = VIRTIO_BASE + 0x28"
definition QUEUE_SEL :: u32 where "QUEUE_SEL = VIRTIO_BASE + 0x30"
definition QUEUE_NUM_MAX :: u32 where "QUEUE_NUM_MAX = VIRTIO_BASE + 0x34"
definition QUEUE_NUM :: u32 where "QUEUE_NUM = VIRTIO_BASE + 0x38"
definition QUEUE_ALIGN :: u32 where "QUEUE_ALIGN = VIRTIO_BASE + 0x3c"
definition QUEUE_PFN :: u32 where "QUEUE_PFN = VIRTIO_BASE + 0x40"
definition QUEUE_NOTIFY :: u32 where "QUEUE_NOTIFY = VIRTIO_BASE + 0x50"
definition INTERRUPT_STATUS :: u32 where "INTERRUPT_STATUS = VIRTIO_BASE + 0x60"
definition INTERRUPT_ACK :: u32 where "INTERRUPT_ACK = VIRTIO_BASE + 0x64"
definition STATUS :: u32 where "STATUS = VIRTIO_BASE + 0x70"
definition CONFIG :: u32 where "CONFIG = VIRTIO_BASE + 0x100"
definition CONFIG_END :: u32 where "CONFIG_END = VIRTIO_BASE + 0x107"

lemmas virtio_map = VIRTIO_BASE_def MAGIC_def VERSION_def DEVICE_ID_def VENDOR_ID_def DEVICE_FEATURES_def
  DEVICE_FEATURES_SEL_def DRIVER_FEATURES_def DRIVER_FEATURES_SEL_def GUEST_PAGE_SIZE_def QUEUE_SEL_def
  QUEUE_NUM_MAX_def QUEUE_NUM_def QUEUE_ALIGN_def QUEUE_PFN_def QUEUE_NOTIFY_def INTERRUPT_STATUS_def
  INTERRUPT_ACK_def STATUS_def CONFIG_def CONFIG_END_def

text \<open>\<open>REG..=REG_END\<close> of a four byte register.\<close>

definition in_reg :: "u32 \<Rightarrow> u32 \<Rightarrow> bool" where
  "in_reg reg addr \<longleftrightarrow> reg \<le> addr \<and> addr \<le> reg + 3"

record virtqueue_addr =
  desc_addr :: u32
  avail_addr :: u32
  used_addr :: u32

record virtio =
  vid :: u32
  device_features :: "u32 list"
  device_features_sel :: u32
  driver_features :: "u32 list"
  driver_features_sel :: u32
  guest_page_size :: u32
  queue_num :: u32
  queue_align :: u32
  queue_pfn :: u32
  queue_notify :: u32
  interrupt_status :: u32
  status :: u32
  config :: "byte list"
  disk :: "byte list"
  virtqueue :: "virtqueue_addr option"

definition virtio_new :: virtio where
  "virtio_new = \<lparr>vid = 0, device_features = [0, push_bit 3 1], device_features_sel = 0,
     driver_features = [0, 0], driver_features_sel = 0, guest_page_size = 0, queue_num = 0,
     queue_align = 0x1000, queue_pfn = 0, queue_notify = - 1, interrupt_status = 0, status = 0,
     config = ((replicate 8 0)[1 := 0x20])[2 := 0x03], disk = [], virtqueue = None\<rparr>"

section \<open>The queue\<close>

definition virtqueue_addr_new :: "bool \<Rightarrow> virtio \<Rightarrow> virtqueue_addr option" where
  "virtqueue_addr_new checked v = do {
     base_addr \<leftarrow> u_mul checked (queue_pfn v) (guest_page_size v);
     let align = queue_align v;
     let sz = queue_num v;
     descs \<leftarrow> u_mul checked 16 sz;
     ring \<leftarrow> u_mul checked 2 sz;
     ring \<leftarrow> u_add checked 6 ring;
     avail \<leftarrow> u_add checked base_addr descs;
     avail_ring_end \<leftarrow> u_add checked avail ring;
     if align = 0 then panic else do {
       k \<leftarrow> u_add checked (avail_ring_end div align) 1;
       Some \<lparr>desc_addr = base_addr, avail_addr = avail, used_addr = k * align\<rparr>
     }
   }"

definition init_virtqueue :: "bool \<Rightarrow> virtio \<Rightarrow> virtio option" where
  "init_virtqueue checked v = do { q \<leftarrow> virtqueue_addr_new checked v; Some (v\<lparr>virtqueue := Some q\<rparr>) }"

definition get_virtqueue :: "bool \<Rightarrow> virtio \<Rightarrow> virtqueue_addr option" where
  "get_virtqueue checked v = (case virtqueue v of Some q \<Rightarrow> Some q | None \<Rightarrow> virtqueue_addr_new checked v)"

definition reset :: "virtio \<Rightarrow> virtio" where
  "reset v = v\<lparr>vid := 0, interrupt_status := 0\<rparr>"

definition virtio_is_interrupting :: "virtio \<Rightarrow> bool \<times> virtio" where
  "virtio_is_interrupting v = (if queue_notify v \<noteq> - 1 then (True, v\<lparr>queue_notify := - 1\<rparr>) else (False, v))"

definition initialize :: "byte list \<Rightarrow> virtio \<Rightarrow> virtio" where
  "initialize binary v = v\<lparr>disk := disk v @ binary\<rparr>"

section \<open>Register access\<close>

text \<open>The register and the offset in it that a load selects.\<close>

definition load_target :: "virtio \<Rightarrow> u32 \<Rightarrow> sizes \<Rightarrow> (u32 \<times> u32) outcome" where
  "load_target v addr sz =
     (if in_reg MAGIC addr then Ok (0x74726976, addr - MAGIC)
      else if in_reg VERSION addr then Ok (1, addr - VERSION)
      else if in_reg DEVICE_ID addr then Ok (2, addr - DEVICE_ID)
      else if in_reg VENDOR_ID addr then Ok (0x554d4551, addr - VENDOR_ID)
      else if in_reg DEVICE_FEATURES addr then do {
        r \<leftarrow> at_index (device_features v) (device_features_sel v); Ok (r, addr - DEVICE_FEATURES) }
      else if in_reg QUEUE_NUM_MAX addr then Ok (QUEUE_SIZE, addr - QUEUE_NUM_MAX)
      else if in_reg QUEUE_PFN addr then Ok (queue_pfn v, addr - QUEUE_PFN)
      else if in_reg INTERRUPT_STATUS addr then Ok (interrupt_status v, addr - INTERRUPT_STATUS)
      else if in_reg STATUS addr then Ok (status v, addr - STATUS)
      else if CONFIG \<le> addr \<and> addr \<le> CONFIG_END then
        (if sz \<noteq> Byte then Err StoreAccessFault
         else do { c \<leftarrow> at_index (config v) (addr - CONFIG); Ok (ucast c, 0) })
      else Err LoadAccessFault)"

definition field :: "u32 \<Rightarrow> u32 \<Rightarrow> sizes \<Rightarrow> u32" where
  "field reg offset sz = (case sz of
       Byte \<Rightarrow> drop_bit (unat (offset * 8)) reg AND 0xff
     | HalfWord \<Rightarrow> drop_bit (unat (offset * 8)) reg AND 0xffff
     | Word \<Rightarrow> drop_bit (unat (offset * 8)) reg)"

definition virtio_read :: "bool \<Rightarrow> virtio \<Rightarrow> u32 \<Rightarrow> sizes \<Rightarrow> u32 outcome" where
  "virtio_read checked v addr sz = do {
     addr \<leftarrow> u_add checked addr VIRTIO_BASE;
     attempt (load_target v addr sz) (\<lambda>(reg, offset). Ok (field reg offset sz))
   }"

text \<open>The same for a store, without the queue selector and the configuration space.\<close>

definition store_target :: "virtio \<Rightarrow> u32 \<Rightarrow> (u32 \<times> u32) outcome" where
  "store_target v addr =
     (if in_reg DEVICE_FEATURES_SEL addr then Ok (device_features_sel v, addr - DEVICE_FEATURES_SEL)
      else if in_reg DRIVER_FEATURES addr then do {
        r \<leftarrow> at_index (driver_features v) (driver_features_sel v); Ok (r, addr - DRIVER_FEATURES) }
      else if in_reg DRIVER_FEATURES_SEL addr then Ok (driver_features_sel v, addr - DRIVER_FEATURES_SEL)
      else if in_reg GUEST_PAGE_SIZE addr then Ok (guest_page_size v, addr - GUEST_PAGE_SIZE)
      else if in_reg QUEUE_NUM addr then Ok (queue_num v, addr - QUEUE_NUM)
      else if in_reg QUEUE_ALIGN addr then Ok (queue_align v, addr - QUEUE_ALIGN)
      else if in_reg QUEUE_PFN addr then Ok (queue_pfn v, addr - QUEUE_PFN)
      else if in_reg QUEUE_NOTIFY addr then Ok (queue_notify v, addr - QUEUE_NOTIFY)
      else if in_reg INTERRUPT_ACK addr then Ok (interrupt_status v, addr - INTERRUPT_ACK)
      else if in_reg STATUS addr then Ok (status v, addr - STATUS)
      else Err StoreAccessFault)"

definition merge :: "u32 \<Rightarrow> u32 \<Rightarrow> u32 \<Rightarrow> sizes \<Rightarrow> u32" where
  "merge reg offset val sz = (let n = unat (offset * 8) in case sz of
       Byte \<Rightarrow> (reg AND NOT (push_bit n 0xff)) OR push_bit n (val AND 0xff)
     | HalfWord \<Rightarrow> (reg AND NOT (push_bit n 0xffff)) OR push_bit n (val AND 0xffff)
     | Word \<Rightarrow> val)"

definition set_status :: "bool \<Rightarrow> u32 \<Rightarrow> virtio \<Rightarrow> virtio option" where
  "set_status checked reg v = do {
     let v = v\<lparr>status := reg\<rparr>;
     let v = (if status v = 0 then reset v else v);
     v \<leftarrow> (if drop_bit 3 (status v AND 4) = 1 then init_virtqueue checked v else Some v);
     if drop_bit 7 (status v AND 128) = 1 then panic else Some v
   }"

definition store_register :: "bool \<Rightarrow> u32 \<Rightarrow> u32 \<Rightarrow> virtio \<Rightarrow> virtio outcome" where
  "store_register checked addr reg v =
     (if in_reg DEVICE_FEATURES_SEL addr then Ok (v\<lparr>device_features_sel := reg\<rparr>)
      else if in_reg DRIVER_FEATURES addr then do {
        xs \<leftarrow> set_index (driver_features v) (driver_features_sel v) reg; Ok (v\<lparr>driver_features := xs\<rparr>) }
      else if in_reg DRIVER_FEATURES_SEL addr then Ok (v\<lparr>driver_features_sel := reg\<rparr>)
      else if in_reg GUEST_PAGE_SIZE addr then Ok (v\<lparr>guest_page_size := reg\<rparr>)
      else if in_reg QUEUE_NUM addr then Ok (v\<lparr>queue_num := reg\<rparr>)
      else if in_reg QUEUE_ALIGN addr then Ok (v\<lparr>queue_align := reg\<rparr>)
      else if in_reg QUEUE_PFN addr then Ok (v\<lparr>queue_pfn := reg\<rparr>)
      else if in_reg QUEUE_NOTIFY addr then Ok (v\<lparr>queue_notify := reg\<rparr>)
      else if in_reg INTERRUPT_ACK addr then Ok (v\<lparr>interrupt_status := reg\<rparr>)
      else if in_reg STATUS addr then map_option Inr (set_status checked reg v)
      else Err StoreAccessFault)"

definition virtio_write :: "bool \<Rightarrow> virtio \<Rightarrow> u32 \<Rightarrow> u32 \<Rightarrow> sizes \<Rightarrow> virtio outcome" where
  "virtio_write checked v addr val sz = do {
     addr \<leftarrow> u_add checked addr VIRTIO_BASE;
     if in_reg QUEUE_SEL addr then if val \<noteq> 0 then panic else Ok v
     else if CONFIG \<le> addr \<and> addr \<le> CONFIG_END then
       if sz \<noteq> Byte then Err StoreAccessFault
       else do {
         let index = addr - CONFIG;
         b \<leftarrow> u_shr checked val (index * 8);
         xs \<leftarrow> set_index (config v) index (ucast b);
         Ok (v\<lparr>config := xs\<rparr>)
       }
     else attempt (store_target v addr) (\<lambda>(reg, offset). store_register checked addr (merge reg offset val sz) v)
   }"

section \<open>Disk access\<close>

text \<open>
  The memory access of the CPU (crate \<open>riscv_vm\<close>), which the device uses for DMA: a parameter. An
  access may change the state of the CPU and may fail with an exception of its own.
\<close>

record ('c, 'e) cpu_api =
  cpu_read :: "'c \<Rightarrow> u32 \<Rightarrow> sizes \<Rightarrow> ('e + u32 \<times> 'c) option"
  cpu_write :: "'c \<Rightarrow> u32 \<Rightarrow> u32 \<Rightarrow> sizes \<Rightarrow> ('e + 'c) option"

record virtq_desc =
  d_addr :: u32
  d_len :: u32
  d_flags :: u32
  d_next :: u32

definition virtq_desc_new :: "('c, 'e) cpu_api \<Rightarrow> 'c \<Rightarrow> u32 \<Rightarrow> ('e + virtq_desc \<times> 'c) option" where
  "virtq_desc_new cpu c addr =
     attempt (cpu_read cpu c addr Word) (\<lambda>(a, c).
     attempt (cpu_read cpu c (addr + 8) Word) (\<lambda>(l, c).
     attempt (cpu_read cpu c (addr + 12) HalfWord) (\<lambda>(f, c).
     attempt (cpu_read cpu c (addr + 14) HalfWord) (\<lambda>(n, c).
     Ok (\<lparr>d_addr = a, d_len = l, d_flags = f, d_next = n\<rparr>, c)))))"

record virtq_avail =
  a_flags :: "16 word"
  a_idx :: "16 word"
  ring_start_addr :: u32

definition virtq_avail_new :: "('c, 'e) cpu_api \<Rightarrow> 'c \<Rightarrow> u32 \<Rightarrow> ('e + virtq_avail \<times> 'c) option" where
  "virtq_avail_new cpu c addr =
     attempt (cpu_read cpu c addr HalfWord) (\<lambda>(f, c).
     attempt (cpu_read cpu c (addr + 2) HalfWord) (\<lambda>(i, c).
     Ok (\<lparr>a_flags = ucast f, a_idx = ucast i, ring_start_addr = addr + 4\<rparr>, c)))"

definition read_disk :: "virtio \<Rightarrow> u32 \<Rightarrow> u32 option" where
  "read_disk v addr = map_option ucast (at_index (disk v) addr)"

definition write_disk :: "virtio \<Rightarrow> u32 \<Rightarrow> u32 \<Rightarrow> virtio option" where
  "write_disk v addr val = map_option (\<lambda>d. v\<lparr>disk := d\<rparr>) (set_index (disk v) addr (ucast val))"

text \<open>The loops over \<open>0..desc1.len\<close>, as recursions over the list of the indices.\<close>

definition disk_pos :: "bool \<Rightarrow> u32 \<Rightarrow> u32 \<Rightarrow> u32 option" where
  "disk_pos checked sector i = do { s \<leftarrow> u_mul checked sector SECTOR_SIZE; u_add checked s i }"

fun dma_to_disk :: "bool \<Rightarrow> ('c, 'e) cpu_api \<Rightarrow> u32 \<Rightarrow> u32 \<Rightarrow> u32 list \<Rightarrow> virtio \<Rightarrow> 'c \<Rightarrow> ('e + virtio \<times> 'c) option" where
  "dma_to_disk checked cpu addr sector [] v c = Ok (v, c)"
| "dma_to_disk checked cpu addr sector (i # is) v c = do {
     a \<leftarrow> u_add checked addr i;
     attempt (cpu_read cpu c a Byte) (\<lambda>(b, c). do {
       s \<leftarrow> disk_pos checked sector i;
       v \<leftarrow> write_disk v s b;
       dma_to_disk checked cpu addr sector is v c
     })
   }"

fun dma_from_disk :: "bool \<Rightarrow> ('c, 'e) cpu_api \<Rightarrow> u32 \<Rightarrow> u32 \<Rightarrow> u32 list \<Rightarrow> virtio \<Rightarrow> 'c \<Rightarrow> ('e + virtio \<times> 'c) option" where
  "dma_from_disk checked cpu addr sector [] v c = Ok (v, c)"
| "dma_from_disk checked cpu addr sector (i # is) v c = do {
     s \<leftarrow> disk_pos checked sector i;
     b \<leftarrow> read_disk v s;
     a \<leftarrow> u_add checked addr i;
     attempt (cpu_write cpu c a b Byte) (\<lambda>c. dma_from_disk checked cpu addr sector is v c)
   }"

definition indices :: "u32 \<Rightarrow> u32 list" where
  "indices len = map of_nat [0..<unat len]"

text \<open>The address of a descriptor, and the descriptor there.\<close>

definition descriptor :: "bool \<Rightarrow> ('c, 'e) cpu_api \<Rightarrow> virtqueue_addr \<Rightarrow> u32 \<Rightarrow> 'c \<Rightarrow> ('e + virtq_desc \<times> 'c) option" where
  "descriptor checked cpu virtq k c = do {
     m \<leftarrow> u_mul checked VRING_DESC_SIZE k;
     a \<leftarrow> u_add checked (desc_addr virtq) m;
     virtq_desc_new cpu c a
   }"

definition disk_access :: "bool \<Rightarrow> ('c, 'e) cpu_api \<Rightarrow> virtio \<Rightarrow> 'c \<Rightarrow> ('e + virtio \<times> 'c) option" where
  "disk_access checked cpu v c = do {
     let v = v\<lparr>interrupt_status := interrupt_status v OR 1\<rparr>;
     virtq \<leftarrow> get_virtqueue checked v;
     attempt (virtq_avail_new cpu c (avail_addr virtq)) (\<lambda>(avail, c). do {
     r \<leftarrow> u_add checked (ring_start_addr avail) (ucast (a_idx avail) mod QUEUE_SIZE);
     attempt (cpu_read cpu c r HalfWord) (\<lambda>(head_index, c).
     attempt (descriptor checked cpu virtq head_index c) (\<lambda>(desc0, c).
     if d_flags desc0 AND VIRTQ_DESC_F_NEXT \<noteq> 1 then panic else
     attempt (descriptor checked cpu virtq (d_next desc0) c) (\<lambda>(desc1, c).
     if d_flags desc1 AND VIRTQ_DESC_F_NEXT \<noteq> 1 then panic else
     attempt (cpu_read cpu c (d_addr desc0 + 8) Word) (\<lambda>(sector, c).
     attempt ((if d_flags desc1 AND VIRTQ_DESC_F_WRITE = 0 then dma_to_disk else dma_from_disk)
        checked cpu (d_addr desc1) sector (indices (d_len desc1)) v c) (\<lambda>(v, c).
     attempt (descriptor checked cpu virtq (d_next desc1) c) (\<lambda>(desc2, c).
     if d_flags desc2 AND VIRTQ_DESC_F_NEXT \<noteq> 0 then panic else
     attempt (cpu_write cpu c (d_addr desc2) 0 Byte) (\<lambda>c.
     attempt (cpu_write cpu c (used_addr virtq + 4 + (vid v mod QUEUE_SIZE) * 8) head_index Word) (\<lambda>c.
     let v = v\<lparr>vid := vid v + 1\<rparr> in
     attempt (cpu_write cpu c (used_addr virtq + 2) (vid v) HalfWord) (\<lambda>c.
     Ok (v, c))))))))))})
   }"

section \<open>The registers by address\<close>

lemma in_reg_iff:
  assumes "(a :: u32) < 0x1000" and "k \<le> 0x100"
  shows "in_reg (0x10001000 + k) (a + 0x10001000) \<longleftrightarrow> k \<le> a \<and> a \<le> k + 3"
proof -
  have k: "unat k \<le> 0x100" "unat a < 0x1000" using assms by (simp_all add: word_le_nat_alt word_less_nat_alt)
  then have "unat (0x10001000 + k) = 0x10001000 + unat k" "unat (a + 0x10001000) = unat a + 0x10001000"
    "unat (0x10001000 + k + 3) = 0x10001000 + unat k + 3" "unat (k + 3) = unat k + 3"
    by (simp_all add: unat_word_ariths)
  then show ?thesis by (auto simp: in_reg_def word_le_nat_alt ac_simps)
qed

text \<open>
  Where an access goes: the same ranges as offsets. \<open>DRIVER_OK\<close> is bit 2 of the status, but the code
  looks for it in bit 3 of what is left of it, which is never set.
\<close>

definition reg_at :: "u32 \<Rightarrow> u32 \<Rightarrow> bool" where
  "reg_at k a \<longleftrightarrow> k \<le> a \<and> a \<le> k + 3"

lemma virtio_in_reg:
  assumes "a < 0x1000"
  shows "in_reg MAGIC (a + VIRTIO_BASE) = reg_at 0 a" "in_reg VERSION (a + VIRTIO_BASE) = reg_at 4 a"
    "in_reg DEVICE_ID (a + VIRTIO_BASE) = reg_at 8 a" "in_reg VENDOR_ID (a + VIRTIO_BASE) = reg_at 0xc a"
    "in_reg DEVICE_FEATURES (a + VIRTIO_BASE) = reg_at 0x10 a" "in_reg DEVICE_FEATURES_SEL (a + VIRTIO_BASE) = reg_at 0x14 a"
    "in_reg DRIVER_FEATURES (a + VIRTIO_BASE) = reg_at 0x20 a" "in_reg DRIVER_FEATURES_SEL (a + VIRTIO_BASE) = reg_at 0x24 a"
    "in_reg GUEST_PAGE_SIZE (a + VIRTIO_BASE) = reg_at 0x28 a" "in_reg QUEUE_SEL (a + VIRTIO_BASE) = reg_at 0x30 a"
    "in_reg QUEUE_NUM_MAX (a + VIRTIO_BASE) = reg_at 0x34 a" "in_reg QUEUE_NUM (a + VIRTIO_BASE) = reg_at 0x38 a"
    "in_reg QUEUE_ALIGN (a + VIRTIO_BASE) = reg_at 0x3c a" "in_reg QUEUE_PFN (a + VIRTIO_BASE) = reg_at 0x40 a"
    "in_reg QUEUE_NOTIFY (a + VIRTIO_BASE) = reg_at 0x50 a" "in_reg INTERRUPT_STATUS (a + VIRTIO_BASE) = reg_at 0x60 a"
    "in_reg INTERRUPT_ACK (a + VIRTIO_BASE) = reg_at 0x64 a" "in_reg STATUS (a + VIRTIO_BASE) = reg_at 0x70 a"
    "CONFIG \<le> a + VIRTIO_BASE \<and> a + VIRTIO_BASE \<le> CONFIG_END \<longleftrightarrow> 0x100 \<le> a \<and> a \<le> 0x107"
proof -
  note r = in_reg_iff [OF assms, folded reg_at_def]
  show "in_reg MAGIC (a + VIRTIO_BASE) = reg_at 0 a" "in_reg VERSION (a + VIRTIO_BASE) = reg_at 4 a"
    "in_reg DEVICE_ID (a + VIRTIO_BASE) = reg_at 8 a" "in_reg VENDOR_ID (a + VIRTIO_BASE) = reg_at 0xc a"
    "in_reg DEVICE_FEATURES (a + VIRTIO_BASE) = reg_at 0x10 a" "in_reg DEVICE_FEATURES_SEL (a + VIRTIO_BASE) = reg_at 0x14 a"
    "in_reg DRIVER_FEATURES (a + VIRTIO_BASE) = reg_at 0x20 a" "in_reg DRIVER_FEATURES_SEL (a + VIRTIO_BASE) = reg_at 0x24 a"
    "in_reg GUEST_PAGE_SIZE (a + VIRTIO_BASE) = reg_at 0x28 a" "in_reg QUEUE_SEL (a + VIRTIO_BASE) = reg_at 0x30 a"
    "in_reg QUEUE_NUM_MAX (a + VIRTIO_BASE) = reg_at 0x34 a" "in_reg QUEUE_NUM (a + VIRTIO_BASE) = reg_at 0x38 a"
    "in_reg QUEUE_ALIGN (a + VIRTIO_BASE) = reg_at 0x3c a" "in_reg QUEUE_PFN (a + VIRTIO_BASE) = reg_at 0x40 a"
    "in_reg QUEUE_NOTIFY (a + VIRTIO_BASE) = reg_at 0x50 a" "in_reg INTERRUPT_STATUS (a + VIRTIO_BASE) = reg_at 0x60 a"
    "in_reg INTERRUPT_ACK (a + VIRTIO_BASE) = reg_at 0x64 a" "in_reg STATUS (a + VIRTIO_BASE) = reg_at 0x70 a"
    using r [of 0] r [of 4] r [of 8] r [of "0xc"] r [of "0x10"] r [of "0x14"] r [of "0x20"] r [of "0x24"] r [of "0x28"]
      r [of "0x30"] r [of "0x34"] r [of "0x38"] r [of "0x3c"] r [of "0x40"] r [of "0x50"] r [of "0x60"] r [of "0x64"] r [of "0x70"]
    by (simp_all add: virtio_map word_le_nat_alt)
  have "unat (a + 0x10001000) = unat a + 0x10001000" using assms by (simp add: unat_word_ariths word_less_nat_alt)
  then show "CONFIG \<le> a + VIRTIO_BASE \<and> a + VIRTIO_BASE \<le> CONFIG_END \<longleftrightarrow> 0x100 \<le> a \<and> a \<le> 0x107"
    by (simp add: virtio_map word_le_nat_alt)
qed

lemma reg_at_nat: "reg_at k a \<longleftrightarrow> unat k \<le> unat a \<and> unat a \<le> unat (k + 3)"
  by (simp add: reg_at_def word_le_nat_alt)

lemma virtio_base_add: "a < 0x1000 \<Longrightarrow> u_add ck a VIRTIO_BASE = Some (a + VIRTIO_BASE)"
  by (intro u_add_exact) (simp add: VIRTIO_BASE_def word_less_nat_alt)

lemma driver_ok_unseen: "drop_bit 3 (w AND 4) = (0 :: u32)"
proof (rule bit_word_eqI)
  fix n
  have "(4 :: u32) = 2 ^ 2" by simp
  then have "bit (4 :: u32) (n + 3) = False" by (simp only: bit_exp_iff) simp
  then show "bit (drop_bit 3 (w AND 4)) n = bit (0 :: u32) n" by (simp add: bit_drop_bit_eq bit_and_iff)
qed

lemma failed_bit: "drop_bit 7 (w AND 128) = (1 :: u32) \<longleftrightarrow> bit w 7"
proof -
  have "drop_bit 7 (w AND 128) = (if bit w 7 then 1 else 0 :: u32)"
  proof (rule bit_word_eqI)
    fix n
    have "(128 :: u32) = 2 ^ 7" by simp
    then have "bit (128 :: u32) (n + 7) \<longleftrightarrow> n = 0" by (simp only: bit_exp_iff) auto
    then show "bit (drop_bit 7 (w AND 128)) n = bit (if bit w 7 then 1 else 0 :: u32) n"
      by (auto simp: bit_drop_bit_eq bit_and_iff bit_1_iff)
  qed
  then show ?thesis by simp
qed

lemma set_status_eq:
  "set_status ck reg v = (if bit reg 7 then panic else Some (if reg = 0 then reset (v\<lparr>status := reg\<rparr>) else v\<lparr>status := reg\<rparr>))"
proof -
  have "status (reset (v\<lparr>status := 0\<rparr>)) = 0" by (simp add: reset_def)
  then show ?thesis unfolding set_status_def Let_def driver_ok_unseen failed_bit by simp
qed

section \<open>The effect of a request\<close>

text \<open>
  What the device relies on: where the bus has memory, in the addresses \<open>R\<close>, the CPU's accesses are
  those of a little endian byte memory, which \<open>view\<close> reads off its state.
\<close>

definition bytes_in :: "u32 set \<Rightarrow> u32 \<Rightarrow> nat \<Rightarrow> bool" where
  "bytes_in R a n \<longleftrightarrow> (\<forall>i < n. a + of_nat i \<in> R)"

definition load16 :: "memory \<Rightarrow> u32 \<Rightarrow> u32" where
  "load16 m a = ucast (m a) OR push_bit 8 (ucast (m (a + 1)))"

definition store16 :: "u32 \<Rightarrow> u32 \<Rightarrow> memory \<Rightarrow> memory" where
  "store16 a v m = m(a := ucast v, a + 1 := ucast (drop_bit 8 v))"

definition ram_laws :: "('c, 'e) cpu_api \<Rightarrow> ('c \<Rightarrow> memory) \<Rightarrow> u32 set \<Rightarrow> bool" where
  "ram_laws cpu view R \<longleftrightarrow>
     (\<forall>c a. bytes_in R a 1 \<longrightarrow> cpu_read cpu c a Byte = Ok (ucast (view c a), c))
   \<and> (\<forall>c a. bytes_in R a 2 \<longrightarrow> cpu_read cpu c a HalfWord = Ok (load16 (view c) a, c))
   \<and> (\<forall>c a. bytes_in R a 4 \<longrightarrow> cpu_read cpu c a Word = Ok (load32 (view c) a, c))
   \<and> (\<forall>c a v. bytes_in R a 1 \<longrightarrow> (\<exists>c'. cpu_write cpu c a v Byte = Ok c' \<and> view c' = (view c)(a := ucast v)))
   \<and> (\<forall>c a v. bytes_in R a 2 \<longrightarrow> (\<exists>c'. cpu_write cpu c a v HalfWord = Ok c' \<and> view c' = store16 a v (view c)))
   \<and> (\<forall>c a v. bytes_in R a 4 \<longrightarrow> (\<exists>c'. cpu_write cpu c a v Word = Ok c' \<and> view c' = store32 a v (view c)))"

lemma ram_lawsD:
  assumes "ram_laws cpu view R"
  shows "bytes_in R a 1 \<Longrightarrow> cpu_read cpu c a Byte = Ok (ucast (view c a), c)"
    and "bytes_in R a 2 \<Longrightarrow> cpu_read cpu c a HalfWord = Ok (load16 (view c) a, c)"
    and "bytes_in R a 4 \<Longrightarrow> cpu_read cpu c a Word = Ok (load32 (view c) a, c)"
    and "bytes_in R a 1 \<Longrightarrow> \<exists>c'. cpu_write cpu c a v Byte = Ok c' \<and> view c' = (view c)(a := ucast v)"
    and "bytes_in R a 2 \<Longrightarrow> \<exists>c'. cpu_write cpu c a v HalfWord = Ok c' \<and> view c' = store16 a v (view c)"
    and "bytes_in R a 4 \<Longrightarrow> \<exists>c'. cpu_write cpu c a v Word = Ok c' \<and> view c' = store32 a v (view c)"
  using assms by (simp_all add: ram_laws_def)

text \<open>A CPU whose bus is a memory.\<close>

definition plain_ram :: "(memory, exception) cpu_api" where
  "plain_ram = \<lparr>cpu_read = (\<lambda>m a sz. Ok (case sz of Byte \<Rightarrow> ucast (m a) | HalfWord \<Rightarrow> load16 m a | Word \<Rightarrow> load32 m a, m)),
     cpu_write = (\<lambda>m a v sz. Ok (case sz of Byte \<Rightarrow> m(a := ucast v) | HalfWord \<Rightarrow> store16 a v m | Word \<Rightarrow> store32 a v m))\<rparr>"

lemma plain_ram_laws: "ram_laws plain_ram (\<lambda>m. m) UNIV"
  by (simp add: ram_laws_def plain_ram_def)

lemma bytes_in_sub: "bytes_in R a n \<Longrightarrow> i + k \<le> n \<Longrightarrow> bytes_in R (a + of_nat i) k"
  by (auto simp: bytes_in_def add.assoc simp flip: of_nat_add)

definition desc_at :: "memory \<Rightarrow> u32 \<Rightarrow> virtq_desc" where
  "desc_at m a = \<lparr>d_addr = load32 m a, d_len = load32 m (a + 8), d_flags = load16 m (a + 12), d_next = load16 m (a + 14)\<rparr>"

lemma load16_less: "unat (load16 m a) < 65536"
proof -
  have "load16 m a = take_bit 16 (load16 m a)"
    by (rule bit_word_eqI) (auto simp: load16_def bit_simps dest: bit_imp_le_length)
  then have "unat (load16 m a) = take_bit 16 (unat (load16 m a))" by (metis unsigned_take_bit_eq)
  also have "\<dots> < 2 ^ 16" by (rule take_bit_nat_less_exp)
  finally show ?thesis by simp
qed

lemma virtq_desc_new_ram:
  assumes "ram_laws cpu view R" and "bytes_in R a 16"
  shows "virtq_desc_new cpu c a = Ok (desc_at (view c) a, c)"
  using ram_lawsD(2,3) [OF assms(1)] bytes_in_sub [OF assms(2), of 0 4] bytes_in_sub [OF assms(2), of 8 4]
    bytes_in_sub [OF assms(2), of 12 2] bytes_in_sub [OF assms(2), of 14 2]
  by (simp add: virtq_desc_new_def desc_at_def)

lemma virtq_avail_new_ram:
  assumes "ram_laws cpu view R" and "bytes_in R a 4"
  shows "virtq_avail_new cpu c a = Ok (\<lparr>a_flags = ucast (load16 (view c) a), a_idx = ucast (load16 (view c) (a + 2)),
    ring_start_addr = a + 4\<rparr>, c)"
  using ram_lawsD(2) [OF assms(1)] bytes_in_sub [OF assms(2), of 0 2] bytes_in_sub [OF assms(2), of 2 2]
  by (simp add: virtq_avail_new_def)

lemma descriptor_ram:
  assumes "ram_laws cpu view R" and "bytes_in R (desc_addr q + 16 * k) 16"
    and "unat k < 65536" and "unat (desc_addr q) + 16 * unat k < 2 ^ 32"
  shows "descriptor ck cpu q k c = Ok (desc_at (view c) (desc_addr q + 16 * k), c)"
proof -
  have m: "unat (16 * k) = 16 * unat k" using assms(3) by (simp add: unat_word_ariths)
  have "u_mul ck VRING_DESC_SIZE k = Some (16 * k)"
    using assms(3) by (simp add: VRING_DESC_SIZE_def u_mul_exact)
  moreover have "u_add ck (desc_addr q) (16 * k) = Some (desc_addr q + 16 * k)"
    using assms(4) m by (simp add: u_add_exact)
  ultimately show ?thesis using virtq_desc_new_ram [OF assms(1,2)] by (simp add: descriptor_def)
qed

text \<open>The data of a request, moved byte by byte.\<close>

definition blit_in :: "byte list \<Rightarrow> u32 \<Rightarrow> u32 \<Rightarrow> u32 list \<Rightarrow> memory \<Rightarrow> memory" where
  "blit_in d addr sector is m = fold (\<lambda>i m. m(addr + i := d ! unat (sector * 512 + i))) is m"

definition blit_out :: "memory \<Rightarrow> u32 \<Rightarrow> u32 \<Rightarrow> u32 list \<Rightarrow> byte list \<Rightarrow> byte list" where
  "blit_out m addr sector is d = fold (\<lambda>i d. d[unat (sector * 512 + i) := m (addr + i)]) is d"

text \<open>The sectors are on the disk, and the buffer is in memory and does not wrap.\<close>

definition data_ok :: "u32 set \<Rightarrow> u32 \<Rightarrow> u32 \<Rightarrow> u32 \<Rightarrow> byte list \<Rightarrow> bool" where
  "data_ok R addr len sector d \<longleftrightarrow> bytes_in R addr (unat len) \<and> unat addr + unat len < 2 ^ 32
     \<and> unat sector * 512 + unat len \<le> length d \<and> length d < 2 ^ 32"

lemma data_ok_pos:
  assumes "data_ok R addr len sector d" and "i < len"
  shows "bytes_in R (addr + i) 1" "u_add ck addr i = Some (addr + i)" "disk_pos ck sector i = Some (sector * 512 + i)"
    "unat (sector * 512 + i) = unat sector * 512 + unat i" "unat (sector * 512 + i) < length d"
proof -
  note d = assms(1) [unfolded data_ok_def]
  have i: "unat i < unat len" using assms(2) by (simp add: word_less_nat_alt)
  show "bytes_in R (addr + i) 1" using d i by (auto simp: bytes_in_def)
  show "u_add ck addr i = Some (addr + i)" using d i by (intro u_add_exact) simp
  have s: "unat sector * 512 + unat i < 2 ^ 32" using d i by simp
  then have m: "unat (sector * 512) = unat sector * 512" by (simp add: unat_word_ariths)
  then show u: "unat (sector * 512 + i) = unat sector * 512 + unat i" using s by (simp add: unat_word_ariths)
  show "disk_pos ck sector i = Some (sector * 512 + i)"
    using s m by (simp add: disk_pos_def SECTOR_SIZE_def u_mul_exact u_add_exact)
  show "unat (sector * 512 + i) < length d" using u d i by simp
qed

lemma indices_less: "i \<in> set (indices len) \<longleftrightarrow> i < len"
proof
  assume "i < len"
  then have "i = of_nat (unat i)" "unat i \<in> {0..<unat len}" by (simp_all add: word_less_nat_alt)
  then show "i \<in> set (indices len)" unfolding indices_def set_map set_upt by blast
next
  assume "i \<in> set (indices len)"
  then obtain k where k: "i = of_nat k" "k < unat len" by (auto simp: indices_def)
  then have "k < 2 ^ 32" using unat_u32_bound [of len] by linarith
  with k show "i < len" by (simp add: word_less_nat_alt unat_of_nat32)
qed

lemma dma_from_disk_ram:
  assumes "ram_laws cpu view R" and "data_ok R addr len sector (disk v)" and "\<forall>i \<in> set is. i < len"
  shows "\<exists>c'. dma_from_disk ck cpu addr sector is v c = Ok (v, c') \<and> view c' = blit_in (disk v) addr sector is (view c)"
  using assms(3)
proof (induction "is" arbitrary: c)
  case (Cons i "is")
  from Cons.prems have "i < len" by simp
  note p = data_ok_pos [OF assms(2) this]
  from ram_lawsD(4) [OF assms(1) p(1)] obtain c1 where c1: "cpu_write cpu c (addr + i) (ucast (disk v ! unat (sector * 512 + i))) Byte = Ok c1"
    "view c1 = (view c)(addr + i := ucast (ucast (disk v ! unat (sector * 512 + i)) :: u32))" by blast
  from Cons.IH [of c1] Cons.prems obtain c' where "dma_from_disk ck cpu addr sector is v c1 = Ok (v, c')"
    "view c' = blit_in (disk v) addr sector is (view c1)" by auto
  with p c1 show ?case by (simp add: read_disk_def at_index_def blit_in_def)
qed (simp add: blit_in_def)

lemma dma_to_disk_ram:
  assumes "ram_laws cpu view R" and "data_ok R addr len sector (disk v)" and "\<forall>i \<in> set is. i < len"
  shows "dma_to_disk ck cpu addr sector is v c = Ok (v\<lparr>disk := blit_out (view c) addr sector is (disk v)\<rparr>, c)"
  using assms(2,3)
proof (induction "is" arbitrary: v)
  case (Cons i "is")
  from Cons.prems(2) have "i < len" by simp
  note p = data_ok_pos [OF Cons.prems(1) this]
  let ?v = "v\<lparr>disk := (disk v)[unat (sector * 512 + i) := view c (addr + i)]\<rparr>"
  have "data_ok R addr len sector (disk ?v)" using Cons.prems(1) by (simp add: data_ok_def)
  from Cons.IH [OF this] Cons.prems(2) p ram_lawsD(1) [OF assms(1) p(1)] show ?case
    by (simp add: write_disk_def set_index_def blit_out_def)
qed (simp add: blit_out_def)

text \<open>
  The request as the device finds it in memory: the entry of the available ring, the first two
  descriptors and the sector. The ring is indexed by bytes, as the code does it: entries are two bytes
  wide, but the index is not doubled.
\<close>

definition ring_entry :: "virtqueue_addr \<Rightarrow> memory \<Rightarrow> u32" where
  "ring_entry q m = avail_addr q + 4 + load16 m (avail_addr q + 2) mod 8"

definition desc_of :: "virtqueue_addr \<Rightarrow> memory \<Rightarrow> u32 \<Rightarrow> virtq_desc" where
  "desc_of q m k = desc_at m (desc_addr q + 16 * k)"

record request =
  r_head :: u32
  r_desc1 :: virtq_desc
  r_sector :: u32

definition request_of :: "virtqueue_addr \<Rightarrow> memory \<Rightarrow> request" where
  "request_of q m = (let head = load16 m (ring_entry q m); d0 = desc_of q m head in
     \<lparr>r_head = head, r_desc1 = desc_of q m (d_next d0), r_sector = load32 m (d_addr d0 + 8)\<rparr>)"

definition writes_memory :: "request \<Rightarrow> bool" where
  "writes_memory r \<longleftrightarrow> d_flags (r_desc1 r) AND 2 \<noteq> 0"

text \<open>Memory and disk after the data has been moved, and the last descriptor, read only then.\<close>

definition moved_mem :: "request \<Rightarrow> byte list \<Rightarrow> memory \<Rightarrow> memory" where
  "moved_mem r d m = (if writes_memory r then blit_in d (d_addr (r_desc1 r)) (r_sector r) (indices (d_len (r_desc1 r))) m else m)"

definition moved_disk :: "request \<Rightarrow> memory \<Rightarrow> byte list \<Rightarrow> byte list" where
  "moved_disk r m d = (if writes_memory r then d else blit_out m (d_addr (r_desc1 r)) (r_sector r) (indices (d_len (r_desc1 r))) d)"

definition status_addr :: "virtqueue_addr \<Rightarrow> request \<Rightarrow> memory \<Rightarrow> u32" where
  "status_addr q r m = d_addr (desc_of q m (d_next (r_desc1 r)))"

text \<open>The memory and the device after the request.\<close>

definition disk_effect :: "virtqueue_addr \<Rightarrow> memory \<Rightarrow> virtio \<Rightarrow> memory \<times> virtio" where
  "disk_effect q m v = (let r = request_of q m;
       m1 = moved_mem r (disk v) m;
       m2 = m1(status_addr q r m1 := 0);
       m3 = store32 (used_addr q + 4 + vid v mod 8 * 8) (r_head r) m2;
       m4 = store16 (used_addr q + 2) (vid v + 1) m3
     in (m4, v\<lparr>interrupt_status := interrupt_status v OR 1, disk := moved_disk r m (disk v), vid := vid v + 1\<rparr>))"

text \<open>The request is well formed: three chained descriptors, all of it in memory and on the disk.\<close>

definition desc_ok :: "u32 set \<Rightarrow> virtqueue_addr \<Rightarrow> u32 \<Rightarrow> bool" where
  "desc_ok R q k \<longleftrightarrow> bytes_in R (desc_addr q + 16 * k) 16 \<and> unat (desc_addr q) + 16 * unat k < 2 ^ 32"

definition request_ok :: "u32 set \<Rightarrow> virtqueue_addr \<Rightarrow> memory \<Rightarrow> virtio \<Rightarrow> bool" where
  "request_ok R q m v \<longleftrightarrow> (let r = request_of q m; d0 = desc_of q m (r_head r); d1 = r_desc1 r;
       m1 = moved_mem r (disk v) m; d2 = desc_of q m1 (d_next d1)
     in bytes_in R (avail_addr q) 13 \<and> unat (avail_addr q) + 13 < 2 ^ 32
      \<and> desc_ok R q (r_head r) \<and> desc_ok R q (d_next d0) \<and> desc_ok R q (d_next d1)
      \<and> d_flags d0 AND 1 = 1 \<and> d_flags d1 AND 1 = 1 \<and> d_flags d2 AND 1 = 0
      \<and> bytes_in R (d_addr d0 + 8) 4 \<and> data_ok R (d_addr d1) (d_len d1) (r_sector r) (disk v)
      \<and> bytes_in R (d_addr d2) 1 \<and> bytes_in R (used_addr q + 4 + vid v mod 8 * 8) 4
      \<and> bytes_in R (used_addr q + 2) 2)"

lemma descriptor_ok:
  assumes "ram_laws cpu view R" and "desc_ok R q k" and "unat k < 65536"
  shows "descriptor ck cpu q k c = Ok (desc_of q (view c) k, c)"
  using descriptor_ram [OF assms(1) _ assms(3)] assms(2) by (simp add: desc_ok_def desc_of_def)

lemma d_next_less: "unat (d_next (desc_of q m k)) < 65536"
  by (simp add: desc_of_def desc_at_def load16_less)

lemma ucast_load16: "ucast (ucast (load16 m a) :: 16 word) = load16 m a"
proof (rule bit_word_eqI)
  fix n assume "n < LENGTH(32)"
  show "bit (ucast (ucast (load16 m a) :: 16 word) :: u32) n = bit (load16 m a) n"
    by (auto simp: load16_def bit_simps dest: bit_imp_le_length)
qed

lemma ring_entry_read:
  assumes "ram_laws cpu view R" and "bytes_in R (avail_addr q) 13" and "unat (avail_addr q) + 13 < 2 ^ 32"
  shows "u_add ck (avail_addr q + 4) (load16 (view c) (avail_addr q + 2) mod 8) = Some (ring_entry q (view c))"
    and "cpu_read cpu c (ring_entry q (view c)) HalfWord = Ok (load16 (view c) (ring_entry q (view c)), c)"
proof -
  let ?i = "load16 (view c) (avail_addr q + 2) mod 8"
  have i: "unat ?i < 8" by (simp add: unat_mod)
  have "unat (avail_addr q + 4) = unat (avail_addr q) + 4" using assms(3) by (simp add: unat_word_ariths)
  then show "u_add ck (avail_addr q + 4) ?i = Some (ring_entry q (view c))"
    using assms(3) i by (simp add: u_add_exact ring_entry_def)
  have "avail_addr q + of_nat (4 + unat ?i) = ring_entry q (view c)" by (simp add: ring_entry_def ac_simps)
  then have "bytes_in R (ring_entry q (view c)) 2" using bytes_in_sub [OF assms(2), of "4 + unat ?i" 2] i by simp
  then show "cpu_read cpu c (ring_entry q (view c)) HalfWord = Ok (load16 (view c) (ring_entry q (view c)), c)"
    by (rule ram_lawsD(2) [OF assms(1)])
qed

lemma get_virtqueue_status [simp]: "get_virtqueue ck (v\<lparr>interrupt_status := x\<rparr>) = get_virtqueue ck v"
proof -
  have "virtqueue_addr_new ck (v\<lparr>interrupt_status := x\<rparr>) = virtqueue_addr_new ck v" by (simp add: virtqueue_addr_new_def)
  then show ?thesis by (simp add: get_virtqueue_def cong: option.case_cong)
qed

lemma dma_ram:
  assumes "ram_laws cpu view R" and "data_ok R (d_addr (r_desc1 r)) (d_len (r_desc1 r)) (r_sector r) (disk v)"
  shows "\<exists>c'. (if d_flags (r_desc1 r) AND 2 = 0 then dma_to_disk else dma_from_disk)
      ck cpu (d_addr (r_desc1 r)) (r_sector r) (indices (d_len (r_desc1 r))) v c
        = Ok (v\<lparr>disk := moved_disk r (view c) (disk v)\<rparr>, c') \<and> view c' = moved_mem r (disk v) (view c)"
  using dma_from_disk_ram [OF assms, of "indices (d_len (r_desc1 r))" ck c] dma_to_disk_ram [OF assms, of "indices (d_len (r_desc1 r))" ck c]
  by (auto simp: moved_disk_def moved_mem_def writes_memory_def indices_less)

text \<open>What the two loops leave behind.\<close>

lemma blit_in_at:
  "blit_in d addr sector is m x = (if x - addr \<in> set is then d ! unat (sector * 512 + (x - addr)) else m x)"
proof (induction "is" arbitrary: m)
  case (Cons i "is")
  have "x = addr + i \<longleftrightarrow> x - addr = i" by (simp add: algebra_simps eq_diff_eq)
  moreover have "blit_in d addr sector (i # is) m = blit_in d addr sector is (m(addr + i := d ! unat (sector * 512 + i)))"
    by (simp add: blit_in_def)
  ultimately show ?case by (auto simp: Cons.IH)
qed (simp add: blit_in_def)

lemma blit_out_length [simp]: "length (blit_out m addr sector is d) = length d"
  by (induction "is" arbitrary: d) (simp_all add: blit_out_def)

lemma blit_out_at:
  assumes "j < length d" and "length d < 2 ^ 32"
  shows "blit_out m addr sector is d ! j =
    (if of_nat j - sector * 512 \<in> set is then m (addr + (of_nat j - sector * 512)) else d ! j)"
  using assms
proof (induction "is" arbitrary: d)
  case (Cons i "is")
  have "unat (sector * 512 + i) = j \<longleftrightarrow> sector * 512 + i = of_nat j"
    using Cons.prems by (auto simp: unat_of_nat32)
  also have "\<dots> \<longleftrightarrow> of_nat j - sector * 512 = i" by (auto simp: algebra_simps)
  finally have j: "unat (sector * 512 + i) = j \<longleftrightarrow> of_nat j - sector * 512 = i" .
  let ?d = "d[unat (sector * 512 + i) := m (addr + i)]"
  have "blit_out m addr sector (i # is) d = blit_out m addr sector is ?d" by (simp add: blit_out_def)
  with Cons.IH [of ?d] Cons.prems j show ?case by (auto simp: nth_list_update)
qed (simp add: blit_out_def)

lemma store_other:
  "x \<noteq> a \<Longrightarrow> x \<noteq> a + 1 \<Longrightarrow> store16 a v m x = m x"
  "x \<noteq> a \<Longrightarrow> x \<noteq> a + 1 \<Longrightarrow> x \<noteq> a + 2 \<Longrightarrow> x \<noteq> a + 3 \<Longrightarrow> store32 a v m x = m x"
  by (simp_all add: store16_def store32_def)

text \<open>The buffer does not contain the bytes the device writes besides the data.\<close>

definition control_bytes :: "virtqueue_addr \<Rightarrow> u32 \<Rightarrow> u32 \<Rightarrow> u32 set" where
  "control_bytes q slot st = {st, used_addr q + 2, used_addr q + 3}
     \<union> {used_addr q + 4 + slot mod 8 * 8 + k |k. k \<in> {0, 1, 2, 3}}"

section \<open>The device in operation\<close>

text \<open>The lengths of the arrays, the features offered, and that no queue addresses are ever kept.\<close>

definition virtio_ok :: "virtio \<Rightarrow> bool" where
  "virtio_ok v \<longleftrightarrow> device_features v = [0, 8] \<and> length (driver_features v) = 2 \<and> length (config v) = 8
     \<and> virtqueue v = None"

lemma virtio_new_ok: "virtio_ok virtio_new"
  by (simp add: virtio_ok_def virtio_new_def)

lemma set_status_ok: "set_status ck reg v = Some v' \<Longrightarrow> virtio_ok v \<Longrightarrow> virtio_ok v'"
  by (auto simp: set_status_eq virtio_ok_def reset_def split: if_splits)

lemma store_register_ok:
  assumes "store_register ck addr reg v = Ok v'" and "virtio_ok v"
  shows "virtio_ok v'"
  using assms set_status_ok [of ck reg v v']
  by (simp add: store_register_def set_index_def split: if_splits) (auto simp: virtio_ok_def)

lemma virtio_write_ok:
  assumes "virtio_write ck v a val sz = Ok v'" and "virtio_ok v"
  shows "virtio_ok v'"
proof -
  from assms(1) obtain addr where "u_add ck a VIRTIO_BASE = Some addr"
    by (auto simp: virtio_write_def bind_eq_Some_conv)
  with assms store_register_ok [OF _ assms(2)] show ?thesis
    by (auto simp: virtio_write_def attempt_eq_Ok bind_eq_Some_conv set_index_def virtio_ok_def Let_def split: if_splits)
qed

lemma store_register_disk: "store_register ck addr reg v = Ok v' \<Longrightarrow> disk v' = disk v"
  by (simp add: store_register_def set_index_def split: if_splits) (auto simp: set_status_eq reset_def split: if_splits)

lemma virtio_write_disk:
  assumes "virtio_write ck v a val sz = Ok v'"
  shows "disk v' = disk v"
proof -
  from assms obtain addr where "u_add ck a VIRTIO_BASE = Some addr"
    by (auto simp: virtio_write_def bind_eq_Some_conv)
  with assms store_register_disk show ?thesis
    by (auto simp: virtio_write_def attempt_eq_Ok bind_eq_Some_conv Let_def split: if_splits)
qed

lemma dma_to_disk_keeps:
  "dma_to_disk ck cpu addr sector is v c = Ok (v', c') \<Longrightarrow> \<exists>d. v' = v\<lparr>disk := d\<rparr> \<and> length d = length (disk v)"
proof (induction "is" arbitrary: v c)
  case Nil
  then have "v' = v\<lparr>disk := disk v\<rparr>" by simp
  then show ?case by blast
next
  case (Cons i "is")
  then show ?case by (fastforce simp: bind_eq_Some_conv attempt_eq_Ok write_disk_def set_index_eq)
qed

lemma dma_from_disk_keeps: "dma_from_disk ck cpu addr sector is v c = Ok (v', c') \<Longrightarrow> v' = v"
  by (induction "is" arbitrary: c) (auto simp: bind_eq_Some_conv attempt_eq_Ok)

lemma dma_keeps:
  assumes "(if b then dma_to_disk else dma_from_disk) ck cpu addr sector is v c = Ok (v', c')"
  shows "\<exists>d. v' = v\<lparr>disk := d\<rparr> \<and> length d = length (disk v)"
proof (cases b)
  case False
  with assms have "v' = v\<lparr>disk := disk v\<rparr>" using dma_from_disk_keeps by fastforce
  then show ?thesis by blast
qed (use assms dma_to_disk_keeps in auto)

lemma panic_if: "(if b then panic else x) = Some y \<longleftrightarrow> \<not> b \<and> x = Some y"
  by simp

lemma disk_access_keeps:
  assumes "disk_access ck cpu v c = Ok (v', c')"
  shows "\<exists>d. v' = v\<lparr>interrupt_status := interrupt_status v OR 1, disk := d, vid := vid v + 1\<rparr> \<and> length d = length (disk v)"
proof -
  let ?v = "v\<lparr>interrupt_status := interrupt_status v OR 1\<rparr>"
  from assms obtain b addr sector "is" c1 v1 c2 where
    d: "(if b then dma_to_disk else dma_from_disk) ck cpu addr sector is ?v c1 = Ok (v1, c2)"
    and v': "v' = v1\<lparr>vid := vid v1 + 1\<rparr>"
    unfolding disk_access_def Let_def by (auto simp: bind_eq_Some_conv attempt_eq_Ok panic_if split: prod.splits)
  from dma_keeps [OF d] v' show ?thesis by auto
qed

text \<open>What happens to the device: guest stores, the poll of the front end, and its disk access.\<close>

inductive virtio_step :: "bool \<Rightarrow> ('c, 'e) cpu_api \<Rightarrow> virtio \<Rightarrow> virtio \<Rightarrow> bool" for ck cpu where
  store: "a < VIRTIO_SIZE \<Longrightarrow> virtio_write ck v a val sz = Ok v' \<Longrightarrow> virtio_step ck cpu v v'"
| poll: "virtio_is_interrupting v = (b, v') \<Longrightarrow> virtio_step ck cpu v v'"
| access: "disk_access ck cpu v c = Ok (v', c') \<Longrightarrow> virtio_step ck cpu v v'"

lemma virtio_step_ok:
  assumes "virtio_step ck cpu v v'" and "virtio_ok v"
  shows "virtio_ok v' \<and> length (disk v') = length (disk v)"
  using assms
proof (cases rule: virtio_step.cases)
  case (store a val sz)
  then show ?thesis using virtio_write_ok [OF _ assms(2)] virtio_write_disk by metis
next
  case (poll b)
  then show ?thesis using assms(2) by (auto simp: virtio_is_interrupting_def virtio_ok_def split: if_splits)
next
  case (access c c')
  then show ?thesis using assms(2) disk_access_keeps [OF access] by (auto simp: virtio_ok_def)
qed

lemma virtio_reach_ok:
  assumes "(virtio_step ck cpu)\<^sup>*\<^sup>* (initialize img virtio_new) v"
  shows "virtio_ok v \<and> length (disk v) = length img"
  using assms
proof (induction rule: rtranclp_induct)
  case base
  show ?case using virtio_new_ok by (simp add: initialize_def virtio_ok_def) (simp add: virtio_new_def)
qed (use virtio_step_ok in fastforce)

text \<open>When the accesses panic.\<close>

lemma load_target_panics:
  assumes "virtio_ok v" and "a < 0x1000"
  shows "load_target v (a + VIRTIO_BASE) sz = panic \<longleftrightarrow> reg_at 0x10 a \<and> 2 \<le> device_features_sel v"
proof -
  have f: "at_index (device_features v) i = panic \<longleftrightarrow> 2 \<le> i" for i
    using assms(1) by (auto simp: at_index_def virtio_ok_def word_le_nat_alt)
  have c: "at_index (config v) (a + VIRTIO_BASE - CONFIG) \<noteq> panic" if "0x100 \<le> a" "a \<le> 0x107"
  proof -
    have "unat (a - 0x100) < 8" using that by (simp add: unat_sub word_le_nat_alt)
    then show ?thesis using assms(1) by (simp add: at_index_def virtio_ok_def virtio_map)
  qed
  have d: "\<not> reg_at 0x10 a" if "reg_at 0 a \<or> reg_at 4 a \<or> reg_at 8 a \<or> reg_at 0xc a"
    using that by (auto simp: reg_at_nat)
  show ?thesis unfolding load_target_def virtio_in_reg [OF assms(2)]
    using c d by (auto simp: f bind_eq_None_conv)
qed

lemma store_panics:
  assumes "virtio_ok v" and "a < 0x1000"
  shows "attempt (store_target v (a + VIRTIO_BASE)) (\<lambda>(reg, offset). store_register ck (a + VIRTIO_BASE) (merge reg offset val sz) v) = panic
    \<longleftrightarrow> reg_at 0x20 a \<and> 2 \<le> driver_features_sel v \<or> reg_at 0x70 a \<and> bit (merge (status v) (a - 0x70) val sz) 7"
proof -
  have o: "a + VIRTIO_BASE - STATUS = a - 0x70" by (simp add: virtio_map)
  consider "reg_at 0x20 a" | "reg_at 0x70 a" | "\<not> reg_at 0x20 a" "\<not> reg_at 0x70 a" by blast
  then show ?thesis
  proof cases
    case 1
    then have "\<not> reg_at 0x14 a" "\<not> reg_at 0x70 a" by (simp_all add: reg_at_nat)
    with 1 show ?thesis unfolding store_target_def store_register_def virtio_in_reg [OF assms(2)]
      using assms(1) by (auto simp: attempt_def at_index_def set_index_def virtio_ok_def word_le_nat_alt)
  next
    case 2
    then have n: "\<not> reg_at 0x14 a" "\<not> reg_at 0x20 a" "\<not> reg_at 0x24 a" "\<not> reg_at 0x28 a" "\<not> reg_at 0x38 a"
      "\<not> reg_at 0x3c a" "\<not> reg_at 0x40 a" "\<not> reg_at 0x50 a" "\<not> reg_at 0x64 a"
      by (simp_all add: reg_at_nat)
    with 2 show ?thesis unfolding store_target_def store_register_def virtio_in_reg [OF assms(2)]
      by (simp add: o set_status_eq)
  next
    case 3
    then show ?thesis unfolding store_target_def store_register_def virtio_in_reg [OF assms(2)]
      by simp
  qed
qed

lemma config_panics:
  assumes "virtio_ok v" and "0x100 \<le> a" and "a \<le> 0x107"
  shows "u_shr ck val ((a - 0x100) * 8) \<bind> (\<lambda>b. set_index (config v) (a - 0x100) (ucast b) \<bind> (\<lambda>xs. Ok (v\<lparr>config := xs\<rparr>))) = panic
    \<longleftrightarrow> ck \<and> 0x104 \<le> a"
proof -
  have s: "unat (a - 0x100) = unat a - 0x100" "unat a - 0x100 < 8" using assms(2,3) by (simp_all add: unat_sub word_le_nat_alt)
  have "unat (x * 8) = unat x * 8" if "unat x < 8" for x :: u32 using that by (simp add: unat_word_ariths)
  from this [of "a - 0x100"] s have "unat ((a - 0x100) * 8) = (unat a - 0x100) * 8" by simp
  then have "32 \<le> (a - 0x100) * 8 \<longleftrightarrow> 0x104 \<le> a" using assms(2) by (simp add: word_le_nat_alt) arith
  then show ?thesis using s assms(1) by (auto simp: u_shr_def set_index_def virtio_ok_def)
qed

text \<open>
  A request to read two bytes of sector 0: the queue at address 0 with eight descriptors, the first
  three in use; its buffer is at \<open>0x300\<close> and its status byte at \<open>0x400\<close>.
\<close>

definition ex_mem :: memory where
  "ex_mem = (\<lambda>_. 0)(1 := 2, 8 := 16, 12 := 1, 14 := 1, 17 := 3, 24 := 2, 28 := 3, 30 := 2,
     33 := 4, 40 := 1, 44 := 2)"

definition ex_virtio :: virtio where
  "ex_virtio = (initialize [7, 9] virtio_new)\<lparr>queue_num := 8\<rparr>"

definition ex_queue :: virtqueue_addr where
  "ex_queue = \<lparr>desc_addr = 0, avail_addr = 128, used_addr = 4096\<rparr>"

lemma ex_queue: "get_virtqueue True ex_virtio = Some ex_queue"
  by (simp add: get_virtqueue_def virtqueue_addr_new_def ex_virtio_def virtio_new_def initialize_def u_mul_def u_add_def
      ex_queue_def word_less_nat_alt)

lemma ex_request:
  "request_of ex_queue ex_mem = \<lparr>r_head = 0, r_desc1 = \<lparr>d_addr = 0x300, d_len = 2, d_flags = 3, d_next = 2\<rparr>, r_sector = 0\<rparr>"
  by (simp add: request_of_def ring_entry_def desc_of_def desc_at_def load16_def load32_def ex_queue_def ex_mem_def)

lemma ex_request_ok: "request_ok UNIV ex_queue ex_mem ex_virtio"
proof -
  have i: "indices 2 = [0, 1]" by (simp add: indices_def upt_rec)
  have d: "disk ex_virtio = [7, 9]" by (simp add: ex_virtio_def initialize_def virtio_new_def)
  have u: "bytes_in UNIV a n" for a n by (simp add: bytes_in_def)
  show ?thesis
    by (simp add: request_ok_def Let_def ex_request u desc_ok_def data_ok_def d moved_mem_def writes_memory_def i blit_in_def)
      (simp add: desc_of_def desc_at_def load16_def load32_def ex_queue_def ex_mem_def)
qed

section \<open>Properties\<close>

text \<open>
  C32. In every state the device can reach the register arrays keep the lengths of their types, the
  features offered are those of the specification, the disk keeps its size, and no queue addresses are
  ever kept: \<open>DRIVER_OK\<close> is never recognised, so each disk access computes them from the registers as
  they are then.
\<close>

theorem virtio_registers_typed:
  assumes "(virtio_step ck cpu)\<^sup>*\<^sup>* (initialize img virtio_new) v"
  shows "device_features v = [0, 8] \<and> length (driver_features v) = 2 \<and> length (config v) = 8
    \<and> length (disk v) = length img \<and> virtqueue v = None \<and> get_virtqueue ck v = virtqueue_addr_new ck v"
  using virtio_reach_ok [OF assms] by (simp add: virtio_ok_def get_virtqueue_def)

theorem virtio_registers_typed_witness:
  "\<exists>v. virtio_write True (initialize [1, 2] virtio_new) 0x70 4 Word = Ok v \<and> status v = 4 \<and> virtqueue v = None
     \<and> length (disk v) = 2"
proof -
  let ?v = "initialize [1, 2] virtio_new" and ?a = "0x70 :: u32"
  let ?w = "?v\<lparr>status := 4\<rparr>"
  have a: "?a < VIRTIO_SIZE" by (simp add: VIRTIO_SIZE_def word_less_nat_alt)
  have "?a < 0x1000" "\<not> 0x100 \<le> ?a" by (simp_all add: word_less_nat_alt word_le_nat_alt)
  then have "virtio_write True ?v ?a 4 Word = Ok ?w"
    by (simp add: virtio_write_def virtio_base_add virtio_in_reg reg_at_nat store_target_def store_register_def merge_def
        set_status_eq)
  moreover from this have "virtio_step True plain_ram ?v ?w" by (rule store [OF a])
  then have "(virtio_step True plain_ram)\<^sup>*\<^sup>* ?v ?w" by blast
  from virtio_registers_typed [OF this] have "virtqueue ?w = None" "length (disk ?w) = 2" by simp_all
  ultimately show ?thesis by auto
qed

text \<open>
  C33. How a guest can stop the emulator through the registers: exactly by loading the features with a
  selector of 2 or more, selecting a queue other than 0, storing driver features with a selector of 2
  or more, setting the \<open>FAILED\<close> bit, and, with overflow checks, storing to the upper half of the
  configuration space.
\<close>

theorem virtio_panics_iff:
  assumes "(virtio_step ck cpu)\<^sup>*\<^sup>* (initialize img virtio_new) v" and "a < VIRTIO_SIZE"
  shows "(virtio_read ck v a sz = panic \<longleftrightarrow> reg_at 0x10 a \<and> 2 \<le> device_features_sel v)
    \<and> (virtio_write ck v a val sz = panic \<longleftrightarrow> reg_at 0x30 a \<and> val \<noteq> 0
        \<or> reg_at 0x20 a \<and> 2 \<le> driver_features_sel v
        \<or> reg_at 0x70 a \<and> bit (merge (status v) (a - 0x70) val sz) 7
        \<or> 0x104 \<le> a \<and> a \<le> 0x107 \<and> sz = Byte \<and> ck)"
proof
  have ok: "virtio_ok v" using virtio_reach_ok [OF assms(1)] by simp
  have a: "a < 0x1000" using assms(2) by (simp add: VIRTIO_SIZE_def)
  show "virtio_read ck v a sz = panic \<longleftrightarrow> reg_at 0x10 a \<and> 2 \<le> device_features_sel v"
    using load_target_panics [OF ok a, of sz] by (auto simp: virtio_read_def virtio_base_add [OF a] attempt_def split: option.splits sum.splits)
  have o: "a + VIRTIO_BASE - CONFIG = a - 0x100" by (simp add: virtio_map)
  have d: "\<not> reg_at 0x20 a" "\<not> reg_at 0x70 a" if "reg_at 0x30 a \<or> 0x100 \<le> a \<and> a \<le> 0x107"
    using that by (auto simp: reg_at_nat word_le_nat_alt)
  have e: "\<not> (0x104 \<le> a \<and> a \<le> 0x107)" if "reg_at 0x30 a \<or> \<not> (0x100 \<le> a \<and> a \<le> 0x107)"
    using that by (auto simp: reg_at_nat word_le_nat_alt)
  show "virtio_write ck v a val sz = panic \<longleftrightarrow> reg_at 0x30 a \<and> val \<noteq> 0
        \<or> reg_at 0x20 a \<and> 2 \<le> driver_features_sel v
        \<or> reg_at 0x70 a \<and> bit (merge (status v) (a - 0x70) val sz) 7
        \<or> 0x104 \<le> a \<and> a \<le> 0x107 \<and> sz = Byte \<and> ck"
    unfolding virtio_write_def virtio_base_add [OF a] bind.bind_lunit virtio_in_reg [OF a] Let_def o
    using d e config_panics [OF ok, of a ck val] store_panics [OF ok a, of ck val sz] by (auto split: if_splits)
qed

theorem virtio_panics_iff_witness:
  "virtio_write True (initialize [] virtio_new) 0x70 0x80 Word = panic
   \<and> virtio_write False (initialize [] virtio_new) 0x70 0x40 Word \<noteq> panic"
  using virtio_panics_iff [of True plain_ram "[]" "initialize [] virtio_new" "0x70" Word "0x80"]
    virtio_panics_iff [of False plain_ram "[]" "initialize [] virtio_new" "0x70" Word "0x40"]
  by (simp add: VIRTIO_SIZE_def word_less_nat_alt reg_at_nat merge_def)

text \<open>What a well formed request does.\<close>

lemma disk_access_effect:
  assumes "ram_laws cpu view R" and "get_virtqueue ck v = Some q" and "request_ok R q (view c) v"
  shows "\<exists>c'. disk_access ck cpu v c = Ok (snd (disk_effect q (view c) v), c') \<and> view c' = fst (disk_effect q (view c) v)"
proof -
  define m where "m = view c"
  define r where "r = request_of q m"
  define d0 where "d0 = desc_of q m (r_head r)"
  define m1 where "m1 = moved_mem r (disk v) m"
  define d2 where "d2 = desc_of q m1 (d_next (r_desc1 r))"
  let ?v = "v\<lparr>interrupt_status := interrupt_status v OR 1\<rparr>"
  note ok = assms(3) [folded m_def, unfolded request_ok_def Let_def, folded r_def, folded d0_def m1_def, folded d2_def]
  have r: "load16 m (ring_entry q m) = r_head r" "desc_of q m (d_next d0) = r_desc1 r" "load32 m (d_addr d0 + 8) = r_sector r"
    by (simp_all add: r_def request_of_def Let_def d0_def)
  have h: "unat (r_head r) < 65536" unfolding r(1) [symmetric] by (rule load16_less)
  have n0: "unat (d_next d0) < 65536" unfolding d0_def by (rule d_next_less)
  have n1: "unat (d_next (r_desc1 r)) < 65536" unfolding r(2) [symmetric] by (rule d_next_less)
  note ram = ram_lawsD [OF assms(1)]
  have avail: "virtq_avail_new cpu c (avail_addr q) = Ok (\<lparr>a_flags = ucast (load16 m (avail_addr q)),
      a_idx = ucast (load16 m (avail_addr q + 2)), ring_start_addr = avail_addr q + 4\<rparr>, c)"
    using virtq_avail_new_ram [OF assms(1)] bytes_in_sub [of R "avail_addr q" 13 0 4] ok by (simp add: m_def)
  note ring = ring_entry_read [OF assms(1), where q = q and c = c, folded m_def]
  obtain c1 where c1: "(if d_flags (r_desc1 r) AND 2 = 0 then dma_to_disk else dma_from_disk)
      ck cpu (d_addr (r_desc1 r)) (r_sector r) (indices (d_len (r_desc1 r))) ?v c
        = Ok (?v\<lparr>disk := moved_disk r m (disk v)\<rparr>, c1)" "view c1 = m1"
    using dma_ram [OF assms(1), of r ?v ck c] ok by (auto simp: m_def m1_def)
  obtain c2 where c2: "cpu_write cpu c1 (d_addr d2) 0 Byte = Ok c2" "view c2 = m1(d_addr d2 := 0)"
    using ram(4) [of "d_addr d2" c1 0] ok c1(2) by auto
  obtain c3 where c3: "cpu_write cpu c2 (used_addr q + 4 + vid v mod 8 * 8) (r_head r) Word = Ok c3"
    "view c3 = store32 (used_addr q + 4 + vid v mod 8 * 8) (r_head r) (view c2)"
    using ram(6) [of "used_addr q + 4 + vid v mod 8 * 8" c2 "r_head r"] ok by auto
  obtain c4 where c4: "cpu_write cpu c3 (used_addr q + 2) (vid v + 1) HalfWord = Ok c4"
    "view c4 = store16 (used_addr q + 2) (vid v + 1) (view c3)"
    using ram(5) [of "used_addr q + 2" c3 "vid v + 1"] ok by auto
  have reads: "descriptor ck cpu q (r_head r) c = Ok (d0, c)" "descriptor ck cpu q (d_next d0) c = Ok (r_desc1 r, c)"
    "descriptor ck cpu q (d_next (r_desc1 r)) c1 = Ok (d2, c1)" "cpu_read cpu c (d_addr d0 + 8) Word = Ok (r_sector r, c)"
    using descriptor_ok [OF assms(1)] ok h n0 n1 c1(2) r ram(3) by (simp_all add: m_def d0_def d2_def)
  have "disk_access ck cpu v c = Ok (?v\<lparr>disk := moved_disk r m (disk v), vid := vid v + 1\<rparr>, c4)"
    using ring ok by (simp add: disk_access_def assms(2) avail ucast_load16 r(1) reads c1(1) c2(1) c3(1) c4(1)
        VIRTQ_DESC_F_NEXT_def VIRTQ_DESC_F_WRITE_def QUEUE_SIZE_def)
  moreover have "disk_effect q m v = (view c4, ?v\<lparr>disk := moved_disk r m (disk v), vid := vid v + 1\<rparr>)"
    by (simp add: disk_effect_def Let_def c4(2) c3(2) c2(2) status_addr_def flip: r_def m1_def d2_def)
  ultimately show ?thesis by (simp add: m_def)
qed

text \<open>What it moves.\<close>

lemma disk_effect_data:
  assumes "request_ok R q m v" and "disk_effect q m v = (m', v')" and "request_of q m = r"
    and "i < d_len (r_desc1 r)"
    and "writes_memory r \<Longrightarrow> d_addr (r_desc1 r) + i \<notin> control_bytes q (vid v) (status_addr q r (moved_mem r (disk v) m))"
  shows "disk v' ! (unat (r_sector r) * 512 + unat i) = (if writes_memory r then m' else m) (d_addr (r_desc1 r) + i)
    \<and> length (disk v') = length (disk v)
    \<and> (\<forall>j < length (disk v). writes_memory r \<or> j < unat (r_sector r) * 512
         \<or> unat (r_sector r) * 512 + unat (d_len (r_desc1 r)) \<le> j \<longrightarrow> disk v' ! j = disk v ! j)"
proof -
  let ?s = "r_sector r" and ?len = "d_len (r_desc1 r)" and ?a = "d_addr (r_desc1 r)"
  have ok: "data_ok R ?a ?len ?s (disk v)" using assms(1,3) by (simp add: request_ok_def Let_def)
  note pos = data_ok_pos [OF ok]
  have len32: "length (disk v) < 2 ^ 32" using ok by (simp add: data_ok_def)
  have d: "disk v' = moved_disk r m (disk v)" using assms(2,3) by (auto simp: disk_effect_def Let_def)
  show ?thesis
  proof (cases "writes_memory r")
    case True
    let ?m1 = "moved_mem r (disk v) m"
    have "?a + i \<noteq> status_addr q r ?m1" "?a + i \<notin> {used_addr q + 2, used_addr q + 2 + 1}"
      "?a + i \<notin> (\<lambda>k. used_addr q + 4 + vid v mod 8 * 8 + k) ` {0, 1, 2, 3}"
      using assms(5) [OF True] by (auto simp: control_bytes_def add.assoc)
    then have "m' (?a + i) = ?m1 (?a + i)"
      using assms(2,3) by (auto simp: disk_effect_def Let_def store_other)
    also have "\<dots> = disk v ! (unat ?s * 512 + unat i)"
      using True assms(4) pos(4) [OF assms(4)] by (simp add: moved_mem_def blit_in_at indices_less)
    finally show ?thesis using True d by (simp add: moved_disk_def)
  next
    case False
    have at: "disk v' ! j = (if of_nat j - ?s * 512 < ?len then m (?a + (of_nat j - ?s * 512)) else disk v ! j)"
      if "j < length (disk v)" for j
      using that len32 False by (simp add: d moved_disk_def blit_out_at indices_less)
    have "of_nat (unat ?s * 512 + unat i) - ?s * 512 = i" by simp
    with at [of "unat ?s * 512 + unat i"] pos(4,5) [OF assms(4)] assms(4)
    have "disk v' ! (unat ?s * 512 + unat i) = m (?a + i)" by simp
    moreover have "disk v' ! j = disk v ! j"
      if j: "j < length (disk v)" "j < unat ?s * 512 \<or> unat ?s * 512 + unat ?len \<le> j" for j
    proof -
      have "\<not> of_nat j - ?s * 512 < ?len"
      proof
        assume lt: "of_nat j - ?s * 512 < ?len"
        then have "unat (?s * 512 + (of_nat j - ?s * 512)) = unat ?s * 512 + unat (of_nat j - ?s * 512)" by (rule pos(4))
        then have "j = unat ?s * 512 + unat (of_nat j - ?s * 512)" using j(1) len32 by (simp add: unat_of_nat32)
        with lt j(2) show False by (simp add: word_less_nat_alt)
      qed
      with at [OF j(1)] show ?thesis by simp
    qed
    ultimately show ?thesis using False d by (auto simp: moved_disk_def)
  qed
qed

text \<open>
  C4. The disk access implements the effect of a request: for every well formed request it succeeds,
  and memory, disk and device are afterwards as \<open>disk_effect\<close> says, whatever else the CPU's state holds.
\<close>

theorem disk_access_refines:
  assumes "ram_laws cpu view R" and "get_virtqueue ck v = Some q" and "request_ok R q (view c) v"
  shows "\<exists>c'. disk_access ck cpu v c = Ok (snd (disk_effect q (view c) v), c') \<and> view c' = fst (disk_effect q (view c) v)"
  using assms by (rule disk_access_effect)

theorem disk_access_refines_witness:
  "\<exists>m'. disk_access True plain_ram ex_virtio ex_mem = Ok (snd (disk_effect ex_queue ex_mem ex_virtio), m')"
  using disk_access_refines [OF plain_ram_laws ex_queue, of ex_mem] ex_request_ok by simp

text \<open>
  C17. What a disk access moves: for a well formed request it succeeds, afterwards each byte of the buffer is the
  byte of the disk at the sector's position, whichever way the request moves them, and no other byte of the
  disk has changed, none at all if it reads the disk. A byte of the buffer of such a request that is also the
  status byte or one of those written to the used ring is excepted.
\<close>

theorem disk_request_data:
  assumes "ram_laws cpu view R" and "get_virtqueue ck v = Some q" and "request_ok R q (view c) v"
    and "request_of q (view c) = r" and "i < d_len (r_desc1 r)"
    and "writes_memory r \<Longrightarrow>
      d_addr (r_desc1 r) + i \<notin> control_bytes q (vid v) (status_addr q r (moved_mem r (disk v) (view c)))"
  shows "\<exists>v' c'. disk_access ck cpu v c = Ok (v', c')
    \<and> disk v' ! (unat (r_sector r) * 512 + unat i) = view (if writes_memory r then c' else c) (d_addr (r_desc1 r) + i)
    \<and> length (disk v') = length (disk v)
    \<and> (\<forall>j < length (disk v). writes_memory r \<or> j < unat (r_sector r) * 512
         \<or> unat (r_sector r) * 512 + unat (d_len (r_desc1 r)) \<le> j \<longrightarrow> disk v' ! j = disk v ! j)"
proof -
  obtain m' v' where e: "disk_effect q (view c) v = (m', v')" by (metis surj_pair)
  from disk_access_effect [OF assms(1-3)] obtain c' where
    c: "disk_access ck cpu v c = Ok (v', c')" "view c' = m'" by (auto simp: e)
  from disk_effect_data [OF assms(3) e assms(4-6)] show ?thesis
    by (intro exI [of _ v'] exI [of _ c'] conjI c(1)) (simp_all add: c(2))
qed

theorem disk_request_data_witness:
  "\<exists>v' c'. disk_access True plain_ram ex_virtio ex_mem = Ok (v', c') \<and> disk v' ! 1 = c' 0x301"
proof -
  let ?r = "request_of ex_queue ex_mem"
  have i: "indices 2 = [0, 1]" by (simp add: indices_def upt_rec)
  have d: "disk ex_virtio = [7, 9]" "vid ex_virtio = 0" by (simp_all add: ex_virtio_def initialize_def virtio_new_def)
  have w: "writes_memory ?r" by (simp add: ex_request writes_memory_def)
  have b: "d_addr (r_desc1 ?r) = 0x300" "used_addr ex_queue = 4096" by (simp add: ex_request) (simp add: ex_queue_def)
  have "status_addr ex_queue ?r (moved_mem ?r (disk ex_virtio) ex_mem) = 0x400"
    by (simp add: status_addr_def ex_request moved_mem_def writes_memory_def d i blit_in_def)
      (simp add: desc_of_def desc_at_def load32_def ex_queue_def ex_mem_def)
  then have c: "d_addr (r_desc1 ?r) + 1 \<notin> control_bytes ex_queue (vid ex_virtio) (status_addr ex_queue ?r (moved_mem ?r (disk ex_virtio) ex_mem))"
    using b by (auto simp: control_bytes_def d)
  have "1 < d_len (r_desc1 ?r)" by (simp add: ex_request word_less_nat_alt)
  then show ?thesis
    using disk_request_data [where view = "\<lambda>m. m" and c = ex_mem, OF plain_ram_laws ex_queue ex_request_ok refl _ c] w
    by (auto simp: ex_request)
qed

end
