(* ===== verification/Board.thy ===== *)
theory Board
  imports Clint Plic UartDevice Virtio
begin

text \<open>
  The front end (\<open>src/main.rs\<close>): the board that holds the devices, the check for interrupts after each
  instruction and the loop around it. The CPU is the crate \<open>riscv_vm\<close> and a parameter: its registers,
  its access to memory, its privilege mode, one step of it and the entry of a trap.
\<close>

datatype privilege = Machine_mode | Supervisor_mode | Other_mode

datatype interrupt = MachineExternalInterrupt | MachineSoftwareInterrupt | MachineTimerInterrupt
  | SupervisorExternalInterrupt | SupervisorSoftwareInterrupt | SupervisorTimerInterrupt

record ('c, 'e) riscv =
  csrs :: "'c csr_file"
  bus :: "('c, 'e) cpu_api"
  get_privilege :: "'c \<Rightarrow> privilege"
  get_bit :: "u32 \<Rightarrow> u32 \<Rightarrow> u32"

definition riscv_laws :: "('c, 'e) riscv \<Rightarrow> bool" where
  "riscv_laws V \<longleftrightarrow> csr_laws (csrs V) \<and> (\<forall>w n. get_bit V w n = (if bit w (unat n) then 1 else 0))"

text \<open>A CPU that satisfies them: registers only, in machine mode, with a bus that always faults.\<close>

definition plain_cpu :: "(u32 \<Rightarrow> u32, exception) riscv" where
  "plain_cpu = \<lparr>csrs = plain_csrs, bus = \<lparr>cpu_read = (\<lambda>_ _ _. Err LoadAccessFault), cpu_write = (\<lambda>_ _ _ _. Err StoreAccessFault)\<rparr>,
     get_privilege = (\<lambda>_. Machine_mode), get_bit = (\<lambda>w n. if bit w (unat n) then 1 else 0)\<rparr>"

lemma plain_cpu_laws: "riscv_laws plain_cpu"
  by (simp add: riscv_laws_def plain_cpu_def plain_csrs_laws)

record 'c board =
  cpu :: 'c
  clint :: clint
  plic :: plic
  uart :: uart
  virtio :: virtio

text \<open>\<open>expect\<close> panics on an error.\<close>

definition expect :: "('e + 'a) option \<Rightarrow> 'a option" where
  "expect r = (case r of Some (Inr x) \<Rightarrow> Some x | _ \<Rightarrow> panic)"

lemma expect_Ok [simp]: "expect (Ok x) = Some x"
  by (simp add: expect_def)

section \<open>The interrupt check\<close>

definition globally_disabled :: "('c, 'e) riscv \<Rightarrow> 'c \<Rightarrow> bool" where
  "globally_disabled V c = (case get_privilege V c of
       Machine_mode \<Rightarrow> get_bit V (csr_read (csrs V) c (MSTATUS (csrs V))) 3 = 0
     | Supervisor_mode \<Rightarrow> get_bit V (csr_read (csrs V) c (SSTATUS (csrs V))) 1 = 0
     | Other_mode \<Rightarrow> False)"

definition clear_mip :: "'c csr_file \<Rightarrow> u32 \<Rightarrow> 'c \<Rightarrow> 'c" where
  "clear_mip F b c = csr_write F c (MIP F) (csr_read F c (MIP F) AND NOT b)"

definition take_pending :: "'c csr_file \<Rightarrow> 'c \<Rightarrow> interrupt option \<times> 'c" where
  "take_pending F c =
     (let pend = csr_read F c (MIE F) AND csr_read F c (MIP F) in
      if pend AND MEIP_BIT F \<noteq> 0 then (Some MachineExternalInterrupt, clear_mip F (MEIP_BIT F) c)
      else if pend AND MSIP_BIT F \<noteq> 0 then (Some MachineSoftwareInterrupt, clear_mip F (MSIP_BIT F) c)
      else if pend AND MTIP_BIT F \<noteq> 0 then (Some MachineTimerInterrupt, clear_mip F (MTIP_BIT F) c)
      else if pend AND SEIP_BIT F \<noteq> 0 then (Some SupervisorExternalInterrupt, clear_mip F (SEIP_BIT F) c)
      else if pend AND SSIP_BIT F \<noteq> 0 then (Some SupervisorSoftwareInterrupt, clear_mip F (SSIP_BIT F) c)
      else if pend AND STIP_BIT F \<noteq> 0 then (Some SupervisorTimerInterrupt, clear_mip F (STIP_BIT F) c)
      else (None, c))"

text \<open>The external interrupts: the number to raise, after the disk access if the queue was notified.\<close>

definition external_irq :: "bool \<Rightarrow> ('c, 'e) riscv \<Rightarrow> 'c board \<Rightarrow> (u32 \<times> 'c board) option" where
  "external_irq checked V b = do {
     let irq = (if is_interrupting (uart b) then UART_IRQ else 0);
     let (notified, v) = virtio_is_interrupting (virtio b);
     let b = b\<lparr>virtio := v\<rparr>;
     if notified then do {
       (v, c) \<leftarrow> expect (disk_access checked (bus V) (virtio b) (cpu b));
       Some (VIRTIO_IRQ, b\<lparr>virtio := v, cpu := c\<rparr>)
     } else Some (irq, b)
   }"

definition raise_irq :: "bool \<Rightarrow> 'c csr_file \<Rightarrow> u32 \<Rightarrow> 'c board \<Rightarrow> 'c board option" where
  "raise_irq checked F irq b =
     (if irq \<noteq> 0 then do {
        p \<leftarrow> update_pending checked (plic b) irq;
        Some (b\<lparr>plic := p, cpu := csr_write F (cpu b) (MIP F) (csr_read F (cpu b) (MIP F) OR SEIP_BIT F)\<rparr>)
      } else Some b)"

definition check_ints :: "bool \<Rightarrow> ('c, 'e) riscv \<Rightarrow> 'c board \<Rightarrow> (interrupt option \<times> 'c board) option" where
  "check_ints checked V b = do {
     time \<leftarrow> expect (clint_read (clint b) MTIME Word);
     timecmp \<leftarrow> expect (clint_read (clint b) MTIMECMP Word);
     sip \<leftarrow> expect (clint_read (clint b) MSIP Word);
     let sip = drop_bit 3 (sip AND MSIP_BIT (csrs V));
     if time \<ge> timecmp \<and> sip = 1 then Some (Some MachineTimerInterrupt, b)
     else if globally_disabled V (cpu b) then Some (None, b)
     else do {
       (irq, b) \<leftarrow> external_irq checked V b;
       b \<leftarrow> raise_irq checked (csrs V) irq b;
       let (i, c) = take_pending (csrs V) (cpu b);
       Some (i, b\<lparr>cpu := c\<rparr>)
     }
   }"

text \<open>One round of the loop of \<open>main\<close>; \<open>step\<close> fails when the CPU does, which ends the loop.\<close>

definition emulator_round ::
  "bool \<Rightarrow> ('c, 'e) riscv \<Rightarrow> ('c board \<Rightarrow> 'c board option) \<Rightarrow> (interrupt \<Rightarrow> 'c board \<Rightarrow> 'c board) \<Rightarrow> 'c board \<Rightarrow> 'c board option option" where
  "emulator_round checked V step take_trap b = (case step b of
       None \<Rightarrow> Some None
     | Some b \<Rightarrow> do {
         (i, b) \<leftarrow> check_ints checked V b;
         Some (Some (case i of Some i \<Rightarrow> take_trap i b | None \<Rightarrow> b))
       })"

text \<open>The loop, \<open>n\<close> rounds of it: \<open>Some None\<close> once it has ended.\<close>

fun emulator_rounds ::
  "nat \<Rightarrow> bool \<Rightarrow> ('c, 'e) riscv \<Rightarrow> ('c board \<Rightarrow> 'c board option) \<Rightarrow> (interrupt \<Rightarrow> 'c board \<Rightarrow> 'c board) \<Rightarrow> 'c board \<Rightarrow> 'c board option option" where
  "emulator_rounds 0 checked V step take_trap b = Some (Some b)"
| "emulator_rounds (Suc n) checked V step take_trap b = do {
     r \<leftarrow> emulator_round checked V step take_trap b;
     (case r of None \<Rightarrow> Some None | Some b \<Rightarrow> emulator_rounds n checked V step take_trap b)
   }"

section \<open>Priorities\<close>

text \<open>The specification: the first of the list whose bit is pending and enabled.\<close>

definition priority_order :: "(nat \<times> interrupt) list" where
  "priority_order = [(11, MachineExternalInterrupt), (3, MachineSoftwareInterrupt), (7, MachineTimerInterrupt),
     (9, SupervisorExternalInterrupt), (1, SupervisorSoftwareInterrupt), (5, SupervisorTimerInterrupt)]"

definition first_pending :: "u32 \<Rightarrow> (nat \<times> interrupt) option" where
  "first_pending w = find (\<lambda>(n, i). bit w n) priority_order"

lemma and_exp_iff: "(w AND 2 ^ n \<noteq> 0) \<longleftrightarrow> bit (w :: u32) n"
proof -
  have "w AND 2 ^ n = (if bit w n then 2 ^ n else 0)"
    by (rule bit_word_eqI) (auto simp: bit_and_iff bit_exp_iff)
  moreover have "bit w n \<Longrightarrow> (2 ^ n :: u32) \<noteq> 0" by (auto dest!: bit_imp_le_length)
  ultimately show ?thesis by auto
qed

lemma take_pending_first:
  assumes "csr_laws F"
  shows "take_pending F c = (case first_pending (csr_read F c (MIE F) AND csr_read F c (MIP F)) of
      None \<Rightarrow> (None, c) | Some (n, i) \<Rightarrow> (Some i, clear_mip F (2 ^ n) c))"
  unfolding take_pending_def Let_def csr_bits [OF assms] and_exp_iff
  by (simp add: first_pending_def priority_order_def)

lemma first_pending_bit: "first_pending w = Some (n, i) \<Longrightarrow> bit w n"
  by (auto simp: first_pending_def find_Some_iff)

text \<open>The timer condition of the check and the interrupts that stand after the devices were asked.\<close>

definition timer_shortcut :: "clint \<Rightarrow> bool" where
  "timer_shortcut k \<longleftrightarrow> (ucast (mtimecmp k) :: u32) \<le> ucast (mtime k) \<and> bit (msip k) 3"

definition pending_after :: "'c csr_file \<Rightarrow> u32 \<Rightarrow> 'c board \<Rightarrow> u32" where
  "pending_after F irq b = csr_read F (cpu b) (MIP F) OR (if irq \<noteq> 0 then SEIP_BIT F else 0)"

lemma clint_registers [simp]:
  "clint_read k MTIME Word = Ok (ucast (mtime k))" "clint_read k MTIMECMP Word = Ok (ucast (mtimecmp k))"
  "clint_read k MSIP Word = Ok (ucast (msip k))"
  by (simp_all add: clint_read_def clint_map word_le_nat_alt word_less_nat_alt)

lemma msip_bit:
  assumes "csr_laws F"
  shows "drop_bit 3 (ucast (k :: u64) AND MSIP_BIT F) = (1 :: u32) \<longleftrightarrow> bit k 3"
proof -
  have "drop_bit 3 ((ucast k :: u32) AND 2 ^ 3) = (if bit k 3 then 1 else 0)"
  proof (rule bit_word_eqI)
    fix n assume "n < LENGTH(32)"
    have "bit (2 ^ 3 :: u32) (n + 3) \<longleftrightarrow> n = 0" by (simp only: bit_exp_iff) auto
    then show "bit (drop_bit 3 ((ucast k :: u32) AND 2 ^ 3)) n = bit (if bit k 3 then 1 else 0 :: u32) n"
      by (auto simp: bit_drop_bit_eq bit_and_iff bit_1_iff bit_ucast_iff)
  qed
  then show ?thesis unfolding csr_bits(2) [OF assms] by simp
qed

lemma check_ints_eq:
  assumes "riscv_laws V"
  shows "check_ints ck V b = (if timer_shortcut (clint b) then Some (Some MachineTimerInterrupt, b)
     else if globally_disabled V (cpu b) then Some (None, b)
     else do { (irq, b) \<leftarrow> external_irq ck V b; b \<leftarrow> raise_irq ck (csrs V) irq b;
       let (i, c) = take_pending (csrs V) (cpu b); Some (i, b\<lparr>cpu := c\<rparr>) })"
proof -
  have F: "csr_laws (csrs V)" using assms by (simp add: riscv_laws_def)
  show ?thesis unfolding check_ints_def clint_registers expect_Ok bind.bind_lunit Let_def msip_bit [OF F] timer_shortcut_def ..
qed

lemma raise_irq_ok:
  assumes "plic_ok (plic b)" and "irq = 0 \<or> board_irq irq"
  shows "\<exists>p. raise_irq ck F irq b = Some (b\<lparr>plic := p, cpu := if irq \<noteq> 0 then csr_write F (cpu b) (MIP F) (pending_after F irq b) else cpu b\<rparr>)
    \<and> (irq = 0 \<longrightarrow> p = plic b) \<and> (irq \<noteq> 0 \<longrightarrow> update_pending ck (plic b) irq = Some p)"
proof (cases "irq = 0")
  case False
  with assms board_irq_ok [of irq ck] obtain p where "update_pending ck (plic b) irq = Some p"
    by (auto simp: update_pending_eq Let_def)
  with False show ?thesis by (simp add: raise_irq_def pending_after_def)
qed (simp add: raise_irq_def)

text \<open>Anything that can happen to the UART, of the protocol or not.\<close>

inductive uart_any :: "bool \<Rightarrow> uart \<Rightarrow> uart \<Rightarrow> bool" for ck where
  by_reader: "reader_step u u' \<Longrightarrow> uart_any ck u u'"
| by_load: "uart_load ck u a sz = Ok (w, u') \<Longrightarrow> uart_any ck u u'"
| by_store: "uart_store ck u a sz w = Ok u' \<Longrightarrow> uart_any ck u u'"

lemma uart_any_interrupting: "uart_any ck u u' \<Longrightarrow> interrupting u \<Longrightarrow> interrupting u'"
  by (induction rule: uart_any.induct)
    (auto simp: reader_stepE deliver_def Let_def uart_load_def uart_store_def notify_one_def bind_eq_Some_conv split: if_splits)

text \<open>The states in which no check can panic: the PLIC as it can be reached, and no disk request.\<close>

definition board_ok :: "bool \<Rightarrow> 'c board \<Rightarrow> bool" where
  "board_ok ck b \<longleftrightarrow> plic_reach ck (plic b) \<and> queue_notify (virtio b) = - 1"

text \<open>
  What the devices ask for, as a specification: with a notified queue the disk is accessed and the
  interrupt is virtio's, otherwise it is the UART's or none. A failing disk access stops the emulator.
\<close>

definition asked :: "bool \<Rightarrow> ('c, 'e) riscv \<Rightarrow> 'c board \<Rightarrow> (u32 \<times> 'c board) option" where
  "asked ck V b =
     (if queue_notify (virtio b) = - 1 then Some (if interrupting (uart b) then UART_IRQ else 0, b)
      else case disk_access ck (bus V) ((virtio b)\<lparr>queue_notify := - 1\<rparr>) (cpu b) of
          Some (Inr (v, c)) \<Rightarrow> Some (VIRTIO_IRQ, b\<lparr>virtio := v, cpu := c\<rparr>)
        | _ \<Rightarrow> None)"

lemma external_irq_asked: "external_irq ck V b = asked ck V b"
  by (cases "disk_access ck (bus V) ((virtio b)\<lparr>queue_notify := - 1\<rparr>) (cpu b)")
    (auto simp: external_irq_def asked_def virtio_is_interrupting_def is_interrupting_def expect_def Let_def split: sum.splits)

lemma asked_irq: "asked ck V b = Some (irq, b1) \<Longrightarrow> (irq = 0 \<or> board_irq irq) \<and> plic b1 = plic b \<and> clint b1 = clint b \<and> uart b1 = uart b"
  by (auto simp: asked_def board_irq_def UART_IRQ_def VIRTIO_IRQ_def split: if_splits option.splits sum.splits)

text \<open>The check once the devices were asked.\<close>

lemma check_ints_first:
  assumes "riscv_laws V" and "plic_reach ck (plic b)"
    and "\<not> timer_shortcut (clint b)" and "\<not> globally_disabled V (cpu b)" and "asked ck V b = Some (irq, b1)"
  defines "F \<equiv> csrs V"
  defines "w \<equiv> pending_after F irq b1"
  shows "\<exists>b'. check_ints ck V b = Some (map_option snd (first_pending (csr_read F (cpu b1) (MIE F) AND w)), b')
    \<and> csr_read F (cpu b') (MIE F) = csr_read F (cpu b1) (MIE F)
    \<and> (\<forall>n. bit (csr_read F (cpu b') (MIP F)) n \<longleftrightarrow>
         bit w n \<and> map_option fst (first_pending (csr_read F (cpu b1) (MIE F) AND w)) \<noteq> Some n)
    \<and> clint b' = clint b \<and> uart b' = uart b \<and> virtio b' = virtio b1 \<and> plic_reach ck (plic b')"
proof -
  have F: "csr_laws F" using assms(1) by (simp add: riscv_laws_def F_def)
  let ?P = "csr_read F (cpu b1) (MIE F) AND w"
  note irq = asked_irq [OF assms(5)]
  have b1: "plic_reach ck (plic b1)" using irq assms(2) by simp
  from raise_irq_ok [OF plic_reach_ok [OF b1], of irq ck F, folded w_def] irq obtain p where
    r: "raise_irq ck F irq b1 = Some (b1\<lparr>plic := p, cpu := if irq \<noteq> 0 then csr_write F (cpu b1) (MIP F) w else cpu b1\<rparr>)"
    and p: "irq = 0 \<Longrightarrow> p = plic b1" "irq \<noteq> 0 \<Longrightarrow> update_pending ck (plic b1) irq = Some p"
    by blast
  define c where "c = (if irq \<noteq> 0 then csr_write F (cpu b1) (MIP F) w else cpu b1)"
  have c: "csr_read F c (MIE F) = csr_read F (cpu b1) (MIE F)" "csr_read F c (MIP F) = w"
    using F by (auto simp: c_def w_def pending_after_def)
  have "plic_reach ck p"
  proof (cases "irq = 0")
    case False
    with p(2) irq have "plic_step ck (plic b1) p" by (intro plic_step.raise) auto
    with b1 show ?thesis by (rule rtranclp.rtrancl_into_rtrancl)
  qed (use p(1) b1 in simp)
  moreover have "check_ints ck V b = (let (i, c') = take_pending F c in Some (i, b1\<lparr>plic := p, cpu := c'\<rparr>))"
    using assms(3,4,5) r by (simp add: check_ints_eq [OF assms(1)] external_irq_asked c_def flip: F_def)
  moreover have "bit (csr_read F (clear_mip F (2 ^ n) c) (MIP F)) k \<longleftrightarrow> bit w k \<and> n \<noteq> k"
    "csr_read F (clear_mip F (2 ^ n) c) (MIE F) = csr_read F (cpu b1) (MIE F)" if "n < 32" for n k
    using that F c by (auto simp: clear_mip_def bit_AND_NOT_exp)
  moreover have "n < 32" if "first_pending ?P = Some (n, i)" for n i
    using first_pending_bit [OF that] bit_imp_le_length by fastforce
  ultimately show ?thesis using irq c take_pending_first [OF F, of c]
    by (cases "first_pending ?P") (auto simp: split_def)
qed

lemma check_ints_panics:
  assumes "riscv_laws V" and "plic_reach ck (plic b)"
  shows "check_ints ck V b = None \<longleftrightarrow> \<not> timer_shortcut (clint b) \<and> \<not> globally_disabled V (cpu b) \<and> asked ck V b = None"
proof (cases "asked ck V b")
  case None
  then show ?thesis by (simp add: check_ints_eq [OF assms(1)] external_irq_asked)
next
  case (Some r)
  obtain irq b1 where "r = (irq, b1)" by (cases r)
  with Some check_ints_first [OF assms, of irq b1] show ?thesis by (auto simp: check_ints_eq [OF assms(1)])
qed

lemma check_ints_plic:
  assumes "riscv_laws V" and "plic_reach ck (plic b)" and "check_ints ck V b = Some (i, b')"
  shows "plic_reach ck (plic b')"
proof (cases "timer_shortcut (clint b) \<or> globally_disabled V (cpu b)")
  case True
  then show ?thesis using assms(2,3) by (auto simp: check_ints_eq [OF assms(1)] split: if_splits)
next
  case False
  with assms(3) check_ints_panics [OF assms(1,2)] obtain irq b1 where "asked ck V b = Some (irq, b1)" by force
  with False check_ints_first [OF assms(1,2), of irq b1] assms(3) show ?thesis by auto
qed

lemma asked_none: "queue_notify (virtio b) = - 1 \<Longrightarrow> asked ck V b = Some (if interrupting (uart b) then UART_IRQ else 0, b)"
  by (simp add: asked_def)

lemma check_ints_safe:
  assumes "riscv_laws V" and "board_ok ck b"
  shows "\<exists>i b'. check_ints ck V b = Some (i, b') \<and> board_ok ck b'"
proof (cases "timer_shortcut (clint b) \<or> globally_disabled V (cpu b)")
  case True
  then show ?thesis using assms(2) by (auto simp: check_ints_eq [OF assms(1)])
next
  case False
  with check_ints_first [OF assms(1) _ _ _ asked_none, of ck b] assms(2) show ?thesis by (fastforce simp: board_ok_def)
qed

section \<open>Properties\<close>


text \<open>A board whose guest enabled the UART's interrupt, and whose UART received a byte.\<close>

definition ex_board :: "(u32 \<Rightarrow> u32) board" where
  "ex_board = \<lparr>cpu = (\<lambda>_. 0)(0x300 := 8, 0x304 := 2 ^ 9), clint = clint_new, plic = both_enabled,
     uart = (uart_new [] False)\<lparr>interrupting := True\<rparr>, virtio = virtio_new\<rparr>"

lemma ex_board_state:
  "\<not> timer_shortcut (clint ex_board)" "\<not> globally_disabled plain_cpu (cpu ex_board)"
  "queue_notify (virtio ex_board) = - 1" "plic_reach ck (plic ex_board)" "interrupting (uart ex_board)"
  using both_enabled_reach
  by (simp_all add: ex_board_def timer_shortcut_def clint_new_def globally_disabled_def plain_cpu_def plain_csrs_def virtio_new_def)



text \<open>
  The timer interrupt needs nothing but the last words stored to the CLINT: it is taken
  whenever the low word of \<open>mtime\<close> has reached that of \<open>mtimecmp\<close> and bit 3 of \<open>msip\<close> is set,
  whatever the privilege mode and the enable bits say, the board stays as it is, so that it is taken
  again at the next check.
\<close>

theorem timer_interrupt_condition:
  assumes "riscv_laws V" and "clint b = clint_stores ss clint_new"
    and "last_store R_mtimecmp 0 ss \<le> last_store R_mtime 0 ss" and "bit (last_store R_msip 0 ss) 3"
  shows "check_ints ck V b = Some (Some MachineTimerInterrupt, b)"
proof -
  have "clint_get r (clint b) = ucast (last_store r 0 ss)" for r
    using clint_stores_last [of clint_new "\<lambda>_. 0" r ss] assms(2) clint_new_get by simp
  from this [of R_mtimecmp] this [of R_mtime] this [of R_msip] assms(3,4)
  have "timer_shortcut (clint b)" by (simp add: timer_shortcut_def bit_ucast_iff)
  then show ?thesis by (simp add: check_ints_eq [OF assms(1)])
qed

theorem timer_interrupt_condition_witness:
  "check_ints True plain_cpu (ex_board\<lparr>clint := clint_stores [(0, 8, Word)] clint_new, cpu := \<lambda>_. 0\<rparr>)
    = Some (Some MachineTimerInterrupt, ex_board\<lparr>clint := clint_stores [(0, 8, Word)] clint_new, cpu := \<lambda>_. 0\<rparr>)"
  by (rule timer_interrupt_condition [OF plain_cpu_laws, where ss = "[(0, 8, Word)]"])
    (simp_all add: clint_decode_def word_less_nat_alt word_le_nat_alt)

text \<open>
  C39. The UART's interrupt is never withdrawn: once the reader thread has delivered a byte, no load,
  store or step of the reader clears the flag, so from then on every check makes the supervisor's
  external interrupt pending again, even when the guest has read every byte.
\<close>

theorem uart_interrupt_stays:
  assumes "(uart_any ck)\<^sup>*\<^sup>* (deliver u) (uart b)" and "csr_laws F"
  shows "is_interrupting (uart b) \<and> bit (pending_after F (if interrupting (uart b) then UART_IRQ else 0) b) 9"
proof -
  have "interrupting (deliver u)" by (simp add: deliver_def Let_def)
  with assms(1) have i: "interrupting (uart b)"
    by (induction rule: rtranclp_induct) (auto dest: uart_any_interrupting)
  have "bit (csr_read F (cpu b) (MIP F) OR SEIP_BIT F) 9"
    unfolding csr_bits(5) [OF assms(2)] by (subst bit_OR_exp) simp_all
  with i show ?thesis by (simp add: is_interrupting_def pending_after_def UART_IRQ_def)
qed

theorem uart_interrupt_stays_witness:
  "is_interrupting (received (deliver (uart_new [65] False)))"
proof -
  let ?u = "deliver (uart_new [65] False)"
  have "uart_inv ?u" using deliver_inv(1) [of "uart_new [65] False\<lparr>reader := Checking\<rparr>"] uart_inv_new [of "[65]" False]
    by (simp add: deliver_def uart_inv_def uart_new_def Let_def uart_map)
  then have "uart_load True ?u 0 Byte = Ok (ucast (umem ?u ! 0), received ?u)" by (intro load_receive) (simp add: uart_inv_def)
  then have "uart_any True ?u (received ?u)" by (rule by_load)
  from uart_interrupt_stays [of True "uart_new [65] False" "ex_board\<lparr>uart := received ?u\<rparr>", OF _ plain_csrs_laws] this
  show ?thesis by auto
qed

text \<open>
  The loop of the emulator runs: from a state without disk request, with a guest and trap entry
  that make none, no number of rounds panics, and the state stays one of these.
\<close>

theorem emulator_rounds_safe:
  assumes "riscv_laws V" and "board_ok ck b"
    and "\<And>b b'. board_ok ck b \<Longrightarrow> step b = Some b' \<Longrightarrow> board_ok ck b'"
    and "\<And>i b. board_ok ck b \<Longrightarrow> board_ok ck (take_trap i b)"
  shows "\<exists>r. emulator_rounds n ck V step take_trap b = Some r \<and> (\<forall>b'. r = Some b' \<longrightarrow> board_ok ck b')"
  using assms(2)
proof (induction n arbitrary: b)
  case (Suc n)
  show ?case
  proof (cases "step b")
    case None
    then show ?thesis by (simp add: emulator_round_def)
  next
    case (Some b1)
    with assms(3) Suc.prems have b1: "board_ok ck b1" by blast
    then obtain i b2 where c: "check_ints ck V b1 = Some (i, b2)" "board_ok ck b2"
      using check_ints_safe [OF assms(1)] by blast
    let ?b3 = "case i of Some i \<Rightarrow> take_trap i b2 | None \<Rightarrow> b2"
    have "board_ok ck ?b3" using c(2) assms(4) by (cases i) simp_all
    from Suc.IH [OF this] Some c(1) show ?thesis by (simp add: emulator_round_def)
  qed
qed simp

theorem emulator_rounds_safe_witness:
  "\<exists>r. emulator_rounds 3 True plain_cpu Some (\<lambda>_ b. b) ex_board = Some r"
  using emulator_rounds_safe [OF plain_cpu_laws, of True ex_board Some "\<lambda>_ b. b" 3] ex_board_state(3,4)
  by (auto simp: board_ok_def)

end
