(* ===== verification/FrontEnd.thy ===== *)
theory FrontEnd
  imports Board
begin

text \<open>
  The rest of the front end (\<open>src/main.rs\<close>, \<open>src/cmd.rs\<close>): loading the program and the disk, the step mode
  with its commands, the loop without it, and the end of the program. The standard input and output
  are those of the UART: both threads read the same bytes, so the front end is a step relation in which
  its main thread and the reader thread of the UART take turns.

  Parameters are the CPU (crate \<open>riscv_vm\<close>), the file system and the generator of completions. A string is
  the list of its code points.
\<close>

section \<open>Strings\<close>

type_synonym str = "nat list"

definition codes :: "string \<Rightarrow> str" where
  "codes s = map of_char s"

text \<open>\<open>char::is_whitespace\<close>: the code points with the property \<open>White_Space\<close>.\<close>

definition is_whitespace :: "nat \<Rightarrow> bool" where
  "is_whitespace c \<longleftrightarrow> (9 \<le> c \<and> c \<le> 13) \<or> c \<in> {32, 0x85, 0xA0, 0x1680, 0x2028, 0x2029, 0x202F, 0x205F, 0x3000}
     \<or> (0x2000 \<le> c \<and> c \<le> 0x200A)"

definition trim :: "str \<Rightarrow> str" where
  "trim s = rev (dropWhile is_whitespace (rev (dropWhile is_whitespace s)))"

function split_whitespace :: "str \<Rightarrow> str list" where
  "split_whitespace s = (let s = dropWhile is_whitespace s in
     if s = [] then [] else takeWhile (\<lambda>c. \<not> is_whitespace c) s # split_whitespace (dropWhile (\<lambda>c. \<not> is_whitespace c) s))"
  by pat_completeness auto
termination
proof (relation "measure length")
  fix s x :: str
  assume x: "x = dropWhile is_whitespace s" "x \<noteq> []"
  then have "\<not> is_whitespace (hd x)" by (metis hd_dropWhile)
  with x(2) have "length (dropWhile (\<lambda>c. \<not> is_whitespace c) x) < length x"
    by (cases x) (auto intro: le_imp_less_Suc length_dropWhile_le)
  with length_dropWhile_le [of is_whitespace s] x(1)
  show "(dropWhile (\<lambda>c. \<not> is_whitespace c) x, s) \<in> measure length" by simp
qed simp

declare split_whitespace.simps [simp del]

definition starts_with :: "str \<Rightarrow> str \<Rightarrow> bool" where
  "starts_with s p \<longleftrightarrow> take (length p) s = p"

text \<open>\<open>u32::from_str_radix(s, 16)\<close>; \<open>None\<close> is an error.\<close>

definition to_digit :: "nat \<Rightarrow> nat option" where
  "to_digit c = (if 48 \<le> c \<and> c \<le> 57 then Some (c - 48) else if 97 \<le> c \<and> c \<le> 102 then Some (c - 87)
     else if 65 \<le> c \<and> c \<le> 70 then Some (c - 55) else None)"

fun from_digits :: "u32 \<Rightarrow> str \<Rightarrow> u32 option" where
  "from_digits acc [] = Some acc"
| "from_digits acc (c # cs) = do {
     d \<leftarrow> to_digit c;
     acc \<leftarrow> (if unat acc * 16 < 2 ^ 32 then Some (acc * 16) else None);
     acc \<leftarrow> (if unat acc + d < 2 ^ 32 then Some (acc + of_nat d) else None);
     from_digits acc cs
   }"

definition from_str_radix_16 :: "str \<Rightarrow> u32 option" where
  "from_str_radix_16 s = (case s of [] \<Rightarrow> None
     | c # cs \<Rightarrow> if (c = 43 \<or> c = 45) \<and> cs = [] then None
         else if c = 43 then from_digits 0 cs else from_digits 0 s)"

text \<open>\<open>{:#X}\<close> of a \<open>u32\<close>: \<open>0x\<close> and the hexadecimal numeral in upper case.\<close>

definition hex_digit :: "nat \<Rightarrow> byte" where
  "hex_digit d = (if d < 10 then of_nat (48 + d) else of_nat (55 + d))"

fun hex_digits :: "nat \<Rightarrow> byte list" where
  "hex_digits n = (if n < 16 then [] else hex_digits (n div 16)) @ [hex_digit (n mod 16)]"

declare hex_digits.simps [simp del]

definition upper_hex :: "u32 \<Rightarrow> byte list" where
  "upper_hex w = [48, 120] @ hex_digits (unat w)"

text \<open>The bytes of an ASCII text.\<close>

definition chars :: "string \<Rightarrow> byte list" where
  "chars s = map of_char s"

section \<open>Reading lines\<close>

text \<open>\<open>String\<close> is valid UTF-8: the decoding, as \<open>std\<close> checks it.\<close>

definition continuation :: "byte \<Rightarrow> bool" where
  "continuation b \<longleftrightarrow> 0x80 \<le> b \<and> b \<le> 0xBF"

fun from_utf8 :: "byte list \<Rightarrow> str option" where
  "from_utf8 [] = Some []"
| "from_utf8 (a # xs) =
     (if a < 0x80 then map_option (Cons (unat a)) (from_utf8 xs)
      else if 0xC2 \<le> a \<and> a \<le> 0xDF then
        (case xs of b # xs \<Rightarrow>
           if continuation b
           then map_option (Cons ((unat a - 0xC0) * 64 + (unat b - 0x80))) (from_utf8 xs) else None
         | _ \<Rightarrow> None)
      else if 0xE0 \<le> a \<and> a \<le> 0xEF then
        (case xs of b # c # xs \<Rightarrow>
           if continuation b \<and> continuation c \<and> (a = 0xE0 \<longrightarrow> 0xA0 \<le> b) \<and> (a = 0xED \<longrightarrow> b < 0xA0)
           then map_option (Cons ((unat a - 0xE0) * 4096 + (unat b - 0x80) * 64 + (unat c - 0x80))) (from_utf8 xs) else None
         | _ \<Rightarrow> None)
      else if 0xF0 \<le> a \<and> a \<le> 0xF4 then
        (case xs of b # c # d # xs \<Rightarrow>
           if continuation b \<and> continuation c \<and> continuation d \<and> (a = 0xF0 \<longrightarrow> 0x90 \<le> b) \<and> (a = 0xF4 \<longrightarrow> b < 0x90)
           then map_option (Cons ((unat a - 0xF0) * 262144 + (unat b - 0x80) * 4096 + (unat c - 0x80) * 64 + (unat d - 0x80)))
             (from_utf8 xs) else None
         | _ \<Rightarrow> None)
      else None)"

text \<open>\<open>stdin().read_line\<close>: the line with its end and what is left; it blocks until there is one.\<close>

definition line_ready :: "uart \<Rightarrow> bool" where
  "line_ready u \<longleftrightarrow> 10 \<in> set (stdin u) \<or> closed u"

definition read_line :: "uart \<Rightarrow> byte list \<times> uart" where
  "read_line u = (let l = takeWhile (\<lambda>c. c \<noteq> 10) (stdin u);
                      r = dropWhile (\<lambda>c. c \<noteq> 10) (stdin u)
     in (l @ take 1 r, u\<lparr>stdin := drop 1 r\<rparr>))"

section \<open>The front end\<close>

text \<open>
  The CPU with its devices. A step and a read may panic, in a device, and a failed step leaves a state
  behind, too; \<open>access_fault\<close> is \<open>Exception::InstructionAccessFault\<close>. The texts are what
  \<open>dump_registers\<close> and \<open>dump_csr\<close> print.
\<close>

record ('c, 'e) emulator =
  vm :: "('c, 'e) riscv"
  step :: "'c board \<Rightarrow> (('e + unit) \<times> 'c board) option"
  take_trap :: "interrupt \<Rightarrow> 'c board \<Rightarrow> 'c board"
  read_word :: "'c board \<Rightarrow> u32 \<Rightarrow> ('e + u32 \<times> 'c board) option"
  get_pc :: "'c \<Rightarrow> u32"
  access_fault :: 'e
  registers_text :: "'c \<Rightarrow> byte list"
  csr_text :: "'c \<Rightarrow> byte list"
  new_cpu :: 'c
  set_register :: "'c \<Rightarrow> nat \<Rightarrow> u32 \<Rightarrow> 'c"
  DRAM_BASE :: u32
  DRAM_SIZE :: u32
  load_dram :: "'c \<Rightarrow> byte list \<Rightarrow> 'c option"

text \<open>What is logged, and where the main thread is.\<close>

datatype 'e log_item = Dram_bytes nat | Disk_bytes nat | Continuing u32 | Failed u32 'e

datatype main_pc = At_step | At_prompt | At_con u32 | At_run | At_check | Leaving | Finished | Panicked

record ('c, 'e) front_end =
  here :: main_pc
  sys :: "'c board"
  logged :: "'e log_item list"

definition print_bytes :: "byte list \<Rightarrow> 'c board \<Rightarrow> 'c board" where
  "print_bytes t b = b\<lparr>uart := (uart b)\<lparr>stdout := stdout (uart b) @ t\<rparr>\<rparr>"

definition dump :: "('c, 'e) emulator \<Rightarrow> 'c board \<Rightarrow> 'c board" where
  "dump F b = print_bytes (registers_text F (cpu b) @ csr_text F (cpu b)) b"

definition prompt :: "byte list" where
  "prompt = chars ''Press enter to continue or type 'exit' to stop the emulator'' @ [10] @ chars ''> ''"

section \<open>Commands\<close>

datatype command = C_exit | C_dump | C_show u32 | C_con u32 | C_step

text \<open>The second word of the input, as an address; both calls of \<open>unwrap\<close> panic.\<close>

definition address_word :: "str \<Rightarrow> u32 option" where
  "address_word input = (case split_whitespace input of _ # a # _ \<Rightarrow> from_str_radix_16 a | _ \<Rightarrow> panic)"

definition command_of :: "str \<Rightarrow> command option" where
  "command_of input =
     (if trim input = codes ''exit'' then Some C_exit
      else if trim input = codes ''dump'' then Some C_dump
      else if starts_with input (codes ''show'') then map_option C_show (address_word input)
      else if starts_with input (codes ''con'') then map_option C_con (address_word input)
      else Some C_step)"

definition show_text :: "u32 \<Rightarrow> u32 \<Rightarrow> byte list" where
  "show_text a v = chars ''Value at '' @ upper_hex a @ chars '' is '' @ upper_hex v @ [10]"

definition run_command :: "('c, 'e) emulator \<Rightarrow> command \<Rightarrow> ('c, 'e) front_end \<Rightarrow> ('c, 'e) front_end" where
  "run_command F c s = (case c of
       C_exit \<Rightarrow> s\<lparr>here := Leaving\<rparr>
     | C_dump \<Rightarrow> s\<lparr>here := At_step, sys := dump F (sys s)\<rparr>
     | C_show a \<Rightarrow> (case read_word F (sys s) a of
           Some (Inr (v, b)) \<Rightarrow> s\<lparr>here := At_step, sys := print_bytes (show_text a v) b\<rparr>
         | _ \<Rightarrow> s\<lparr>here := Panicked\<rparr>)
     | C_con a \<Rightarrow> s\<lparr>here := At_con a, logged := logged s @ [Continuing a]\<rparr>
     | C_step \<Rightarrow> s\<lparr>here := At_step\<rparr>)"

section \<open>The main thread\<close>

definition step_round :: "('c, 'e) emulator \<Rightarrow> ('c, 'e) front_end \<Rightarrow> ('c, 'e) front_end" where
  "step_round F s = (case step F (dump F (sys s)) of
       None \<Rightarrow> s\<lparr>here := Panicked\<rparr>
     | Some (Inl e, b) \<Rightarrow>
         if e = access_fault F then s\<lparr>here := At_prompt, sys := print_bytes prompt b\<rparr>
         else s\<lparr>here := Leaving, sys := b, logged := logged s @ [Failed (get_pc F (cpu b) - 4) e]\<rparr>
     | Some (Inr _, b) \<Rightarrow> s\<lparr>here := At_prompt, sys := print_bytes prompt b\<rparr>)"

definition read_command :: "('c, 'e) emulator \<Rightarrow> ('c, 'e) front_end \<Rightarrow> ('c, 'e) front_end" where
  "read_command F s =
     (let (l, u) = read_line (uart (sys s)); s = s\<lparr>sys := (sys s)\<lparr>uart := u\<rparr>\<rparr> in
      case Option.bind (from_utf8 l) command_of of
        None \<Rightarrow> s\<lparr>here := Panicked\<rparr>
      | Some c \<Rightarrow> run_command F c s)"

definition con_round :: "('c, 'e) emulator \<Rightarrow> u32 \<Rightarrow> ('c, 'e) front_end \<Rightarrow> ('c, 'e) front_end" where
  "con_round F a s =
     (if get_pc F (cpu (sys s)) = a then s\<lparr>here := At_step\<rparr>
      else case step F (sys s) of
        Some (Inr _, b) \<Rightarrow> s\<lparr>sys := b\<rparr>
      | _ \<Rightarrow> s\<lparr>here := Panicked\<rparr>)"

definition run_step :: "('c, 'e) emulator \<Rightarrow> ('c, 'e) front_end \<Rightarrow> ('c, 'e) front_end" where
  "run_step F s = (case step F (sys s) of
       None \<Rightarrow> s\<lparr>here := Panicked\<rparr>
     | Some (Inl _, b) \<Rightarrow> s\<lparr>here := Leaving, sys := b\<rparr>
     | Some (Inr _, b) \<Rightarrow> s\<lparr>here := At_check, sys := b\<rparr>)"

definition run_check :: "bool \<Rightarrow> ('c, 'e) emulator \<Rightarrow> ('c, 'e) front_end \<Rightarrow> ('c, 'e) front_end" where
  "run_check checked F s = (case check_ints checked (vm F) (sys s) of
       None \<Rightarrow> s\<lparr>here := Panicked\<rparr>
     | Some (i, b) \<Rightarrow> s\<lparr>here := At_run, sys := (case i of Some i \<Rightarrow> take_trap F i b | None \<Rightarrow> b)\<rparr>)"

definition leave :: "('c, 'e) emulator \<Rightarrow> ('c, 'e) front_end \<Rightarrow> ('c, 'e) front_end" where
  "leave F s = s\<lparr>here := Finished,
     sys := print_bytes (registers_text F (cpu (sys s)) @ chars ''Emulator has stopped'' @ [10]) (sys s)\<rparr>"

text \<open>One step of the main thread; \<open>None\<close> when it is waiting for input or has ended.\<close>

definition main_step :: "bool \<Rightarrow> ('c, 'e) emulator \<Rightarrow> ('c, 'e) front_end \<Rightarrow> ('c, 'e) front_end option" where
  "main_step checked F s = (case here s of
       At_step \<Rightarrow> Some (step_round F s)
     | At_prompt \<Rightarrow> if line_ready (uart (sys s)) then Some (read_command F s) else None
     | At_con a \<Rightarrow> Some (con_round F a s)
     | At_run \<Rightarrow> Some (run_step F s)
     | At_check \<Rightarrow> Some (run_check checked F s)
     | Leaving \<Rightarrow> Some (leave F s)
     | Finished \<Rightarrow> None
     | Panicked \<Rightarrow> None)"

text \<open>
  Both threads. Which of them gets the next bytes of the input depends on who holds its lock; the relation
  allows both at any time, and the reader ends with the process.
\<close>

inductive emulator_step :: "bool \<Rightarrow> ('c, 'e) emulator \<Rightarrow> ('c, 'e) front_end \<Rightarrow> ('c, 'e) front_end \<Rightarrow> bool" for ck F where
  main: "main_step ck F s = Some s' \<Longrightarrow> emulator_step ck F s s'"
| reader: "reader_step (uart (sys s)) u \<Longrightarrow> here s \<notin> {Finished, Panicked}
    \<Longrightarrow> emulator_step ck F s (s\<lparr>sys := (sys s)\<lparr>uart := u\<rparr>\<rparr>)"

abbreviation emulator_steps :: "bool \<Rightarrow> ('c, 'e) emulator \<Rightarrow> ('c, 'e) front_end \<Rightarrow> ('c, 'e) front_end \<Rightarrow> bool" where
  "emulator_steps ck F \<equiv> (emulator_step ck F)\<^sup>*\<^sup>*"

section \<open>Starting\<close>

text \<open>The files: \<open>None\<close> when a file cannot be opened or read, which panics.\<close>

type_synonym files = "string \<Rightarrow> byte list option"




text \<open>The generator writes to the file, which \<open>create\<close> may fail to create, or to the standard output.\<close>

datatype shell = Bash | Zsh | Fish | PowerShell


record world =
  fs :: files
  create :: "string \<Rightarrow> bool"
  SHELL :: "string option"
  input :: "byte list"
  eof :: bool
  completions :: "shell \<Rightarrow> byte list"


section \<open>Addresses\<close>

text \<open>The numerals \<open>from_str_radix\<close> accepts, and their value.\<close>

fun hex_value :: "nat \<Rightarrow> str \<Rightarrow> nat" where
  "hex_value v [] = v"
| "hex_value v (c # cs) = hex_value (16 * v + the (to_digit c)) cs"

definition hex_numeral :: "str \<Rightarrow> u32 \<Rightarrow> bool" where
  "hex_numeral w a \<longleftrightarrow> (\<exists>ds. (w = ds \<or> w = 43 # ds) \<and> ds \<noteq> [] \<and> (\<forall>c \<in> set ds. to_digit c \<noteq> None)
     \<and> unat a = hex_value 0 ds)"

lemma hex_value_le: "v \<le> hex_value v ds"
proof (induction ds arbitrary: v)
  case (Cons c ds)
  from Cons.IH [of "16 * v + the (to_digit c)"] show ?case by simp
qed simp

lemma from_digits_iff:
  "from_digits acc ds = Some a \<longleftrightarrow> (\<forall>c \<in> set ds. to_digit c \<noteq> None) \<and> unat a = hex_value (unat acc) ds"
proof (induction ds arbitrary: acc)
  case Nil
  then show ?case by (auto simp: word_unat_eq_iff)
next
  case (Cons c ds)
  show ?case
  proof (cases "to_digit c")
    case (Some d)
    show ?thesis
    proof (cases "unat acc * 16 + d < 2 ^ 32")
      case True
      then have "unat (acc * 16) = unat acc * 16" by (simp add: unat_mult_lem [THEN iffD1])
      moreover from this True have "unat (acc * 16 + of_nat d) = 16 * unat acc + d"
        by (simp add: unat_plus_if' unat_of_nat32)
      ultimately show ?thesis using True Some Cons.IH by simp
    next
      case False
      have "hex_value (16 * unat acc + d) ds \<noteq> unat a"
        using hex_value_le [of "16 * unat acc + d" ds] False unat_u32_bound [of a] by simp
      moreover have "from_digits acc (c # ds) = None"
      proof (cases "unat acc * 16 < 2 ^ 32")
        case True
        then have "unat (acc * 16) = unat acc * 16" by (simp add: unat_mult_lem [THEN iffD1])
        with False Some True show ?thesis by simp
      qed (use Some in simp)
      ultimately show ?thesis using Some by auto
    qed
  qed simp
qed

lemma from_str_radix_iff: "from_str_radix_16 w = Some a \<longleftrightarrow> hex_numeral w a"
proof (cases w)
  case (Cons c cs)
  have no: "to_digit 43 = None" "to_digit 45 = None" by (simp_all add: to_digit_def)
  show ?thesis
  proof (cases "c = 43")
    case True
    with Cons no show ?thesis
      by (auto simp: from_str_radix_16_def hex_numeral_def from_digits_iff)
  next
    case False
    with Cons no show ?thesis
      by (auto simp: from_str_radix_16_def hex_numeral_def from_digits_iff simp del: from_digits.simps hex_value.simps)
  qed
qed (simp add: from_str_radix_16_def hex_numeral_def)

text \<open>The numerals the emulator prints.\<close>

lemma hex_value_append: "hex_value v (xs @ ys) = hex_value (hex_value v xs) ys"
  by (induction xs arbitrary: v) simp_all

lemma hex_digit_unat: "d < 16 \<Longrightarrow> unat (hex_digit d) = (if d < 10 then 48 + d else 55 + d)"
  by (auto simp: hex_digit_def unat_of_nat take_bit_nat_eq_self simp del: of_nat_add of_nat_numeral)

lemma to_digit_hex: "d < 16 \<Longrightarrow> to_digit (unat (hex_digit d)) = Some d"
  by (simp add: hex_digit_unat to_digit_def)

lemma hex_digits_set: "c \<in> set (hex_digits n) \<Longrightarrow> \<exists>d < 16. c = hex_digit d"
proof (induction n rule: hex_digits.induct)
  case (1 n)
  have "\<exists>d < 16. hex_digit (n mod 16) = hex_digit d" by (intro exI [of _ "n mod 16"]) simp
  moreover have "hex_digits n = (if n < 16 then [] else hex_digits (n div 16)) @ [hex_digit (n mod 16)]"
    by (rule hex_digits.simps)
  ultimately show ?case using 1 by (auto split: if_splits)
qed

lemma hex_digits_value: "hex_value 0 (map unat (hex_digits n)) = n"
proof (induction n rule: hex_digits.induct)
  case (1 n)
  show ?case
    by (subst hex_digits.simps) (simp add: 1 hex_value_append to_digit_hex)
qed

lemma hex_digits_nonempty: "hex_digits n \<noteq> []"
  by (subst hex_digits.simps) simp

lemma hex_digits_numeral: "hex_numeral (map unat (hex_digits (unat a))) a"
  unfolding hex_numeral_def
  using hex_digits_set [of _ "unat a"] hex_digits_value [of "unat a"] hex_digits_nonempty [of "unat a"] to_digit_hex
  by (intro exI [of _ "map unat (hex_digits (unat a))"]) force

lemma hex_digits_solid: "\<forall>c \<in> set (map unat (hex_digits n)). \<not> is_whitespace c"
proof
  fix c assume "c \<in> set (map unat (hex_digits n))"
  then obtain d where "d < 16" "c = unat (hex_digit d)" using hex_digits_set [of _ n] by auto
  then show "\<not> is_whitespace c" by (simp add: hex_digit_unat is_whitespace_def)
qed

text \<open>A line of two words.\<close>

definition solid :: "str \<Rightarrow> bool" where
  "solid w \<longleftrightarrow> w \<noteq> [] \<and> (\<forall>c \<in> set w. \<not> is_whitespace c)"

lemma whitespace_codes: "is_whitespace 32" "is_whitespace 10"
  by (simp_all add: is_whitespace_def)

lemma dropWhile_solid: "solid w \<Longrightarrow> dropWhile is_whitespace (w @ xs) = w @ xs"
  by (cases w) (simp_all add: solid_def)

lemma split_solid:
  assumes "solid w" and "is_whitespace c"
  shows "split_whitespace (w @ c # xs) = w # split_whitespace xs"
proof -
  have "takeWhile (\<lambda>c. \<not> is_whitespace c) (w @ c # xs) = w" "dropWhile (\<lambda>c. \<not> is_whitespace c) (w @ c # xs) = c # xs"
    using assms by (auto simp: solid_def takeWhile_append2 dropWhile_append2)
  moreover have "split_whitespace (c # xs) = split_whitespace xs"
    using assms(2) by (subst (1 2) split_whitespace.simps) simp
  moreover have "w @ c # xs \<noteq> []" by simp
  ultimately show ?thesis
    by (subst split_whitespace.simps) (simp only: dropWhile_solid [OF assms(1)] Let_def if_False)
qed

lemma two_words:
  assumes "solid w" and "solid v"
  shows "split_whitespace (w @ 32 # v @ [10]) = [w, v]" "trim (w @ 32 # v @ [10]) = w @ 32 # v"
proof -
  have "split_whitespace [] = []" by (subst split_whitespace.simps) simp
  then show "split_whitespace (w @ 32 # v @ [10]) = [w, v]"
    using split_solid [OF assms(1), of 32 "v @ [10]"] split_solid [OF assms(2), of 10 "[]"] whitespace_codes by simp
  have "solid (rev v)" using assms(2) by (simp add: solid_def)
  then have "dropWhile is_whitespace (rev v @ 32 # rev w) = rev v @ 32 # rev w" by (rule dropWhile_solid)
  then show "trim (w @ 32 # v @ [10]) = w @ 32 # v"
    using dropWhile_solid [OF assms(1), of "32 # v @ [10]"] whitespace_codes by (simp add: trim_def)
qed

lemma command_codes:
  "codes ''exit'' = [101, 120, 105, 116]" "codes ''dump'' = [100, 117, 109, 112]"
  "codes ''show'' = [115, 104, 111, 119]" "codes ''con'' = [99, 111, 110]" "codes ''0x'' = [48, 120]"
  by (simp_all add: codes_def)

lemma command_solid: "solid (codes ''show'')" "solid (codes ''con'')"
  by (simp_all add: command_codes solid_def is_whitespace_def)

lemma command_two_words:
  assumes "solid v"
  shows "command_of (codes ''show'' @ 32 # v @ [10]) = map_option C_show (from_str_radix_16 v)"
    "command_of (codes ''con'' @ 32 # v @ [10]) = map_option C_con (from_str_radix_16 v)"
  using two_words [OF command_solid(1) assms] two_words [OF command_solid(2) assms]
  by (simp_all add: command_of_def address_word_def starts_with_def command_codes)

lemma prefixed_no_numeral: "from_str_radix_16 (codes ''0x'' @ v) = None"
proof -
  have "to_digit 120 = None" "to_digit 48 = Some 0" by (simp_all add: to_digit_def)
  then show ?thesis by (simp add: from_str_radix_16_def command_codes)
qed

text \<open>The bytes of a line in ASCII are its code points.\<close>

lemma from_utf8_ascii: "\<forall>c \<in> set l. c < 0x80 \<Longrightarrow> from_utf8 l = Some (map unat l)"
  by (induction l) simp_all

lemma hex_digits_ascii: "c \<in> set (hex_digits n) \<Longrightarrow> c < 0x80 \<and> c \<noteq> 10"
proof -
  assume "c \<in> set (hex_digits n)"
  then obtain d where "d < 16" "c = hex_digit d" using hex_digits_set by blast
  then show ?thesis using hex_digit_unat [of d] by (auto simp: word_less_nat_alt word_unat_eq_iff)
qed

lemma printed_lines:
  "Option.bind (from_utf8 (chars ''con '' @ hex_digits (unat a) @ [10])) command_of = Some (C_con a)"
  "Option.bind (from_utf8 (chars ''show '' @ hex_digits (unat a) @ [10])) command_of = Some (C_show a)"
  "Option.bind (from_utf8 (chars ''con 0x'' @ hex_digits (unat a) @ [10])) command_of = None"
  "Option.bind (from_utf8 (chars ''show 0x'' @ hex_digits (unat a) @ [10])) command_of = None"
proof -
  let ?h = "map unat (hex_digits (unat a))"
  have h: "solid ?h" using hex_digits_solid hex_digits_nonempty by (simp add: solid_def)
  then have x: "solid (codes ''0x'' @ ?h)" by (auto simp: solid_def command_codes is_whitespace_def)
  have n: "from_str_radix_16 ?h = Some a" using hex_digits_numeral by (simp add: from_str_radix_iff)
  have n': "from_str_radix_16 (codes ''0x'' @ ?h) = None" by (rule prefixed_no_numeral)
  have f: "Option.bind (from_utf8 (chars c @ hex_digits (unat a) @ [10])) command_of
      = command_of (map unat (chars c) @ ?h @ [10])" if "\<forall>x \<in> set (chars c). x < 0x80" for c
    using that hex_digits_ascii by (subst from_utf8_ascii) auto
  have as: "\<forall>x \<in> set (chars ''con ''). x < 0x80" "\<forall>x \<in> set (chars ''show ''). x < 0x80"
    "\<forall>x \<in> set (chars ''con 0x''). x < 0x80" "\<forall>x \<in> set (chars ''show 0x''). x < 0x80"
    by (simp_all add: chars_def)
  have c: "map unat (chars ''con '') @ v = codes ''con'' @ 32 # v" "map unat (chars ''show '') @ v = codes ''show'' @ 32 # v"
    "map unat (chars ''con 0x'') @ v @ [10] = codes ''con'' @ 32 # (codes ''0x'' @ v) @ [10]"
    "map unat (chars ''show 0x'') @ v @ [10] = codes ''show'' @ 32 # (codes ''0x'' @ v) @ [10]" for v
    by (simp_all add: chars_def command_codes)
  show "Option.bind (from_utf8 (chars ''con '' @ hex_digits (unat a) @ [10])) command_of = Some (C_con a)"
    by (simp only: f [OF as(1)] c(1) command_two_words [OF h] n option.map)
  show "Option.bind (from_utf8 (chars ''show '' @ hex_digits (unat a) @ [10])) command_of = Some (C_show a)"
    by (simp only: f [OF as(2)] c(2) command_two_words [OF h] n option.map)
  show "Option.bind (from_utf8 (chars ''con 0x'' @ hex_digits (unat a) @ [10])) command_of = None"
    by (simp only: f [OF as(3)] c(3) command_two_words [OF x] n' option.map)
  show "Option.bind (from_utf8 (chars ''show 0x'' @ hex_digits (unat a) @ [10])) command_of = None"
    by (simp only: f [OF as(4)] c(4) command_two_words [OF x] n' option.map)
qed

text \<open>The lines that stop the front end.\<close>

lemma address_word_iff: "address_word t = Some a \<longleftrightarrow> (\<exists>x y r. split_whitespace t = x # y # r \<and> hex_numeral y a)"
  by (auto simp: address_word_def from_str_radix_iff split: list.splits)

lemma line_panics:
  "here (case command_of t of None \<Rightarrow> s\<lparr>here := Panicked\<rparr> | Some c \<Rightarrow> run_command F c s) = Panicked \<longleftrightarrow>
    trim t \<notin> {codes ''exit'', codes ''dump''} \<and>
      (if \<exists>a. address_word t = Some a
       then starts_with t (codes ''show'') \<and> (\<exists>a. address_word t = Some a \<and> (\<forall>v. read_word F (sys s) a \<noteq> Some (Inr v)))
       else starts_with t (codes ''show'') \<or> starts_with t (codes ''con''))"
proof -
  have "here (run_command F c s) = Panicked \<longleftrightarrow> (\<exists>a. c = C_show a \<and> (\<forall>v. read_word F (sys s) a \<noteq> Some (Inr v)))" for c
    by (auto simp: run_command_def split: command.splits option.splits sum.splits)
  then show ?thesis by (auto simp: command_of_def map_option_case split: option.splits)
qed

section \<open>Runs\<close>

lemma emulator_steps_invariant [consumes 2, case_names main reader]:
  assumes "emulator_steps ck F s s'" and "I s"
    and "\<And>s s'. I s \<Longrightarrow> main_step ck F s = Some s' \<Longrightarrow> I s'"
    and "\<And>s u. I s \<Longrightarrow> reader_step (uart (sys s)) u \<Longrightarrow> I (s\<lparr>sys := (sys s)\<lparr>uart := u\<rparr>\<rparr>)"
  shows "I s'"
  using assms(1,2) by (induction rule: rtranclp_induct) (auto elim!: emulator_step.cases intro: assms(3,4))

lemma print_bytes_simps [simp]:
  "cpu (print_bytes t b) = cpu b" "clint (print_bytes t b) = clint b" "plic (print_bytes t b) = plic b" "virtio (print_bytes t b) = virtio b"
  "stdin (uart (print_bytes t b)) = stdin (uart b)" "closed (uart (print_bytes t b)) = closed (uart b)"
  "reader (uart (print_bytes t b)) = reader (uart b)" "held (uart (print_bytes t b)) = held (uart b)"
  by (simp_all add: print_bytes_def)

lemma dump_simps [simp]:
  "stdin (uart (dump F b)) = stdin (uart b)" "closed (uart (dump F b)) = closed (uart b)"
  by (simp_all add: dump_def)

lemma board_ok_simps [simp]:
  "board_ok ck (print_bytes t b) = board_ok ck b" "board_ok ck (b\<lparr>uart := u\<rparr>) = board_ok ck b"
  by (simp_all add: board_ok_def)

text \<open>The two steps of a round without step mode are a round of \<open>Board\<close>.\<close>

lemma run_round:
  assumes "step F b = Some (r, b1)" and "here s = At_run" and "sys s = b"
  shows "emulator_round ck (vm F) (\<lambda>b. case step F b of Some (Inr _, b) \<Rightarrow> Some b | _ \<Rightarrow> None) (take_trap F) b
    = (let s = run_step F s in if here s = Leaving then Some None
       else let s = run_check ck F s in if here s = Panicked then None else Some (Some (sys s)))"
  using assms
  by (cases r; cases "check_ints ck (vm F) b1") (auto simp: emulator_round_def run_step_def run_check_def split_def Let_def)






text \<open>
  The stack pointer of a fresh CPU is the last byte of the RAM, so it is not even aligned to a
  word when the RAM is.
\<close>

lemma stack_pointer_misaligned:
  assumes "unat (t :: u32) mod 4 = 0" and "t \<noteq> 0"
  shows "unat (t - 1) mod 4 = 3"
proof -
  have t: "unat (t - 1) = unat t - 1" using assms(2) by (rule unat_minus_one)
  have "unat t \<noteq> 0" using assms(2) by (simp only: unat_eq_zero not_False_eq_True)
  with assms(1) obtain k where "unat t = 4 * Suc k" by (metis mod_0_imp_dvd dvdE mult_0_right not0_implies_Suc)
  then have "unat (t - 1) = 3 + k * 4" using t by simp
  then show ?thesis by (simp only: mod_mult_self1) simp
qed

text \<open>Following \<open>con\<close>.\<close>

lemma con_steps:
  assumes "here s = At_con a" and "sys s = b 0"
    and "\<forall>i < n. get_pc F (cpu (b i)) \<noteq> a \<and> step F (b i) = Some (Inr (), b (Suc i))"
  shows "((\<lambda>s s'. main_step ck F s = Some s') ^^ n) s (s\<lparr>sys := b n\<rparr>)"
  using assms(3)
proof (induction n)
  case 0
  then show ?case by (simp flip: assms(2))
next
  case (Suc n)
  have "main_step ck F (s\<lparr>sys := b n\<rparr>) = Some (s\<lparr>sys := b (Suc n)\<rparr>)"
    using Suc.prems assms(1) by (simp add: main_step_def con_round_def)
  with Suc show ?case by auto
qed

lemma read_line_first:
  assumes "stdin u = l @ 10 # rest" and "10 \<notin> set l"
  shows "read_line u = (l @ [10], u\<lparr>stdin := rest\<rparr>)"
proof -
  have "\<forall>c \<in> set l. c \<noteq> 10" using assms(2) by auto
  then have "takeWhile (\<lambda>c. c \<noteq> 10) (stdin u) = l" "dropWhile (\<lambda>c. c \<noteq> 10) (stdin u) = 10 # rest"
    by (simp_all add: assms(1) takeWhile_append2 dropWhile_append2)
  then show ?thesis by (simp add: read_line_def)
qed

lemma exit_lines:
  "Option.bind (from_utf8 (chars ''exit'' @ [10])) command_of = Some C_exit"
  "Option.bind (from_utf8 (chars ''xit'' @ [10])) command_of = Some C_step"
  by (simp_all add: chars_def command_of_def trim_def command_codes is_whitespace_def starts_with_def)

text \<open>An emulator for examples: a CPU that only counts, with empty files and \<open>exit\<close> as its input.\<close>

definition ex_emulator :: "(u32 \<Rightarrow> u32, exception) emulator" where
  "ex_emulator = \<lparr>vm = plain_cpu, step = (\<lambda>b. Some (Inr (), b\<lparr>cpu := (cpu b)(0 := cpu b 0 + 4)\<rparr>)),
     take_trap = (\<lambda>_ b. b), read_word = (\<lambda>b _. Some (Inr (0, b))), get_pc = (\<lambda>c. c 0), access_fault = LoadAccessFault,
     registers_text = (\<lambda>_. []), csr_text = (\<lambda>_. []), new_cpu = (\<lambda>_. 0), set_register = (\<lambda>c _ _. c),
     DRAM_BASE = 0x80000000, DRAM_SIZE = 0x8000000, load_dram = (\<lambda>c _. Some c)\<rparr>"



definition ex_session :: "main_pc \<Rightarrow> byte list \<Rightarrow> (u32 \<Rightarrow> u32, exception) front_end" where
  "ex_session pc t = \<lparr>here = pc, sys = \<lparr>cpu = (\<lambda>_. 0), clint = clint_new, plic = plic_new, uart = uart_new t True,
     virtio = virtio_new\<rparr>, logged = []\<rparr>"

lemma ex_session_simps [simp]:
  "here (ex_session pc t) = pc" "stdin (uart (sys (ex_session pc t))) = t" "closed (uart (sys (ex_session pc t)))"
  "reader (uart (sys (ex_session pc t))) = Reading" "cpu (sys (ex_session pc t)) = (\<lambda>_. 0)"
  by (simp_all add: ex_session_def uart_new_def)

section \<open>Properties\<close>



text \<open>
  C28. The lines that stop the emulator at its prompt. Reading a line panics exactly when it is not UTF-8;
  or it is neither \<open>exit\<close> nor \<open>dump\<close>, starts with \<open>show\<close> or \<open>con\<close>, and has no second word that is
  a hexadecimal numeral, with an optional plus sign, of a number below \<open>2^32\<close>; or it starts with \<open>show\<close>
  and the read of its address fails. An address in the digits that \<open>show\<close> prints is accepted by
  \<open>con\<close> and \<open>show\<close> and is that address; with the \<open>0x\<close> that \<open>show\<close> prints before them the same line panics.
\<close>

theorem command_addresses:
  assumes "here s = At_prompt" and "line_ready (uart (sys s))" and "read_line (uart (sys s)) = (l, u)"
  defines "b \<equiv> (sys s)\<lparr>uart := u\<rparr>"
  shows "\<exists>s'. main_step ck F s = Some s' \<and> (here s' = Panicked \<longleftrightarrow>
       (case from_utf8 l of None \<Rightarrow> True
        | Some t \<Rightarrow> trim t \<notin> {codes ''exit'', codes ''dump''} \<and>
            (if \<exists>x y r a. split_whitespace t = x # y # r \<and> hex_numeral y a
             then starts_with t (codes ''show'') \<and> (\<exists>x y r a. split_whitespace t = x # y # r \<and> hex_numeral y a
               \<and> (\<forall>v. read_word F b a \<noteq> Some (Inr v)))
             else starts_with t (codes ''show'') \<or> starts_with t (codes ''con''))))
     \<and> (l = chars ''con '' @ hex_digits (unat a) @ [10] \<longrightarrow> s' = s\<lparr>here := At_con a, sys := b, logged := logged s @ [Continuing a]\<rparr>)
     \<and> (l = chars ''show '' @ hex_digits (unat a) @ [10] \<longrightarrow> (\<forall>v b'. read_word F b a = Some (Inr (v, b')) \<longrightarrow>
         s' = s\<lparr>here := At_step, sys := print_bytes (chars ''Value at 0x'' @ hex_digits (unat a) @ chars '' is '' @ upper_hex v @ [10]) b'\<rparr>))
     \<and> (l = chars ''con 0x'' @ hex_digits (unat a) @ [10] \<or> l = chars ''show 0x'' @ hex_digits (unat a) @ [10] \<longrightarrow> here s' = Panicked)"
proof (intro exI conjI)
  let ?s = "s\<lparr>sys := b\<rparr>"
  show "main_step ck F s = Some (read_command F s)" using assms(1,2) by (simp add: main_step_def)
  have r: "read_command F s = (case Option.bind (from_utf8 l) command_of of None \<Rightarrow> ?s\<lparr>here := Panicked\<rparr> | Some c \<Rightarrow> run_command F c ?s)"
    unfolding read_command_def assms(3) b_def by (simp add: Let_def)
  have words: "(\<exists>a. address_word t = Some a) \<longleftrightarrow> (\<exists>x y r a. split_whitespace t = x # y # r \<and> hex_numeral y a)"
    "(\<exists>a. address_word t = Some a \<and> (\<forall>v. read_word F b a \<noteq> Some (Inr v)))
      \<longleftrightarrow> (\<exists>x y r a. split_whitespace t = x # y # r \<and> hex_numeral y a \<and> (\<forall>v. read_word F b a \<noteq> Some (Inr v)))" for t
    unfolding address_word_iff by blast+
  show "here (read_command F s) = Panicked \<longleftrightarrow> (case from_utf8 l of None \<Rightarrow> True
        | Some t \<Rightarrow> trim t \<notin> {codes ''exit'', codes ''dump''} \<and>
            (if \<exists>x y r a. split_whitespace t = x # y # r \<and> hex_numeral y a
             then starts_with t (codes ''show'') \<and> (\<exists>x y r a. split_whitespace t = x # y # r \<and> hex_numeral y a
               \<and> (\<forall>v. read_word F b a \<noteq> Some (Inr v)))
             else starts_with t (codes ''show'') \<or> starts_with t (codes ''con'')))"
    unfolding r words [symmetric] using line_panics [where F = F and s = ?s] by (cases "from_utf8 l") simp_all
  show "l = chars ''con '' @ hex_digits (unat a) @ [10] \<longrightarrow>
      read_command F s = s\<lparr>here := At_con a, sys := b, logged := logged s @ [Continuing a]\<rparr>"
    unfolding r using printed_lines(1) [of a] by (auto simp: run_command_def)
  show "l = chars ''show '' @ hex_digits (unat a) @ [10] \<longrightarrow> (\<forall>v b'. read_word F b a = Some (Inr (v, b')) \<longrightarrow>
      read_command F s = s\<lparr>here := At_step, sys := print_bytes (chars ''Value at 0x'' @ hex_digits (unat a) @ chars '' is '' @ upper_hex v @ [10]) b'\<rparr>)"
    unfolding r using printed_lines(2) [of a] by (auto simp: run_command_def show_text_def upper_hex_def chars_def)
  show "l = chars ''con 0x'' @ hex_digits (unat a) @ [10] \<or> l = chars ''show 0x'' @ hex_digits (unat a) @ [10] \<longrightarrow>
      here (read_command F s) = Panicked"
    unfolding r using printed_lines(3,4) [of a] by auto
qed

theorem command_addresses_witness:
  "\<exists>s'. main_step True ex_emulator (ex_session At_prompt (chars ''con 0x'' @ hex_digits 255 @ [10])) = Some s' \<and> here s' = Panicked"
proof -
  let ?l = "chars ''con 0x'' @ hex_digits 255" and ?s = "ex_session At_prompt (chars ''con 0x'' @ hex_digits 255 @ [10])"
  have "10 \<notin> set ?l" using hex_digits_ascii [of 10 255] by (auto simp: chars_def)
  then have "read_line (uart (sys ?s)) = (?l @ [10], (uart (sys ?s))\<lparr>stdin := []\<rparr>)"
    by (intro read_line_first) simp_all
  with command_addresses [of ?s "?l @ [10]" _ True ex_emulator 255] show ?thesis by (auto simp: line_ready_def)
qed

text \<open>
  C37. The commands of step mode are read from the input the UART's reader thread reads, too. With \<open>exit\<close>
  typed at the prompt both happen: the emulator ends, or the reader thread takes the first letter for the
  guest, the front end reads \<open>xit\<close>, which is no command, and the program goes on.
\<close>

theorem exit_races_with_uart:
  assumes "here s = At_prompt" and "reader (uart (sys s)) = Reading"
    and "stdin (uart (sys s)) = chars ''exit'' @ [10] @ rest"
  shows "(\<exists>s'. emulator_steps ck F s s' \<and> here s' = Finished)
    \<and> (\<exists>s'. emulator_steps ck F s s' \<and> here s' = At_step \<and> held (uart (sys s')) = 101 \<and> stdin (uart (sys s')) = rest)"
proof
  let ?u = "uart (sys s)"
  have "read_line ?u = (chars ''exit'' @ [10], ?u\<lparr>stdin := rest\<rparr>)"
    using assms(3) by (intro read_line_first) (simp_all add: chars_def)
  then have "main_step ck F s = Some (s\<lparr>here := Leaving, sys := (sys s)\<lparr>uart := ?u\<lparr>stdin := rest\<rparr>\<rparr>\<rparr>)" (is "_ = Some ?s1")
    using assms exit_lines(1) by (simp add: main_step_def line_ready_def read_command_def run_command_def)
  moreover have "main_step ck F ?s1 = Some (leave F ?s1)" by (simp add: main_step_def)
  ultimately have "emulator_steps ck F s (leave F ?s1)"
    by (blast intro: emulator_step.main rtranclp.rtrancl_into_rtrancl)
  then show "\<exists>s'. emulator_steps ck F s s' \<and> here s' = Finished" by (auto simp: leave_def)
next
  let ?u = "(uart (sys s))\<lparr>held := 101, stdin := chars ''xit'' @ [10] @ rest, reader := Checking\<rparr>"
  let ?s1 = "s\<lparr>sys := (sys s)\<lparr>uart := ?u\<rparr>\<rparr>"
  have "reader_step (uart (sys s)) ?u" using assms(2,3) by (intro reader_step.read) (simp_all add: chars_def)
  with assms(1) have "emulator_step ck F s ?s1" by (intro emulator_step.reader) simp_all
  moreover have "read_line ?u = (chars ''xit'' @ [10], ?u\<lparr>stdin := rest\<rparr>)"
    by (intro read_line_first) (simp_all add: chars_def)
  then have "main_step ck F ?s1 = Some (?s1\<lparr>here := At_step, sys := (sys ?s1)\<lparr>uart := ?u\<lparr>stdin := rest\<rparr>\<rparr>\<rparr>)" (is "_ = Some ?s2")
    using assms(1) exit_lines(2) by (simp add: main_step_def line_ready_def read_command_def run_command_def)
  ultimately have "emulator_steps ck F s ?s2" by (blast intro: emulator_step.main rtranclp.rtrancl_into_rtrancl)
  then show "\<exists>s'. emulator_steps ck F s s' \<and> here s' = At_step \<and> held (uart (sys s')) = 101 \<and> stdin (uart (sys s')) = rest"
    by (intro exI [of _ ?s2]) simp
qed

theorem exit_races_with_uart_witness:
  "\<exists>s'. emulator_steps True ex_emulator (ex_session At_prompt (chars ''exit'' @ [10])) s' \<and> here s' = At_step"
  using exit_races_with_uart [of "ex_session At_prompt (chars ''exit'' @ [10])" "[]" True ex_emulator] by auto

text \<open>
  At the end of the input step mode does not end: while the CPU steps, or fails with the access fault that
  step mode passes over, the front end goes from step to prompt and back and never waits.
\<close>

theorem step_mode_ignores_eof:
  assumes "here s \<in> {At_step, At_prompt}" and "stdin (uart (sys s)) = []" and "closed (uart (sys s))"
    and "\<And>b. stdin (uart b) = [] \<Longrightarrow> closed (uart b) \<Longrightarrow> \<exists>r b'. step F b = Some (r, b')
      \<and> r \<in> {Inr (), Inl (access_fault F)} \<and> stdin (uart b') = [] \<and> closed (uart b')"
    and "emulator_steps ck F s s'"
  shows "here s' \<in> {At_step, At_prompt} \<and> (\<exists>s''. main_step ck F s' = Some s'')"
proof -
  let ?I = "\<lambda>s. here s \<in> {At_step, At_prompt} \<and> stdin (uart (sys s)) = [] \<and> closed (uart (sys s))"
  have "?I s'"
    using assms(5)
  proof (rule emulator_steps_invariant [where I = ?I])
    show "?I s" using assms(1-3) by simp
  next
    fix s s' assume s: "?I s" and m: "main_step ck F s = Some s'"
    from s assms(4) [of "dump F (sys s)"] obtain r b where st: "step F (dump F (sys s)) = Some (r, b)"
      "r \<in> {Inr (), Inl (access_fault F)}" "stdin (uart b) = []" "closed (uart b)" by auto
    have "read_line (uart (sys s)) = ([], (uart (sys s))\<lparr>stdin := []\<rparr>)" using s by (simp add: read_line_def)
    moreover have "command_of [] = Some C_step"
      by (simp add: command_of_def trim_def command_codes starts_with_def)
    ultimately have "?I (read_command F s)" using s by (simp add: read_command_def run_command_def)
    moreover have "?I (step_round F s)" using st s by (auto simp: step_round_def)
    ultimately show "?I s'" using s m by (auto simp: main_step_def split: if_splits)
  next
    fix s u assume "?I s" and "reader_step (uart (sys s)) u"
    then show "?I (s\<lparr>sys := (sys s)\<lparr>uart := u\<rparr>\<rparr>)" by (auto simp: reader_stepE deliver_def Let_def)
  qed
  then show ?thesis by (auto simp: main_step_def line_ready_def)
qed

theorem step_mode_ignores_eof_witness:
  "\<exists>s'. main_step True ex_emulator (ex_session At_prompt []) = Some s'"
  using step_mode_ignores_eof [of "ex_session At_prompt []" ex_emulator True "ex_session At_prompt []"]
  by (simp add: ex_emulator_def)

text \<open>
  \<open>con\<close> follows the program to the first step whose program counter is the address and asks for
  the next command there; an error on the way panics, the access fault included that step mode passes over.
\<close>

theorem con_follows_program:
  assumes "here s = At_con a" and "sys s = b 0"
    and "\<forall>i < n. get_pc F (cpu (b i)) \<noteq> a \<and> step F (b i) = Some (Inr (), b (Suc i))"
  shows "(get_pc F (cpu (b n)) = a \<longrightarrow>
      ((\<lambda>s s'. main_step ck F s = Some s') ^^ Suc n) s (s\<lparr>here := At_step, sys := b n\<rparr>))
    \<and> (get_pc F (cpu (b n)) \<noteq> a \<longrightarrow> step F (b n) = Some (Inl e, b') \<longrightarrow>
      ((\<lambda>s s'. main_step ck F s = Some s') ^^ Suc n) s (s\<lparr>here := Panicked, sys := b n\<rparr>))"
  using con_steps [OF assms, of ck] assms(1) by (auto simp: main_step_def con_round_def intro!: relcomppI)

theorem con_follows_program_witness:
  "\<exists>s'. ((\<lambda>s s'. main_step True ex_emulator s = Some s') ^^ Suc 2) (ex_session (At_con 8) []) s' \<and> here s' = At_step"
proof -
  let ?b = "\<lambda>i. (sys (ex_session (At_con 8) []))\<lparr>cpu := (\<lambda>_. 0)(0 := 4 * of_nat i)\<rparr>"
  have "sys (ex_session (At_con 8) []) = ?b 0" by (simp add: ex_session_def fun_eq_iff)
  moreover have "\<forall>i < 2. get_pc ex_emulator (cpu (?b i)) \<noteq> 8 \<and> step ex_emulator (?b i) = Some (Inr (), ?b (Suc i))"
    by (auto simp: ex_emulator_def less_2_cases_iff)
  moreover have "get_pc ex_emulator (cpu (?b 2)) = 8" by (simp add: ex_emulator_def)
  ultimately have "((\<lambda>s s'. main_step True ex_emulator s = Some s') ^^ Suc 2) (ex_session (At_con 8) [])
      ((ex_session (At_con 8) [])\<lparr>here := At_step, sys := ?b 2\<rparr>)"
    using con_follows_program [of "ex_session (At_con 8) []" 8 ?b 2 ex_emulator True] by simp
  moreover have "here ((ex_session (At_con 8) [])\<lparr>here := At_step, sys := ?b 2\<rparr>) = At_step" by simp
  ultimately show ?thesis by blast
qed

end
