(* ===== verification/Double.thy ===== *)
theory Double
  imports Complex_Main Prelude
begin

text \<open>
  The type \<open>double\<close> of C: IEEE 754 binary64 with round to nearest, ties to even. A finite value is the
  rational number it stands for, so that arithmetic is exact arithmetic followed by \<open>rnd\<close>. The sign of
  zero is not kept: no code here divides by zero or looks at the sign bit of a zero.
\<close>

type_synonym u64 = "64 word"

section \<open>Rounding\<close>

text \<open>The number of binary digits of an integer, and the binary exponent of a positive number.\<close>

function bit_count :: "int \<Rightarrow> int" where
  "bit_count n = (if n \<le> 0 then 0 else 1 + bit_count (n div 2))"
  by pat_completeness auto
termination by (relation "measure nat") auto

declare bit_count.simps [simp del]

definition ilog2 :: "rat \<Rightarrow> int" where
  "ilog2 q = (let (n, d) = quotient_of q; e = bit_count n - bit_count d
     in if 2 powi e \<le> q then e else e - 1)"

definition half_even :: "rat \<Rightarrow> int" where
  "half_even q = (let f = \<lfloor>q\<rfloor>; d = q - of_int f
     in if d < 1 / 2 then f else if 1 / 2 < d then f + 1 else if even f then f else f + 1)"

text \<open>The exponent of the last place, and the nearest multiple of it.\<close>

definition last_place :: "rat \<Rightarrow> int" where
  "last_place q = max (ilog2 \<bar>q\<bar>) (- 1022) - 52"

definition rnd :: "rat \<Rightarrow> rat" where
  "rnd q = (if q = 0 then 0 else of_int (half_even (q / 2 powi last_place q)) * 2 powi last_place q)"

lemma pow2_less_iff [simp]: "(2 :: rat) powi a < 2 powi b \<longleftrightarrow> a < b"
  by (metis linorder_neq_iff one_less_numeral_iff power_int_strict_increasing semiring_norm(76) order_less_asym)

lemma pow2_not_le [simp]: "\<not> (2 :: rat) powi k \<le> 0"
  by (simp add: not_le)

lemma pow2_le_iff [simp]: "(2 :: rat) powi a \<le> 2 powi b \<longleftrightarrow> a \<le> b"
  by (simp flip: not_less)

lemma bit_count_bounds: "0 < n \<Longrightarrow> 0 < bit_count n \<and> 2 ^ nat (bit_count n - 1) \<le> n \<and> n < 2 ^ nat (bit_count n)"
proof (induction n rule: bit_count.induct)
  case (1 n)
  show ?case
  proof (cases "n = 1")
    case True
    have "bit_count 1 = 1" by (simp add: bit_count.simps)
    with True show ?thesis by simp
  next
    case False
    let ?h = "n div 2"
    from False "1.prems" have IH: "0 < bit_count ?h" "2 ^ nat (bit_count ?h - 1) \<le> ?h" "?h < 2 ^ nat (bit_count ?h)"
      using "1.IH" by auto
    have n: "bit_count n = 1 + bit_count ?h" using "1.prems" by (subst bit_count.simps) simp
    have s: "nat (bit_count n) = Suc (nat (bit_count ?h))" "nat (bit_count n - 1) = Suc (nat (bit_count ?h - 1))"
      using IH(1) by (simp_all add: n flip: Suc_nat_eq_nat_zadd1)
    have "2 * 2 ^ nat (bit_count ?h - 1) \<le> 2 * ?h" "2 * ?h + 2 \<le> 2 * 2 ^ nat (bit_count ?h)"
      using IH by simp_all
    moreover have "n = 2 * ?h + n mod 2" "0 \<le> n mod 2" "n mod 2 < 2" by simp_all
    ultimately show ?thesis unfolding s power_Suc using IH(1) n by linarith
  qed
qed

lemma ilog2_bounds:
  assumes "0 < q"
  shows "2 powi ilog2 q \<le> q" and "q < 2 powi (ilog2 q + 1)"
proof -
  obtain n d where nd: "quotient_of q = (n, d)" by (metis surj_pair)
  then have d: "0 < d" using quotient_of_denom_pos by blast
  have q: "q = of_int n / of_int d" using quotient_of_div [OF nd] .
  with assms d have n: "0 < n" by (simp add: zero_less_divide_iff)
  define a b where ab_def: "a = nat (bit_count n)" "b = nat (bit_count d)"
  let ?a = a and ?b = b
  have ab: "0 < ?a" "0 < ?b" "bit_count n = int a" "bit_count d = int b"
    using bit_count_bounds [OF n] bit_count_bounds [OF d] by (simp_all add: ab_def)
  have bounds: "2 ^ (?a - 1) \<le> (of_int n :: rat)" "of_int n < (2 :: rat) ^ ?a"
    "2 ^ (?b - 1) \<le> (of_int d :: rat)" "of_int d < (2 :: rat) ^ ?b"
  proof -
    have r: "2 ^ k \<le> (of_int m :: rat)" if "2 ^ k \<le> m" for k m
      using that by (metis of_int_le_iff of_int_numeral of_int_power)
    have r': "(of_int m :: rat) < 2 ^ k" if "m < 2 ^ k" for k m
      using that by (metis of_int_less_iff of_int_numeral of_int_power)
    have "nat (int a - 1) = ?a - 1" "nat (int b - 1) = ?b - 1" by simp_all
    then show "2 ^ (?a - 1) \<le> (of_int n :: rat)" "of_int n < (2 :: rat) ^ ?a"
      "2 ^ (?b - 1) \<le> (of_int d :: rat)" "of_int d < (2 :: rat) ^ ?b"
      using bit_count_bounds [OF n] bit_count_bounds [OF d] unfolding ab(3,4) nat_int
      by (metis r, metis r', metis r, metis r')
  qed
  have pos: "0 < (of_int d :: rat)" and n0: "0 \<le> (of_int n :: rat)" using d n by simp_all
  have hi: "q < 2 powi (int ?a - int ?b + 1)"
  proof -
    obtain b' where b': "?b = Suc b'" using ab(2) by (metis gr0_conv_Suc)
    have "2 powi (int ?a - int ?b + 1) = (2 :: rat) powi (int ?a - int b')" unfolding b' by simp
    then have "2 powi (int ?a - int ?b + 1) = (2 :: rat) ^ ?a / 2 ^ (?b - 1)"
      unfolding b' by (simp add: power_int_diff)
    moreover have "q < 2 ^ ?a / 2 ^ (?b - 1)"
      unfolding q by (rule frac_less [OF n0 bounds(2) _ bounds(3)]) simp
    ultimately show ?thesis by simp
  qed
  have lo: "2 powi (int ?a - int ?b - 1) \<le> q"
  proof -
    obtain a' where a': "?a = Suc a'" using ab(1) by (metis gr0_conv_Suc)
    have "2 powi (int ?a - int ?b - 1) = (2 :: rat) powi (int a' - int ?b)" unfolding a' by simp
    then have "2 powi (int ?a - int ?b - 1) = (2 :: rat) ^ (?a - 1) / 2 ^ ?b"
      unfolding a' by (simp add: power_int_diff)
    moreover have "2 ^ (?a - 1) / 2 ^ ?b \<le> q"
      unfolding q by (rule frac_le [OF n0 bounds(1) pos less_imp_le [OF bounds(4)]])
    ultimately show ?thesis by simp
  qed
  show "2 powi ilog2 q \<le> q" "q < 2 powi (ilog2 q + 1)"
    using hi lo by (auto simp: ilog2_def nd ab Let_def not_le)
qed

lemma ilog2_unique:
  assumes "2 powi e \<le> q" "q < 2 powi (e + 1)"
  shows "ilog2 q = e"
proof -
  have "0 < q" using assms(1) by (rule less_le_trans [rotated]) simp
  then have "(2 :: rat) powi ilog2 q < 2 powi (e + 1)" "(2 :: rat) powi e < 2 powi (ilog2 q + 1)"
    using le_less_trans [OF ilog2_bounds(1) assms(2)] le_less_trans [OF assms(1) ilog2_bounds(2)] by blast+
  then have "ilog2 q < e + 1" "e < ilog2 q + 1" by simp_all
  then show ?thesis by simp
qed

lemma half_even_error: "\<bar>of_int (half_even q) - q\<bar> \<le> 1 / 2"
  using of_int_floor_le [of q] floor_correct [of q] by (auto simp: half_even_def Let_def abs_le_iff) 

lemma pow2_pos [simp]: "0 < (2 :: rat) powi k"
  by simp

lemma half_even_of_int [simp]: "half_even (of_int n) = n"
  by (simp add: half_even_def)

lemma half_evenI: "\<bar>q - of_int n\<bar> < 1 / 2 \<Longrightarrow> half_even q = n"
proof (cases "of_int n \<le> q")
  case True
  assume q: "\<bar>q - of_int n\<bar> < 1 / 2"
  with True have "\<lfloor>q\<rfloor> = n" by (simp add: floor_eq_iff abs_less_iff)
  with q True show ?thesis by (simp add: half_even_def Let_def abs_less_iff)
next
  case False
  assume q: "\<bar>q - of_int n\<bar> < 1 / 2"
  with False have "\<lfloor>q\<rfloor> = n - 1" by (simp add: floor_eq_iff abs_less_iff)
  with q False show ?thesis by (simp add: half_even_def Let_def abs_less_iff)
qed

lemma half_even_mono: "p \<le> q \<Longrightarrow> half_even p \<le> half_even q"
proof -
  assume pq: "p \<le> q"
  then have fl: "\<lfloor>p\<rfloor> \<le> \<lfloor>q\<rfloor>" by (rule floor_mono)
  show ?thesis
  proof (cases "\<lfloor>p\<rfloor> = \<lfloor>q\<rfloor>")
    case True
    with pq show ?thesis by (auto simp: half_even_def Let_def)
  next
    case False
    with fl show ?thesis by (auto simp: half_even_def Let_def)
  qed
qed

lemma rnd_0 [simp]: "rnd 0 = 0"
  by (simp add: rnd_def)

lemma rnd_error: "\<bar>rnd q - q\<bar> \<le> 2 powi last_place q / 2"
proof (cases "q = 0")
  case False
  let ?u = "2 powi last_place q :: rat"
  have u: "0 < ?u" by simp
  have "rnd q - q = (of_int (half_even (q / ?u)) - q / ?u) * ?u"
    using False u by (simp add: rnd_def left_diff_distrib)
  then have "\<bar>rnd q - q\<bar> = \<bar>of_int (half_even (q / ?u)) - q / ?u\<bar> * ?u" by (simp add: abs_mult)
  also have "\<dots> \<le> 1 / 2 * ?u" by (intro mult_right_mono half_even_error) simp
  finally show ?thesis by simp
qed simp
text \<open>A number that \<open>double\<close> can hold is one that rounding leaves alone.\<close>

definition is_double :: "rat \<Rightarrow> bool" where
  "is_double q \<longleftrightarrow> rnd q = q \<and> \<bar>q\<bar> < 2 ^ 1024"

lemma ilog2_mono: "0 < p \<Longrightarrow> p \<le> q \<Longrightarrow> ilog2 p \<le> ilog2 q"
proof -
  assume p: "0 < p" "p \<le> q"
  then have "2 powi ilog2 p < (2 :: rat) powi (ilog2 q + 1)"
    using ilog2_bounds(1) [of p] ilog2_bounds(2) [of q] by linarith
  then show ?thesis by simp
qed

lemma rnd_multiple:
  assumes "last_place q \<le> k" and "q = of_int m * 2 powi k"
  shows "rnd q = q"
proof (cases "q = 0")
  case False
  define j where "j = nat (k - last_place q)"
  have k: "k = last_place q + int j" using assms(1) by (simp add: j_def)
  have "q / 2 powi last_place q = of_int (m * 2 ^ j)"
    by (subst assms(2)) (simp add: k power_int_add)
  then have "rnd q = (q / 2 powi last_place q) * 2 powi last_place q"
    using False by (simp add: rnd_def del: of_int_mult of_int_power)
  then show ?thesis by simp
qed simp

lemma rnd_representable:
  assumes "\<bar>m\<bar> < 2 ^ 53" "- 1074 \<le> k"
  shows "rnd (of_int m * 2 powi k) = of_int m * 2 powi k"
proof (cases "m = 0")
  case False
  let ?q = "of_int m * 2 powi k :: rat"
  have abs: "\<bar>?q\<bar> = of_int \<bar>m\<bar> * 2 powi k" by (simp add: abs_mult)
  have pos: "0 < \<bar>?q\<bar>" using False by simp
  have "of_int \<bar>m\<bar> < (2 :: rat) ^ 53" using assms(1) by (metis of_int_less_iff of_int_numeral of_int_power)
  then have "\<bar>?q\<bar> < 2 ^ 53 * 2 powi k" unfolding abs by (rule mult_strict_right_mono) simp
  also have "2 ^ 53 * (2 :: rat) powi k = 2 powi (k + 53)" by (simp add: power_int_add)
  finally have "(2 :: rat) powi ilog2 \<bar>?q\<bar> < 2 powi (k + 53)" using ilog2_bounds(1) [OF pos] by linarith
  then have "last_place ?q \<le> k" using assms(2) by (simp add: last_place_def)
  then show ?thesis by (rule rnd_multiple) simp
qed simp
lemma half_even_minus: "half_even (- q) = - half_even q"
proof (cases "q = of_int \<lfloor>q\<rfloor>")
  case True
  then have "half_even (of_int (- \<lfloor>q\<rfloor>)) = - half_even (of_int \<lfloor>q\<rfloor>)" unfolding half_even_of_int by simp
  then show ?thesis using True by simp
next
  case False
  then have fl: "\<lfloor>- q\<rfloor> = - \<lfloor>q\<rfloor> - 1" by (simp add: floor_minus ceiling_altdef)
  show ?thesis by (auto simp: half_even_def Let_def fl algebra_simps)
qed

lemma rnd_minus [simp]: "rnd (- q) = - rnd q"
  by (simp add: rnd_def last_place_def half_even_minus)

lemma rnd_form:
  obtains m k where "rnd q = of_int m * 2 powi k" "\<bar>m\<bar> < 2 ^ 53" "- 1074 \<le> k"
proof (cases "q = 0")
  case True
  then show ?thesis using that [of 0 0] by simp
next
  case False
  define m where "m = half_even (q / 2 powi last_place q)"
  have r: "rnd q = of_int m * 2 powi last_place q" using False by (simp add: rnd_def m_def)
  have lp: "- 1074 \<le> last_place q" and le: "ilog2 \<bar>q\<bar> + 1 \<le> last_place q + 53" by (simp_all add: last_place_def)
  have "\<bar>q\<bar> \<le> 2 powi (last_place q + 53)"
    using ilog2_bounds(2) [of "\<bar>q\<bar>"] False le pow2_le_iff [of "ilog2 \<bar>q\<bar> + 1" "last_place q + 53"]
    by (meson less_imp_le order_trans zero_less_abs_iff)
  then have "\<bar>q / 2 powi last_place q\<bar> \<le> of_int (2 ^ 53)"
    by (simp add: power_int_add abs_divide divide_le_eq mult.commute)
  then have "q / 2 powi last_place q \<le> of_int (2 ^ 53)" "of_int (- (2 ^ 53)) \<le> q / 2 powi last_place q"
    unfolding abs_le_iff of_int_minus by linarith+
  then have "half_even (q / 2 powi last_place q) \<le> half_even (of_int (2 ^ 53))"
    "half_even (of_int (- (2 ^ 53))) \<le> half_even (q / 2 powi last_place q)"
    by (blast intro: half_even_mono)+
  then have m: "\<bar>m\<bar> \<le> 2 ^ 53" unfolding half_even_of_int m_def [symmetric] by simp
  show ?thesis
  proof (cases "\<bar>m\<bar> < 2 ^ 53")
    case True
    with that r lp show ?thesis by blast
  next
    case False
    with m have "m = 2 ^ 52 * 2 * sgn m" by (auto simp: sgn_if abs_if)
    then have "rnd q = of_int (2 ^ 52 * sgn m) * 2 powi (last_place q + 1)"
      using r by (simp add: power_int_add mult.assoc)
    moreover have "\<bar>2 ^ 52 * sgn m\<bar> < 2 ^ 53" by (simp add: abs_mult sgn_if)
    ultimately show ?thesis using that lp by fastforce
  qed
qed

lemma rnd_rnd [simp]: "rnd (rnd q) = rnd q"
  by (rule rnd_form [of q]) (simp add: rnd_representable)

lemma rnd_relative: "\<bar>rnd q - q\<bar> \<le> \<bar>q\<bar> * 2 powi (- 53) + 2 powi (- 1075)"
proof (cases "q = 0")
  case False
  have half: "2 powi k / 2 = (2 :: rat) powi (k - 1)" for k by (simp add: power_int_diff)
  show ?thesis
  proof (cases "ilog2 \<bar>q\<bar> \<ge> - 1022")
    case True
    have "2 powi last_place q / 2 = 2 powi ilog2 \<bar>q\<bar> * (2 :: rat) powi (- 53)"
      using True power_int_add [of "2 :: rat" "ilog2 \<bar>q\<bar>" "- 53"] by (simp add: half last_place_def)
    also have "\<dots> \<le> \<bar>q\<bar> * 2 powi (- 53)"
      using False by (intro mult_right_mono ilog2_bounds) auto
    also have "\<dots> \<le> \<bar>q\<bar> * 2 powi (- 53) + 2 powi (- 1075)" by simp
    finally show ?thesis using rnd_error [of q] by linarith
  next
    case False
    then have "2 powi last_place q / 2 = (2 :: rat) powi (- 1075)" by (simp add: half last_place_def)
    moreover have "0 \<le> \<bar>q\<bar> * 2 powi (- 53)" by simp
    ultimately show ?thesis using rnd_error [of q] by linarith
  qed
qed simp
lemma rnd_mono_pos:
  assumes "0 < p" "p \<le> q"
  shows "rnd p \<le> rnd q"
proof (cases "last_place p = last_place q")
  case True
  then have "half_even (p / 2 powi last_place p) \<le> half_even (q / 2 powi last_place q)"
    using assms by (intro half_even_mono) (simp add: divide_right_mono)
  with True assms show ?thesis by (simp add: rnd_def)
next
  case False
  have e: "ilog2 p \<le> ilog2 q" using assms by (rule ilog2_mono)
  with False assms have e2: "max (ilog2 p) (- 1022) + 1 \<le> ilog2 q" "- 1022 \<le> ilog2 q"
    by (auto simp: last_place_def max_def split: if_splits)
  have two: "(2 :: rat) powi (a + int b) = of_int (2 ^ b) * 2 powi a" for a b by (simp add: power_int_add)
  have exact: "rnd (2 powi k) = 2 powi k" if "- 1074 \<le> k" for k
    using rnd_representable [of 1 k] that by simp
  have "p \<le> 2 powi (last_place p + 53)"
  proof -
    have "(2 :: rat) powi (ilog2 p + 1) \<le> 2 powi (last_place p + 53)"
      using assms(1) unfolding pow2_le_iff by (simp add: last_place_def)
    then show ?thesis using ilog2_bounds(2) [OF assms(1)] by linarith
  qed
  then have "p / 2 powi last_place p \<le> of_int (2 ^ 53)"
    using two [of "last_place p" 53] by (simp add: divide_le_eq)
  then have "half_even (p / 2 powi last_place p) \<le> 2 ^ 53"
    using half_even_mono half_even_of_int by metis
  then have "rnd p \<le> of_int (2 ^ 53) * 2 powi last_place p"
    unfolding rnd_def using assms(1) by (auto intro!: mult_right_mono simp flip: of_int_power) 
  also have "\<dots> = 2 powi (last_place p + 53)" using two [of "last_place p" 53] by simp
  also have "\<dots> \<le> 2 powi ilog2 q" using e2 assms(1) by (simp add: last_place_def)
  also have "\<dots> \<le> rnd q"
  proof -
    have "of_int (2 ^ 52) * 2 powi last_place q = (2 :: rat) powi ilog2 q"
      using two [of "last_place q" 52] e2 assms by (simp add: last_place_def)
    moreover have "2 powi ilog2 q \<le> q" using ilog2_bounds(1) assms by simp
    ultimately have "of_int (2 ^ 52) \<le> q / 2 powi last_place q" by (simp add: le_divide_eq)
    then have "2 ^ 52 \<le> half_even (q / 2 powi last_place q)"
      using half_even_mono half_even_of_int by metis
    then have "of_int (2 ^ 52) * 2 powi last_place q \<le> rnd q"
      unfolding rnd_def using assms by (auto intro!: mult_right_mono simp flip: of_int_power)
    then show ?thesis using \<open>of_int (2 ^ 52) * _ = _\<close> by simp
  qed
  finally show ?thesis .
qed

lemma rnd_nonneg: "0 \<le> q \<Longrightarrow> 0 \<le> rnd q"
proof -
  assume "0 \<le> q"
  then have "half_even (of_int 0) \<le> half_even (q / 2 powi last_place q)" by (intro half_even_mono) simp
  then have "0 \<le> half_even (q / 2 powi last_place q)" unfolding half_even_of_int .
  then show ?thesis by (simp add: rnd_def)
qed

lemma rnd_mono: "p \<le> q \<Longrightarrow> rnd p \<le> rnd q"
proof -
  assume pq: "p \<le> q"
  consider "0 < p" | "p \<le> 0" "0 \<le> q" | "q < 0" by linarith
  then show ?thesis
  proof cases
    case 1 with pq show ?thesis by (rule rnd_mono_pos [rotated])
  next
    case 2
    then show ?thesis using rnd_nonneg [of q] rnd_nonneg [of "- p"] by simp
  next
    case 3
    then show ?thesis using rnd_mono_pos [of "- q" "- p"] pq by simp
  qed
qed
text \<open>The fraction part of a small number is held exactly, and so is a product with a power of two.\<close>

lemma is_double_form:
  assumes "rnd q = q"
  obtains m k where "q = of_int m * 2 powi k" "\<bar>m\<bar> < 2 ^ 53" "- 1074 \<le> k"
  using rnd_form [of q] assms by metis

lemma rnd_of_int: "\<bar>n\<bar> < 2 ^ 53 \<Longrightarrow> rnd (of_int n) = of_int n"
  using rnd_representable [of n 0] by simp

lemma rnd_fraction:
  assumes "rnd q = q" "0 \<le> q"
  shows "rnd (q - of_int \<lfloor>q\<rfloor>) = q - of_int \<lfloor>q\<rfloor>"
proof -
  obtain m k where mk: "q = of_int m * 2 powi k" "\<bar>m\<bar> < 2 ^ 53" "- 1074 \<le> k"
    using is_double_form [OF assms(1)] .
  have m0: "0 \<le> m" using assms(2) mk(1) by (simp add: zero_le_mult_iff)
  show ?thesis
  proof (cases "0 \<le> k")
    case True
    then have "q = of_int (m * 2 ^ nat k)" using mk(1) by (simp add: power_int_def)
    then show ?thesis by simp
  next
    case False
    define j where "j = nat (- k)"
    have k: "k = - int j" using False by (simp add: j_def)
    have "of_int \<lfloor>q\<rfloor> = of_int (\<lfloor>q\<rfloor> * 2 ^ j) * (2 :: rat) powi k"
      by (simp add: k power_int_minus field_simps)
    then have e: "q - of_int \<lfloor>q\<rfloor> = of_int (m - \<lfloor>q\<rfloor> * 2 ^ j) * 2 powi k"
      using mk(1) by (simp add: left_diff_distrib)
    have "0 \<le> q - of_int \<lfloor>q\<rfloor>" by simp
    then have "0 \<le> m - \<lfloor>q\<rfloor> * 2 ^ j"
      unfolding e by (simp add: zero_le_mult_iff del: of_int_diff of_int_mult of_int_power)
    moreover have "0 \<le> \<lfloor>q\<rfloor> * 2 ^ j" using assms(2) by simp
    ultimately have "\<bar>m - \<lfloor>q\<rfloor> * 2 ^ j\<bar> < 2 ^ 53" using mk(2) m0 by simp
    then show ?thesis unfolding e using mk(3) by (rule rnd_representable)
  qed
qed

section \<open>The type and its operations\<close>

datatype dbl = D_nan | D_inf bool | D_fin rat

text \<open>
  Rounding a real result into the format, with overflow to an infinity. \<open>DBL_MAX\<close> is the largest
  finite number. A decimal constant is the number nearest to it.
\<close>

definition D_round :: "rat \<Rightarrow> dbl" where
  "D_round q = (let r = rnd q in if \<bar>r\<bar> < 2 ^ 1024 then D_fin r else D_inf (r < 0))"

definition DBL_MAX :: rat where "DBL_MAX = (2 ^ 53 - 1) * 2 ^ 971"

fun d_less :: "dbl \<Rightarrow> dbl \<Rightarrow> bool" where
  "d_less D_nan y = False"
| "d_less x D_nan = False"
| "d_less (D_inf s) (D_inf t) = (s \<and> \<not> t)"
| "d_less (D_inf s) (D_fin q) = s"
| "d_less (D_fin p) (D_inf t) = (\<not> t)"
| "d_less (D_fin p) (D_fin q) = (p < q)"

fun d_eq :: "dbl \<Rightarrow> dbl \<Rightarrow> bool" where
  "d_eq D_nan y = False"
| "d_eq x D_nan = False"
| "d_eq x y = (x = y)"

fun d_minus :: "dbl \<Rightarrow> dbl" where
  "d_minus D_nan = D_nan"
| "d_minus (D_inf s) = D_inf (\<not> s)"
| "d_minus (D_fin q) = D_fin (- q)"
fun d_add :: "dbl \<Rightarrow> dbl \<Rightarrow> dbl" where
  "d_add D_nan y = D_nan"
| "d_add x D_nan = D_nan"
| "d_add (D_inf s) (D_inf t) = (if s = t then D_inf s else D_nan)"
| "d_add (D_inf s) (D_fin q) = D_inf s"
| "d_add (D_fin p) (D_inf t) = D_inf t"
| "d_add (D_fin p) (D_fin q) = D_round (p + q)"

definition d_sub :: "dbl \<Rightarrow> dbl \<Rightarrow> dbl" where
  "d_sub x y = d_add x (d_minus y)"

fun d_mul :: "dbl \<Rightarrow> dbl \<Rightarrow> dbl" where
  "d_mul D_nan y = D_nan"
| "d_mul x D_nan = D_nan"
| "d_mul (D_inf s) (D_inf t) = D_inf (s \<noteq> t)"
| "d_mul (D_inf s) (D_fin q) = (if q = 0 then D_nan else D_inf (s \<noteq> (q < 0)))"
| "d_mul (D_fin p) (D_inf t) = (if p = 0 then D_nan else D_inf (t \<noteq> (p < 0)))"
| "d_mul (D_fin p) (D_fin q) = D_round (p * q)"

text \<open>Division; a zero divisor counts as \<open>+0\<close>.\<close>

fun d_div :: "dbl \<Rightarrow> dbl \<Rightarrow> dbl" where
  "d_div D_nan y = D_nan"
| "d_div x D_nan = D_nan"
| "d_div (D_inf s) (D_inf t) = D_nan"
| "d_div (D_inf s) (D_fin q) = D_inf (s \<noteq> (q < 0))"
| "d_div (D_fin p) (D_inf t) = D_fin 0"
| "d_div (D_fin p) (D_fin q) = (if q = 0 then if p = 0 then D_nan else D_inf (p < 0) else D_round (p / q))"

text \<open>
  Conversions. An integer of 32 bits converts exactly. A \<open>double\<close> is cut towards zero, and converting
  one whose integer part does not fit is undefined in C, \<open>None\<close> here.
\<close>

definition d_of_int :: "int \<Rightarrow> dbl" where
  "d_of_int n = D_fin (of_int n)"

definition d_lit :: "rat \<Rightarrow> dbl" where
  "d_lit q = D_round q"

definition trunc :: "rat \<Rightarrow> int" where
  "trunc q = (if q < 0 then \<lceil>q\<rceil> else \<lfloor>q\<rfloor>)"

definition int32 :: "int \<Rightarrow> int option" where
  "int32 n = (if - (2 ^ 31) \<le> n \<and> n < 2 ^ 31 then Some n else None)"

fun d_to_int :: "dbl \<Rightarrow> int option" where
  "d_to_int (D_fin q) = int32 (trunc q)"
| "d_to_int x = None"

fun d_to_u32 :: "dbl \<Rightarrow> u32 option" where
  "d_to_u32 (D_fin q) = (if 0 \<le> trunc q \<and> trunc q < 2 ^ 32 then Some (word_of_int (trunc q)) else None)"
| "d_to_u32 x = None"

text \<open>
  The 64 bits of a value: sign, 11 bits of biased exponent, 52 bits of fraction. The bits of a NaN are
  not determined.
\<close>

definition exponent_bits :: "rat \<Rightarrow> int" where
  "exponent_bits q = (if q = 0 then 0 else max (ilog2 \<bar>q\<bar> + 1023) 0)"

definition fraction_bits :: "rat \<Rightarrow> int" where
  "fraction_bits q = \<lfloor>\<bar>q\<bar> / 2 powi (max (exponent_bits q) 1 - 1075)\<rfloor> mod 2 ^ 52"

fun d_to_bits :: "dbl \<Rightarrow> u64 option" where
  "d_to_bits D_nan = None"
| "d_to_bits (D_inf s) = Some (if s then 0xFFF0000000000000 else 0x7FF0000000000000)"
| "d_to_bits (D_fin q) = Some (word_of_int
     ((if q < 0 then 2 ^ 63 else 0) + exponent_bits q * 2 ^ 52 + fraction_bits q))"

definition d_of_bits :: "u64 \<Rightarrow> dbl" where
  "d_of_bits u = (let n = uint u; s = 2 ^ 63 \<le> n; e = n div 2 ^ 52 mod 2 ^ 11; f = n mod 2 ^ 52
     in if e = 2047 then if f = 0 then D_inf s else D_nan
        else let q = (if e = 0 then of_int f * 2 powi (- 1074) else of_int (2 ^ 52 + f) * 2 powi (e - 1075))
             in D_fin (if s then - q else q))"
end
