(* ===== verification/FloatText.thy ===== *)
theory FloatText
  imports NumberText Double
begin

text \<open>
  The conversions of \<open>c_test/printf.c\<close> that \<open>debug_config.h\<close> leaves out of the build and that are part
  of every other configuration: \<open>long long\<close> integers, \<open>_ftoa\<close> for \<open>%f\<close>, and \<open>_etoa\<close> for \<open>%e\<close> and \<open>%g\<close>.
  Every operation on \<open>double\<close> is rounded on its own, as on a machine without wider registers.

  As in \<open>Printf\<close> the array \<open>buf\<close> is the list of the bytes stored in it. \<open>None\<close> is undefined
  behaviour: an index outside of the table of powers, a \<open>double\<close> that does not fit the integer it is
  converted to, an \<open>int\<close> that overflows, or a recursion that does not end.
\<close>

section \<open>long long\<close>

function ll_digits_loop :: "u64 \<Rightarrow> u64 \<Rightarrow> u32 \<Rightarrow> byte list \<Rightarrow> byte list" where
  "ll_digits_loop value base flags buf =
     (let digit = ucast (value mod base);
          buf = buf @ [digit_char flags digit];
          value = value div base
      in if value \<noteq> 0 \<and> length buf < NTOA_BUFFER_SIZE then ll_digits_loop value base flags buf else buf)"
  by pat_completeness auto
termination by (relation "measure (\<lambda>(v, b, f, buf). NTOA_BUFFER_SIZE - length buf)") auto

declare ll_digits_loop.simps [simp del]

definition ntoa_long_long :: "out_fct_type \<Rightarrow> u32 \<Rightarrow> u32 \<Rightarrow> u64 \<Rightarrow> bool \<Rightarrow> u64 \<Rightarrow> u32 \<Rightarrow> u32 \<Rightarrow> u32
    \<Rightarrow> outpos \<Rightarrow> outpos" where
  "ntoa_long_long out buffer maxlen value negative base prec width flags o' =
     (let flags = (if value = 0 then flags AND NOT FLAGS_HASH else flags);
          buf = (if \<not> has flags FLAGS_PRECISION \<or> value \<noteq> 0 then ll_digits_loop value base flags [] else [])
      in ntoa_format out buffer maxlen buf negative (ucast base) prec width flags o')"

section \<open>Fixed notation\<close>

definition FLAGS_ADAPT_EXP :: u32 where "FLAGS_ADAPT_EXP = 2048"
definition DEFAULT_FLOAT_PRECISION :: u32 where "DEFAULT_FLOAT_PRECISION = 6"
definition PRINTF_MAX_FLOAT :: dbl where "PRINTF_MAX_FLOAT = D_fin 10000000000"
definition FTOA_BUFFER_SIZE :: nat where "FTOA_BUFFER_SIZE = 32"

definition pow10 :: "dbl list" where
  "pow10 = map (\<lambda>i. D_fin (10 ^ i)) [0, 1, 2, 3, 4, 5, 6, 7, 8, 9]"

text \<open>\<open>while ((len < PRINTF_FTOA_BUFFER_SIZE) && (prec > 9U)) { buf[len++] = '0'; prec--; }\<close>\<close>

function limit_precision :: "u32 \<Rightarrow> byte list \<Rightarrow> u32 \<times> byte list" where
  "limit_precision prec buf =
     (if length buf < FTOA_BUFFER_SIZE \<and> prec > 9 then limit_precision (prec - 1) (buf @ [c_0])
      else (prec, buf))"
  by pat_completeness auto
termination by (relation "measure (\<lambda>(prec, buf). FTOA_BUFFER_SIZE - length buf)") auto

declare limit_precision.simps [simp del]

text \<open>The whole part and the rounded fraction of a value that is not negative.\<close>

definition half :: dbl where "half = D_fin (1 / 2)"

definition ftoa_split :: "dbl \<Rightarrow> u32 \<Rightarrow> (int \<times> u32) option" where
  "ftoa_split val prec = do {
     whole \<leftarrow> d_to_int val;
     power \<leftarrow> (if unat prec < length pow10 then Some (pow10 ! unat prec) else None);
     let tmp = d_mul (d_sub val (d_of_int whole)) power;
     fraction \<leftarrow> d_to_u32 tmp;
     let diff = d_sub tmp (d_of_int (uint fraction));
     if d_less half diff then
       (let fraction = fraction + 1
        in if \<not> d_less (d_of_int (uint fraction)) power then do { whole \<leftarrow> int32 (whole + 1); Some (whole, 0) }
           else Some (whole, fraction))
     else if d_less diff half then Some (whole, fraction)
     else if fraction = 0 \<or> fraction AND 1 \<noteq> 0 then Some (whole, fraction + 1)
     else Some (whole, fraction)
   }"

text \<open>Without decimals a tie goes to the even whole number.\<close>

definition ftoa_even :: "dbl \<Rightarrow> int \<Rightarrow> int option" where
  "ftoa_even val whole =
     (let diff = d_sub val (d_of_int whole)
      in if (\<not> d_less diff half \<or> d_less half diff) \<and> odd whole then int32 (whole + 1) else Some whole)"

function frac_loop :: "u32 \<Rightarrow> u32 \<Rightarrow> byte list \<Rightarrow> u32 \<times> byte list" where
  "frac_loop fraction count buf =
     (if length buf < FTOA_BUFFER_SIZE then
        let count = count - 1; buf = buf @ [48 + ucast (fraction mod 10)]; fraction = fraction div 10
        in if fraction = 0 then (count, buf) else frac_loop fraction count buf
      else (count, buf))"
  by pat_completeness auto
termination by (relation "measure (\<lambda>(f, c, buf). FTOA_BUFFER_SIZE - length buf)") auto

declare frac_loop.simps [simp del]

function extra_zeros :: "u32 \<Rightarrow> byte list \<Rightarrow> byte list" where
  "extra_zeros count buf =
     (if length buf < FTOA_BUFFER_SIZE \<and> count > 0 then extra_zeros (count - 1) (buf @ [c_0]) else buf)"
  by pat_completeness auto
termination by (relation "measure (\<lambda>(c, buf). FTOA_BUFFER_SIZE - length buf)") auto

declare extra_zeros.simps [simp del]

definition ftoa_decimals :: "u32 \<Rightarrow> u32 \<Rightarrow> byte list \<Rightarrow> byte list" where
  "ftoa_decimals fraction prec buf =
     (let (count, buf) = frac_loop fraction prec buf;
          buf = extra_zeros count buf
      in if length buf < FTOA_BUFFER_SIZE then buf @ [c_dot] else buf)"

text \<open>The whole part is not negative, so \<open>%\<close> and \<open>/\<close> of C are \<open>mod\<close> and \<open>div\<close>.\<close>

function whole_loop :: "int \<Rightarrow> byte list \<Rightarrow> byte list" where
  "whole_loop whole buf =
     (if length buf < FTOA_BUFFER_SIZE then
        let buf = buf @ [word_of_int (48 + whole mod 10)]; whole = whole div 10
        in if whole = 0 then buf else whole_loop whole buf
      else buf)"
  by pat_completeness auto
termination by (relation "measure (\<lambda>(w, buf). FTOA_BUFFER_SIZE - length buf)") auto

declare whole_loop.simps [simp del]

function ftoa_fill :: "u32 \<Rightarrow> byte list \<Rightarrow> byte list" where
  "ftoa_fill width buf =
     (if length buf < unat width \<and> length buf < FTOA_BUFFER_SIZE then ftoa_fill width (buf @ [c_0]) else buf)"
  by pat_completeness auto
termination by (relation "measure (\<lambda>(w, buf). FTOA_BUFFER_SIZE - length buf)") auto

declare ftoa_fill.simps [simp del]

definition ftoa_pad :: "bool \<Rightarrow> u32 \<Rightarrow> u32 \<Rightarrow> byte list \<Rightarrow> byte list \<times> u32" where
  "ftoa_pad negative width flags buf =
     (if \<not> has flags FLAGS_LEFT \<and> has flags FLAGS_ZEROPAD then
        let width = (if width \<noteq> 0 \<and> (negative \<or> has flags (FLAGS_PLUS OR FLAGS_SPACE)) then width - 1 else width)
        in (ftoa_fill width buf, width)
      else (buf, width))"

definition ftoa_sign :: "bool \<Rightarrow> u32 \<Rightarrow> byte list \<Rightarrow> byte list" where
  "ftoa_sign negative flags buf =
     (if length buf < FTOA_BUFFER_SIZE then
        if negative then buf @ [c_minus]
        else if has flags FLAGS_PLUS then buf @ [c_plus]
        else if has flags FLAGS_SPACE then buf @ [c_space] else buf
      else buf)"

text \<open>
  \<open>_ftoa\<close> behind its special cases, up to the leading zeros: the sign and the digits in \<open>buf\<close>. Then
  the whole buffer and the width that goes to \<open>_out_rev\<close>.
\<close>

definition ftoa_number :: "dbl \<Rightarrow> u32 \<Rightarrow> u32 \<Rightarrow> (bool \<times> byte list) option" where
  "ftoa_number val prec flags = do {
     let negative = d_less val (D_fin 0);
     let val = (if negative then d_sub (D_fin 0) val else val);
     let prec = (if has flags FLAGS_PRECISION then prec else DEFAULT_FLOAT_PRECISION);
     let (prec, buf) = limit_precision prec [];
     (whole, fraction) \<leftarrow> ftoa_split val prec;
     whole \<leftarrow> (if prec = 0 then ftoa_even val whole else Some whole);
     let buf = (if prec = 0 then buf else ftoa_decimals fraction prec buf);
     Some (negative, whole_loop whole buf)
   }"

definition ftoa_buf :: "dbl \<Rightarrow> u32 \<Rightarrow> u32 \<Rightarrow> u32 \<Rightarrow> (byte list \<times> u32) option" where
  "ftoa_buf val prec width flags = do {
     (negative, buf) \<leftarrow> ftoa_number val prec flags;
     let (buf, width) = ftoa_pad negative width flags buf;
     Some (ftoa_sign negative flags buf, width)
   }"

section \<open>Exponential notation\<close>

text \<open>The decimal exponent of a value that is not negative, and the power of ten it is divided by.\<close>

definition etoa_scale :: "dbl \<Rightarrow> (int \<times> dbl) option" where
  "etoa_scale val = do {
     U \<leftarrow> d_to_bits val;
     let exp2 = uint (drop_bit 52 U AND 0x7FF) - 1023;
     let F = d_of_bits ((U AND (push_bit 52 1 - 1)) OR push_bit 52 1023);
     expval \<leftarrow> d_to_int (d_add (d_add (d_lit 0.1760912590558) (d_mul (d_of_int exp2) (d_lit 0.301029995663981)))
                            (d_mul (d_sub F (d_lit 1.5)) (d_lit 0.289529654602168)));
     exp2 \<leftarrow> d_to_int (d_add (d_mul (d_of_int expval) (d_lit 3.321928094887362)) (d_lit 0.5));
     let z = d_sub (d_mul (d_of_int expval) (d_lit 2.302585092994046)) (d_mul (d_of_int exp2) (d_lit 0.6931471805599453));
     let z2 = d_mul z z;
     biased \<leftarrow> int32 (exp2 + 1023);
     let F = d_of_bits (push_bit 52 (word_of_int biased));
     let F = d_mul F (d_add (D_fin 1) (d_div (d_mul (D_fin 2) z)
               (d_add (d_sub (D_fin 2) z) (d_div z2 (d_add (D_fin 6) (d_div z2 (d_add (D_fin 10) (d_div z2 (D_fin 14)))))))));
     if d_less val F then do { expval \<leftarrow> int32 (expval - 1); Some (expval, d_div F (D_fin 10)) }
     else Some (expval, F)
   }"

text \<open>
  \<open>%g\<close>: the precision counts significant digits, and values from \<open>1e-4\<close> up to \<open>1e6\<close> are printed
  without an exponent. The result is the precision, the flags, the width of the exponent part and the
  exponent.
\<close>

definition etoa_adapt :: "dbl \<Rightarrow> u32 \<Rightarrow> u32 \<Rightarrow> u32 \<Rightarrow> int \<Rightarrow> (u32 \<times> u32 \<times> u32 \<times> int) option" where
  "etoa_adapt val prec flags minwidth expval =
     (if has flags FLAGS_ADAPT_EXP then
        if \<not> d_less val (d_lit 0.0001) \<and> d_less val (D_fin 1000000) then do {
          prec \<leftarrow> (if sint prec > expval then do {
                     d \<leftarrow> int32 (sint prec - expval);
                     d \<leftarrow> int32 (d - 1);
                     Some (word_of_int d)
                   } else Some 0);
          Some (prec, flags OR FLAGS_PRECISION, 0, 0)
        }
        else Some (if prec > 0 \<and> has flags FLAGS_PRECISION then prec - 1 else prec, flags, minwidth, expval)
      else Some (prec, flags, minwidth, expval))"

definition etoa_fwidth :: "u32 \<Rightarrow> u32 \<Rightarrow> u32 \<Rightarrow> u32" where
  "etoa_fwidth width minwidth flags =
     (let fwidth = (if width > minwidth then width - minwidth else 0)
      in if has flags FLAGS_LEFT \<and> minwidth \<noteq> 0 then 0 else fwidth)"

text \<open>What \<open>_etoa\<close> hands to \<open>_ftoa\<close>: value, precision, width and flags; and what it prints behind.\<close>

definition etoa_prepare :: "dbl \<Rightarrow> u32 \<Rightarrow> u32 \<Rightarrow> u32
    \<Rightarrow> (dbl \<times> u32 \<times> u32 \<times> u32 \<times> u32 \<times> int) option" where
  "etoa_prepare val prec width flags = do {
     let negative = d_less val (D_fin 0);
     let val = (if negative then d_minus val else val);
     let prec = (if has flags FLAGS_PRECISION then prec else DEFAULT_FLOAT_PRECISION);
     (expval, F) \<leftarrow> etoa_scale val;
     let minwidth = (if expval < 100 \<and> expval > - 100 then 4 else 5);
     (prec, flags, minwidth, expval) \<leftarrow> etoa_adapt val prec flags minwidth expval;
     let fwidth = etoa_fwidth width minwidth flags;
     let val = (if expval \<noteq> 0 then d_div val F else val);
     Some (if negative then d_minus val else val, prec, fwidth, flags, minwidth, expval)
   }"

definition etoa_exponent :: "out_fct_type \<Rightarrow> u32 \<Rightarrow> u32 \<Rightarrow> u32 \<Rightarrow> u32 \<Rightarrow> u32 \<Rightarrow> int \<Rightarrow> u32
    \<Rightarrow> outpos \<Rightarrow> outpos" where
  "etoa_exponent out buffer maxlen width flags minwidth expval start_idx o' =
     (if minwidth \<noteq> 0 then
        let o' = emit out buffer maxlen (if has flags FLAGS_UPPERCASE then 69 else 101) o';
            o' = ntoa_long out buffer maxlen (word_of_int (if expval < 0 then - expval else expval)) (expval < 0)
                   10 0 (minwidth - 1) (FLAGS_ZEROPAD OR FLAGS_PLUS) o'
        in if has flags FLAGS_LEFT then pad_to out buffer maxlen start_idx width o' else o'
      else o')"

text \<open>
  The strings of the special values stand in the code the way \<open>_out_rev\<close> reads them, from their end:
  \<open>nan\<close>, \<open>fni-\<close>, \<open>fni+\<close> and \<open>fni\<close>.
\<close>

definition nan_rev :: "byte list" where "nan_rev = [110, 97, 110]"
definition inf_rev :: "byte list" where "inf_rev = [102, 110, 105]"

definition ftoa_special :: "dbl \<Rightarrow> u32 \<Rightarrow> byte list option" where
  "ftoa_special val flags =
     (if \<not> d_eq val val then Some nan_rev
      else if d_less val (D_fin (- DBL_MAX)) then Some (inf_rev @ [c_minus])
      else if d_less (D_fin DBL_MAX) val then Some (if has flags FLAGS_PLUS then inf_rev @ [c_plus] else inf_rev)
      else None)"

definition etoa_special :: "dbl \<Rightarrow> bool" where
  "etoa_special val \<longleftrightarrow> \<not> d_eq val val \<or> d_less (D_fin DBL_MAX) val \<or> d_less val (D_fin (- DBL_MAX))"

definition ftoa_large :: "dbl \<Rightarrow> bool" where
  "ftoa_large val \<longleftrightarrow> d_less PRINTF_MAX_FLOAT val \<or> d_less val (d_minus PRINTF_MAX_FLOAT)"

text \<open>
  \<open>_ftoa\<close> (\<open>False\<close>) and \<open>_etoa\<close> (\<open>True\<close>), which call each other: \<open>_ftoa\<close> leaves large values to \<open>_etoa\<close>,
  \<open>_etoa\<close> leaves the special values and the digits to \<open>_ftoa\<close>.
\<close>

partial_function (option) float_text :: "bool \<Rightarrow> out_fct_type \<Rightarrow> u32 \<Rightarrow> u32 \<Rightarrow> dbl \<Rightarrow> u32 \<Rightarrow> u32 \<Rightarrow> u32
    \<Rightarrow> outpos \<Rightarrow> outpos option" where
  "float_text exponential out buffer maxlen val prec width flags o' =
     (if exponential then
        if etoa_special val then
          float_text False out buffer maxlen val prec width flags o'
        else do {
          (val, prec, fwidth, flags, minwidth, expval) \<leftarrow> etoa_prepare val prec width flags;
          o'' \<leftarrow> float_text False out buffer maxlen val prec fwidth (flags AND NOT FLAGS_ADAPT_EXP) o';
          Some (etoa_exponent out buffer maxlen width flags minwidth expval (fst o') o'')
        }
      else
        if ftoa_special val flags \<noteq> None then
          Some (out_rev out buffer maxlen (the (ftoa_special val flags)) width flags o')
        else if ftoa_large val then
          float_text True out buffer maxlen val prec width flags o'
        else do {
          (buf, width) \<leftarrow> ftoa_buf val prec width flags;
          Some (out_rev out buffer maxlen buf width flags o')
        })"

definition ftoa :: "out_fct_type \<Rightarrow> u32 \<Rightarrow> u32 \<Rightarrow> dbl \<Rightarrow> u32 \<Rightarrow> u32 \<Rightarrow> u32 \<Rightarrow> outpos \<Rightarrow> outpos option" where
  "ftoa = float_text False"

definition etoa :: "out_fct_type \<Rightarrow> u32 \<Rightarrow> u32 \<Rightarrow> dbl \<Rightarrow> u32 \<Rightarrow> u32 \<Rightarrow> u32 \<Rightarrow> outpos \<Rightarrow> outpos option" where
  "etoa = float_text True"
end
