(* ===== verification/FloatSpec.thy ===== *)
theory FloatSpec
  imports FloatText
begin

text \<open>
  What the floating point conversions of \<open>FloatText\<close> print: the buffer is never overrun, and \<open>_ftoa\<close> prints a
  decimal fraction next to the value. \<open>ftoa_text\<close> and \<open>etoa_text\<close> are the texts of the conversions.
\<close>

section \<open>The buffer\<close>

lemma limit_precision_eq:
  "limit_precision prec buf =
     (let n = min (32 - length buf) (unat prec - 9) in (prec - of_nat n, buf @ replicate n c_0))"
proof (induction prec buf rule: limit_precision.induct)
  case (1 prec buf)
  show ?case
  proof (cases "length buf < 32 \<and> 9 < prec")
    case True
    let ?n = "min (32 - length (buf @ [c_0])) (unat (prec - 1) - 9)"
    have "unat (prec - 1) = unat prec - 1" "9 < unat prec"
      using True unat_minus_one [of prec] by (auto simp: word_less_nat_alt unat_eq_0 [symmetric])
    then have n: "min (32 - length buf) (unat prec - 9) = Suc ?n" using True by auto
    have "limit_precision prec buf = limit_precision (prec - 1) (buf @ [c_0])"
      using True by (subst limit_precision.simps) (simp add: FTOA_BUFFER_SIZE_def)
    also have "\<dots> = (prec - 1 - of_nat ?n, (buf @ [c_0]) @ replicate ?n c_0)"
      using 1 True by (simp only: FTOA_BUFFER_SIZE_def Let_def)
    also have "\<dots> = (prec - of_nat (Suc ?n), buf @ replicate (Suc ?n) c_0)" by (simp add: algebra_simps)
    finally show ?thesis unfolding n Let_def .
  next
    case False
    then have "min (32 - length buf) (unat prec - 9) = 0" by (auto simp: word_less_nat_alt not_less)
    with False show ?thesis by (subst limit_precision.simps) (auto simp: FTOA_BUFFER_SIZE_def Let_def)
  qed
qed

lemma frac_loop_length: "length buf \<le> 32 \<Longrightarrow> length (snd (frac_loop f n buf)) \<le> 32"
proof (induction f n buf rule: frac_loop.induct)
  case (1 f n buf)
  then show ?case by (subst frac_loop.simps) (simp add: FTOA_BUFFER_SIZE_def Let_def)
qed

lemma extra_zeros_eq: "extra_zeros n buf = buf @ replicate (min (unat n) (32 - length buf)) c_0"
proof (induction n buf rule: extra_zeros.induct)
  case (1 n buf)
  show ?case
  proof (cases "length buf < 32 \<and> 0 < n")
    case True
    then have "unat n = Suc (unat (n - 1))" by (simp add: unat_minus_one unat_gt_0 word_gt_0)
    then have "min (unat n) (32 - length buf) = Suc (min (unat (n - 1)) (32 - length (buf @ [c_0])))"
      using True by auto
    with True 1 show ?thesis by (subst extra_zeros.simps) (simp add: FTOA_BUFFER_SIZE_def)
  next
    case False
    then show ?thesis by (subst extra_zeros.simps) (auto simp: FTOA_BUFFER_SIZE_def word_gt_0)
  qed
qed

lemma whole_loop_length: "length buf \<le> 32 \<Longrightarrow> length (whole_loop w buf) \<le> 32"
proof (induction w buf rule: whole_loop.induct)
  case (1 w buf)
  then show ?case by (subst whole_loop.simps) (simp add: FTOA_BUFFER_SIZE_def Let_def)
qed

lemma ftoa_fill_eq: "ftoa_fill n buf = buf @ replicate (min (unat n) 32 - length buf) c_0"
proof (induction n buf rule: ftoa_fill.induct)
  case (1 n buf)
  show ?case
  proof (cases "length buf < unat n \<and> length buf < 32")
    case True
    then have "min (unat n) 32 - length buf = Suc (min (unat n) 32 - length (buf @ [c_0]))" by auto
    with True 1 show ?thesis by (subst ftoa_fill.simps) (simp add: FTOA_BUFFER_SIZE_def)
  next
    case False
    then have "min (unat n) 32 - length buf = 0" by auto
    with False show ?thesis by (subst ftoa_fill.simps) (auto simp: FTOA_BUFFER_SIZE_def)
  qed
qed

lemma ftoa_stage_lengths:
  "length buf \<le> 32 \<Longrightarrow> length (ftoa_decimals f prec buf) \<le> 32"
  "length buf \<le> 32 \<Longrightarrow> length (fst (ftoa_pad negative width flags buf)) \<le> 32"
  "length buf \<le> 32 \<Longrightarrow> length (ftoa_sign negative flags buf) \<le> 32"
  using frac_loop_length [of buf f prec]
  by (auto simp: ftoa_decimals_def ftoa_pad_def ftoa_sign_def Let_def extra_zeros_eq ftoa_fill_eq
      FTOA_BUFFER_SIZE_def split: prod.splits)

lemma ftoa_number_length:
  assumes "ftoa_number val prec flags = Some (negative, buf)"
  shows "length buf \<le> 32"
proof -
  obtain whole b where "buf = whole_loop whole b" "length b \<le> 32"
  proof -
    define p b where pb: "p = fst (limit_precision (if has flags FLAGS_PRECISION then prec else DEFAULT_FLOAT_PRECISION) [])"
      "b = snd (limit_precision (if has flags FLAGS_PRECISION then prec else DEFAULT_FLOAT_PRECISION) [])"
    have b: "length b \<le> 32" by (simp add: pb limit_precision_eq Let_def)
    from assms obtain w f where "buf = whole_loop w (if p = 0 then b else ftoa_decimals f p b)"
      unfolding ftoa_number_def Let_def split_def pb [symmetric] by (auto simp: bind_eq_Some_conv simp del: if_split_eq2)
    then show ?thesis using that ftoa_stage_lengths(1) [OF b, of f p] b by (cases "p = 0") auto
  qed
  then show ?thesis by (simp add: whole_loop_length)
qed

lemma ftoa_buf_length: "ftoa_buf val prec width flags = Some (buf, w) \<Longrightarrow> length buf \<le> 32"
proof -
  assume "ftoa_buf val prec width flags = Some (buf, w)"
  then obtain negative b where n: "ftoa_number val prec flags = Some (negative, b)"
    and b: "buf = ftoa_sign negative flags (fst (ftoa_pad negative width flags b))"
    by (auto simp: ftoa_buf_def bind_eq_Some_conv Let_def split_def)
  show ?thesis unfolding b by (intro ftoa_stage_lengths ftoa_number_length [OF n])
qed

section \<open>The printed text\<close>

definition ftoa_text :: "dbl \<Rightarrow> u32 \<Rightarrow> u32 \<Rightarrow> u32 \<Rightarrow> byte list option" where
  "ftoa_text val prec width flags =
     (case ftoa_special val flags of Some s \<Rightarrow> Some (rev_text s width flags)
      | None \<Rightarrow> if ftoa_large val then None else do {
          (buf, width) \<leftarrow> ftoa_buf val prec width flags;
          Some (rev_text buf width flags)
        })"

lemma ftoa_special_length: "ftoa_special val flags = Some s \<Longrightarrow> length s \<le> 32"
  by (auto simp: ftoa_special_def nan_rev_def inf_rev_def split: if_splits)

lemma ftoa_emits:
  assumes "\<not> ftoa_large val \<or> ftoa_special val flags \<noteq> None"
  shows "ftoa out buffer maxlen val prec width flags o'
    = map_option (\<lambda>t. emits out buffer maxlen t o') (ftoa_text val prec width flags)"
proof (cases "ftoa_special val flags")
  case (Some s)
  then show ?thesis
    by (simp add: ftoa_def ftoa_text_def out_rev_emits ftoa_special_length float_text.simps [of False])
next
  case None
  with assms show ?thesis
    by (auto simp: ftoa_def ftoa_text_def out_rev_emits ftoa_buf_length float_text.simps [of False]
        bind_eq_Some_conv split: Option.bind_splits)
qed

definition exponent_text :: "u32 \<Rightarrow> u32 \<Rightarrow> u32 \<Rightarrow> int \<Rightarrow> byte list \<Rightarrow> byte list" where
  "exponent_text width flags minwidth expval t =
     (if minwidth = 0 then t
      else let t = t @ [if has flags FLAGS_UPPERCASE then 69 else 101]
                 @ ntoa_text (word_of_int (if expval < 0 then - expval else expval)) (expval < 0) 10 0 (minwidth - 1)
                     (FLAGS_ZEROPAD OR FLAGS_PLUS)
           in if has flags FLAGS_LEFT then t @ replicate (unat width - unat (of_nat (length t) :: u32)) c_space else t)"

text \<open>The text of \<open>_etoa\<close> when what it hands to \<open>_ftoa\<close> does not come back to it.\<close>

definition etoa_text :: "dbl \<Rightarrow> u32 \<Rightarrow> u32 \<Rightarrow> u32 \<Rightarrow> byte list option" where
  "etoa_text val prec width flags =
     (if etoa_special val then ftoa_text val prec width flags
      else do {
        (val, prec, fwidth, flags, minwidth, expval) \<leftarrow> etoa_prepare val prec width flags;
        t \<leftarrow> ftoa_text val prec fwidth (flags AND NOT FLAGS_ADAPT_EXP);
        Some (exponent_text width flags minwidth expval t)
      })"

lemma etoa_exponent_emits:
  "etoa_exponent out buffer maxlen width flags minwidth expval (fst o') (emits out buffer maxlen t o')
    = emits out buffer maxlen (exponent_text width flags minwidth expval t) o'"
proof (cases "minwidth = 0")
  case False
  define T where "T = t @ [if has flags FLAGS_UPPERCASE then 69 else 101]
    @ ntoa_text (word_of_int (if expval < 0 then - expval else expval)) (expval < 0) 10 0 (minwidth - 1)
        (FLAGS_ZEROPAD OR FLAGS_PLUS)"
  have "ntoa_long out buffer maxlen (word_of_int (if expval < 0 then - expval else expval)) (expval < 0)
      10 0 (minwidth - 1) (FLAGS_ZEROPAD OR FLAGS_PLUS)
      (emit out buffer maxlen (if has flags FLAGS_UPPERCASE then 69 else 101) (emits out buffer maxlen t o'))
    = emits out buffer maxlen T o'" (is "?n = _")
    by (simp only: T_def ntoa_long_emits emits_simps)
  moreover have "pad_to out buffer maxlen (fst o') width (emits out buffer maxlen T o')
      = emits out buffer maxlen (T @ replicate (unat width - unat (of_nat (length T) :: u32)) c_space) o'"
    by (simp add: pad_to_emits emits_idx)
  ultimately show ?thesis
    using False unfolding etoa_exponent_def exponent_text_def Let_def T_def [symmetric] by simp
qed (simp add: etoa_exponent_def exponent_text_def)

lemma etoa_emits:
  assumes "etoa_text val prec width flags = Some t"
  shows "etoa out buffer maxlen val prec width flags o' = Some (emits out buffer maxlen t o')"
proof (cases "etoa_special val")
  case True
  then have "ftoa_special val flags \<noteq> None" by (auto simp: etoa_special_def ftoa_special_def)
  with True assms show ?thesis
    using ftoa_emits [of val flags out buffer maxlen prec width o']
    by (simp add: etoa_def ftoa_def etoa_text_def float_text.simps [of True])
next
  case False
  with assms obtain v p fw fl mw ex t' where prep: "etoa_prepare val prec width flags = Some (v, p, fw, fl, mw, ex)"
    and t': "ftoa_text v p fw (fl AND NOT FLAGS_ADAPT_EXP) = Some t'" and t: "t = exponent_text width fl mw ex t'"
    by (auto simp: etoa_text_def bind_eq_Some_conv)
  from t' have "\<not> ftoa_large v \<or> ftoa_special v (fl AND NOT FLAGS_ADAPT_EXP) \<noteq> None"
    by (auto simp: ftoa_text_def split: option.splits if_splits)
  from ftoa_emits [OF this] t' have "ftoa out buffer maxlen v p fw (fl AND NOT FLAGS_ADAPT_EXP) o'
      = Some (emits out buffer maxlen t' o')" by simp
  with False prep t show ?thesis
    by (simp add: etoa_def ftoa_def float_text.simps [of True] etoa_exponent_emits)
qed
section \<open>The digits\<close>

text \<open>The \<open>n\<close> last decimal digits of a number, the last one first, and their value.\<close>

fun last_digits :: "nat \<Rightarrow> nat \<Rightarrow> nat list" where
  "last_digits 0 f = []"
| "last_digits (Suc n) f = f mod 10 # last_digits n (f div 10)"

definition digit_text :: "nat list \<Rightarrow> byte list" where
  "digit_text ds = map (\<lambda>d. 48 + of_nat d) ds"

lemma digit_text_simps [simp]:
  "digit_text [] = []" "digit_text (d # ds) = (48 + of_nat d) # digit_text ds"
  "digit_text (ds @ es) = digit_text ds @ digit_text es" "length (digit_text ds) = length ds"
  "digit_text (rev ds) = rev (digit_text ds)"
  by (simp_all add: digit_text_def rev_map)

lemma last_digits_length [simp]: "length (last_digits n f) = n"
  by (induction n arbitrary: f) simp_all

lemma last_digits_0: "digit_text (last_digits n 0) = replicate n c_0"
  by (induction n) simp_all

lemma last_digits_less: "d \<in> set (last_digits n f) \<Longrightarrow> d < 10"
  by (induction n arbitrary: f) auto

lemma num_value_snoc: "num_value b (cs @ [c]) = num_value b cs * b + digit_value c"
  by (simp add: num_value_def)

lemma digit_value_decimal: "d < 10 \<Longrightarrow> digit_value (48 + of_nat d) = d"
  using digit_value_char [of d 0] by (simp add: digit_char_def word_less_nat_alt unat_of_nat)

lemma num_value_last_digits: "f < 10 ^ n \<Longrightarrow> num_value 10 (rev (digit_text (last_digits n f))) = f"
proof (induction n arbitrary: f)
  case 0
  then show ?case by (simp add: num_value_def)
next
  case (Suc n)
  then have "f div 10 < 10 ^ n" by (simp add: less_mult_imp_div_less mult.commute)
  with Suc.IH show ?case by (simp add: num_value_snoc digit_value_decimal)
qed

lemma unat_mod10: "ucast (f mod 10 :: u32) = (of_nat (unat f mod 10) :: byte)"
proof -
  have "unat (f mod 10) = unat f mod 10" by (simp add: unat_mod)
  then show ?thesis by (metis of_nat_unat)
qed

lemma frac_loop_digits:
  assumes "0 < unat n" "unat f < 10 ^ unat n" "length buf + unat n \<le> 32"
  shows "(case frac_loop f n buf of (n, buf) \<Rightarrow> extra_zeros n buf) = buf @ digit_text (last_digits (unat n) (unat f))"
  using assms
proof (induction f n buf rule: frac_loop.induct)
  case (1 f n buf)
  let ?buf = "buf @ [48 + ucast (f mod 10)]"
  have n: "unat n = Suc (unat (n - 1))" using "1.prems"(1) by (simp add: unat_minus_one unat_gt_0)
  have dv: "unat (f div 10) = unat f div 10" by (simp add: unat_div)
  have len: "length buf < FTOA_BUFFER_SIZE" using "1.prems" by (simp add: FTOA_BUFFER_SIZE_def)
  show ?case
  proof (cases "f div 10 = 0")
    case True
    then have "unat f div 10 = 0" using dv by simp
    moreover have "min (unat (n - 1)) (32 - length ?buf) = unat (n - 1)" using "1.prems" n by simp
    ultimately show ?thesis
      using len True by (subst frac_loop.simps) (simp add: Let_def extra_zeros_eq n last_digits_0 unat_mod10)
  next
    case False
    then have nz: "0 < unat f div 10" by (simp add: dv [symmetric] unat_gt_0)
    have less: "unat (f div 10) < 10 ^ unat (n - 1)"
      using "1.prems"(2) by (simp add: dv n less_mult_imp_div_less mult.commute)
    then have "0 < unat (n - 1)" using nz by (cases "unat (n - 1)") (simp_all add: dv)
    with less have "(case frac_loop (f div 10) (n - 1) ?buf of (n, buf) \<Rightarrow> extra_zeros n buf)
        = ?buf @ digit_text (last_digits (unat (n - 1)) (unat (f div 10)))"
      using "1.prems"(3) n by (intro "1.IH" [OF len refl refl refl False]) simp_all
    then show ?thesis
      using len False by (subst frac_loop.simps) (simp add: Let_def n dv unat_mod10)
  qed
qed

lemma whole_loop_digits:
  assumes "0 \<le> w" "length buf + length (base_digits 10 (nat w)) \<le> 32"
  shows "whole_loop w buf = buf @ rev (digit_text (base_digits 10 (nat w)))"
  using assms
proof (induction w buf rule: whole_loop.induct)
  case (1 w buf)
  have dig: "(word_of_int (48 + w mod 10) :: byte) = 48 + of_nat (nat w mod 10)"
  proof -
    obtain k where w: "w = int k" using "1.prems"(1) nonneg_int_cases by blast
    have "48 + w mod 10 = int (48 + k mod 10)" by (simp add: w zmod_int)
    then have "word_of_int (48 + w mod 10) = (of_nat (48 + k mod 10) :: byte)" by (metis of_int_of_nat_eq)
    then show ?thesis by (simp add: w)
  qed
  have ne: "base_digits 10 k \<noteq> []" for k by (subst base_digits.simps) simp
  have len: "length buf < FTOA_BUFFER_SIZE"
    using "1.prems"(2) ne [of "nat w"] by (cases "base_digits 10 (nat w)") (simp_all add: FTOA_BUFFER_SIZE_def)
  show ?case
  proof (cases "w div 10 = 0")
    case True
    then have "nat w < 10" using "1.prems"(1) by (simp add: div_eq_0_iff nat_less_iff) 
    then have "base_digits 10 (nat w) = [nat w]" by (subst base_digits.simps) simp
    with True len dig \<open>nat w < 10\<close> show ?thesis by (subst whole_loop.simps) (simp add: Let_def)
  next
    case False
    with "1.prems"(1) have w: "10 \<le> w" by (simp add: div_eq_0_iff)
    then have bd: "base_digits 10 (nat w) = base_digits 10 (nat (w div 10)) @ [nat w mod 10]"
      by (subst base_digits.simps) (auto simp: nat_div_distrib nat_less_iff)
    have "whole_loop (w div 10) (buf @ [word_of_int (48 + w mod 10)])
        = (buf @ [word_of_int (48 + w mod 10)]) @ rev (digit_text (base_digits 10 (nat (w div 10))))"
      using "1.prems" w bd by (intro "1.IH" [OF len refl refl False]) simp_all
    with False len dig show ?thesis by (subst whole_loop.simps) (simp add: Let_def bd)
  qed
qed
section \<open>Whole part and fraction\<close>

lemma D_round_small: "\<bar>q\<bar> \<le> 2 ^ 1023 \<Longrightarrow> D_round q = D_fin (rnd q)"
proof -
  assume q: "\<bar>q\<bar> \<le> 2 ^ 1023"
  have top: "rnd (2 ^ 1023) = 2 ^ 1023" using rnd_representable [of 1 1023] by (simp add: power_int_def)
  have "q \<le> 2 ^ 1023" "- (2 ^ 1023) \<le> q" using q by (auto simp: abs_le_iff)
  then have "rnd q \<le> 2 ^ 1023" "- (2 ^ 1023) \<le> rnd q"
    using rnd_mono [of q "2 ^ 1023"] rnd_mono [of "- (2 ^ 1023)" q] unfolding rnd_minus top by blast+
  then have "\<bar>rnd q\<bar> \<le> 2 ^ 1023" by (simp only: abs_le_iff minus_le_iff)
  also have "(2 :: rat) ^ 1023 < 2 ^ 1024" by (rule power_strict_increasing) simp_all
  finally show ?thesis unfolding D_round_def Let_def by simp
qed

lemma below_one:
  assumes "rnd q = q" "0 \<le> q" "q < 1"
  shows "q \<le> 1 - 2 powi (- 53)"
proof (cases "q < 1 / 2")
  case True
  have "(2 :: rat) powi (- 53) \<le> 2 powi (- 1)" unfolding pow2_le_iff by simp
  also have "(2 :: rat) powi (- 1) = 1 / 2" by (simp add: power_int_def)
  finally show ?thesis using True by linarith
next
  case False
  then have "ilog2 \<bar>q\<bar> = - 1" using assms by (intro ilog2_unique) (simp_all add: power_int_def)
  then have lp: "last_place q = - 53" by (simp add: last_place_def)
  define n where "n = half_even (q / 2 powi (- 53))"
  have q: "q = of_int n * 2 powi (- 53)" using assms(1) False unfolding rnd_def lp n_def by auto
  with assms(3) have "of_int n < (2 :: rat) ^ 53" by (simp add: power_int_def field_simps)
  then have "n < 2 ^ 53" by (metis of_int_less_iff of_int_numeral of_int_power)
  then have "of_int n \<le> (of_int (2 ^ 53 - 1) :: rat)" unfolding of_int_le_iff by simp
  then show ?thesis unfolding q by (simp add: power_int_def field_simps)
qed

text \<open>Scaling a fraction by a power of ten does not reach the next whole number.\<close>

lemma scaled_below:
  assumes "rnd q = q" "0 \<le> q" "q < 1" "1 \<le> B" "rnd B = B" "\<And>e. B \<noteq> 2 powi e"
  shows "rnd (q * B) < B"
proof -
  define y where "y = (1 - 2 powi (- 53)) * B"
  have yB: "B - y = B * 2 powi (- 53)" by (simp add: y_def algebra_simps)
  have y: "1 / 2 \<le> y" "y < B" using assms(4) by (simp_all add: y_def power_int_def field_simps)
  have "rnd y \<noteq> B"
  proof
    assume r: "rnd y = B"
    have "(2 :: rat) powi (- 1) < 2 powi (ilog2 y + 1)"
      using y(1) ilog2_bounds(2) [of y] by (simp add: power_int_def)
    then have "- 1022 \<le> ilog2 \<bar>y\<bar>" using y(1) unfolding pow2_less_iff by simp
    then have "2 powi last_place y / 2 = 2 powi ilog2 y * (2 :: rat) powi (- 53)"
      using y power_int_add [of "2 :: rat" "ilog2 y" "- 53"] by (simp add: last_place_def power_int_diff)
    moreover have "\<bar>B - y\<bar> \<le> 2 powi last_place y / 2" using rnd_error [of y] r by simp
    ultimately have "B * 2 powi (- 53) \<le> 2 powi ilog2 y * 2 powi (- 53)" using yB y by simp
    then have "B \<le> 2 powi ilog2 y" by (simp add: power_int_def)
    then show False using ilog2_bounds(1) [of y] y by linarith
  qed
  moreover have "rnd y \<le> B" using rnd_mono [of y B] y assms(5) by simp
  moreover have "rnd (q * B) \<le> rnd y"
    unfolding y_def using below_one [OF assms(1-3)] assms(4) by (intro rnd_mono mult_right_mono) simp_all
  ultimately show ?thesis by linarith
qed
text \<open>The parts \<open>_ftoa\<close> computes, over the rational numbers: scale, round once, round to a whole number.\<close>

definition scaled_fraction :: "rat \<Rightarrow> nat \<Rightarrow> rat" where
  "scaled_fraction q p = rnd ((q - of_int \<lfloor>q\<rfloor>) * 10 ^ p)"

definition decimal :: "rat \<Rightarrow> nat \<Rightarrow> int \<times> int" where
  "decimal q p =
     (let x = scaled_fraction q p; f = \<lfloor>x\<rfloor>; d = x - of_int f
      in if 1 / 2 < d then if 10 ^ p \<le> f + 1 then (\<lfloor>q\<rfloor> + 1, 0) else (\<lfloor>q\<rfloor>, f + 1)
         else if d < 1 / 2 then (\<lfloor>q\<rfloor>, f)
         else if f = 0 \<or> odd f then (\<lfloor>q\<rfloor>, f + 1) else (\<lfloor>q\<rfloor>, f))"

lemma power10_not_power2: "0 < p \<Longrightarrow> (10 :: rat) ^ p \<noteq> 2 powi e"
proof
  assume p: "0 < p" and eq: "(10 :: rat) ^ p = 2 powi e"
  have "(1 :: rat) \<le> 10 ^ p" by (rule one_le_power) simp
  then have "(2 :: rat) powi 0 \<le> 2 powi e" by (simp add: eq)
  then obtain k where e: "e = int k" unfolding pow2_le_iff using nonneg_int_cases by blast
  have "of_nat (10 ^ p) = (of_nat (2 ^ k) :: rat)" using eq e by simp
  then have "(10 :: nat) ^ p = 2 ^ k" unfolding of_nat_eq_iff .
  moreover have "5 dvd (10 :: nat) ^ p" using p by (intro dvd_trans [OF _ dvd_power]) simp_all
  moreover have "\<not> 5 dvd (2 :: nat) ^ k"
  proof (induction k)
    case (Suc k)
    then show ?case unfolding power_Suc by presburger
  qed simp
  ultimately show False by simp
qed

lemma scaled_fraction_bounds:
  assumes "rnd q = q" "0 \<le> q" "p \<le> 9"
  shows "0 \<le> scaled_fraction q p" "scaled_fraction q p < 10 ^ p"
    "rnd (scaled_fraction q p) = scaled_fraction q p"
    "\<bar>scaled_fraction q p - (q - of_int \<lfloor>q\<rfloor>) * 10 ^ p\<bar> \<le> 1 / 2 ^ 22"
proof -
  let ?r = "q - of_int \<lfloor>q\<rfloor>"
  have r: "0 \<le> ?r" "rnd ?r = ?r" using rnd_fraction assms by simp_all
  have "q < of_int \<lfloor>q\<rfloor> + 1" using floor_correct [of q] by simp
  then have r1: "?r < 1" by linarith
  have ten: "(10 :: rat) ^ p \<le> 2 ^ 30" "rnd (10 ^ p) = 10 ^ p"
  proof -
    have "(10 :: int) ^ p \<le> 10 ^ 9" using assms by (intro power_increasing) simp_all
    then have b: "(10 :: int) ^ p \<le> 1000000000" by simp
    then have "of_int (10 ^ p) \<le> (of_int (2 ^ 30) :: rat)" unfolding of_int_le_iff by simp
    then show "(10 :: rat) ^ p \<le> 2 ^ 30" by simp
    have "rnd (of_int (10 ^ p)) = of_int (10 ^ p)" using b by (intro rnd_of_int) (simp add: abs_if)
    then show "rnd (10 ^ p) = 10 ^ p" by simp
  qed
  show "0 \<le> scaled_fraction q p" unfolding scaled_fraction_def using r by (intro rnd_nonneg) simp
  show "rnd (scaled_fraction q p) = scaled_fraction q p" by (simp add: scaled_fraction_def)
  show "scaled_fraction q p < 10 ^ p"
  proof (cases p)
    case 0
    then show ?thesis using r r1 by (simp add: scaled_fraction_def)
  next
    case (Suc n)
    then show ?thesis unfolding scaled_fraction_def using r r1 ten power10_not_power2 [of p]
      by (intro scaled_below) (simp_all add: one_le_power del: power_Suc)
  qed
  have "\<bar>?r * 10 ^ p\<bar> \<le> 1 * 2 ^ 30" using r r1 ten by (simp only: abs_mult) (intro mult_mono, simp_all)
  then have "\<bar>?r * 10 ^ p\<bar> * 2 powi (- 53) + 2 powi (- 1075) \<le> 2 ^ 30 * 2 powi (- 53) + (2 :: rat) powi (- 24)"
    by (intro add_mono mult_right_mono) (simp_all del: power_int_minus_left)
  also have "\<dots> \<le> 1 / 2 ^ 22" by (simp add: power_int_def power_one_over)
  finally show "\<bar>scaled_fraction q p - ?r * 10 ^ p\<bar> \<le> 1 / 2 ^ 22"
    unfolding scaled_fraction_def using rnd_relative [of "?r * 10 ^ p"] by linarith
qed

lemma scaled_floor: "rnd q = q \<Longrightarrow> 0 \<le> q \<Longrightarrow> p \<le> 9 \<Longrightarrow> 0 \<le> \<lfloor>scaled_fraction q p\<rfloor> \<and> \<lfloor>scaled_fraction q p\<rfloor> < 10 ^ p"
  using scaled_fraction_bounds [of q p] by (simp add: floor_less_iff)

lemma word_odd: "word_of_int f AND (1 :: u32) \<noteq> 0 \<longleftrightarrow> odd f"
proof -
  have "even (word_of_int f :: u32) \<longleftrightarrow> even f" by transfer simp
  then have "odd (word_of_int f :: u32) \<longleftrightarrow> odd f" by simp
  then show ?thesis by (simp only: and_one_eq odd_iff_mod_2_eq_one) (metis not_mod_2_eq_1_eq_0 one_neq_zero)
qed

lemma ftoa_split_decimal:
  assumes "rnd q = q" "0 \<le> q" "q < 2 ^ 31 - 1" "p \<le> 9"
  shows "ftoa_split (D_fin q) (of_nat p) = Some (fst (decimal q p), word_of_int (snd (decimal q p)))"
proof -
  define x f where "x = scaled_fraction q p" and "f = \<lfloor>x\<rfloor>"
  note b = scaled_fraction_bounds [OF assms(1,2,4), folded x_def]
  have ten: "(10 :: int) ^ p \<le> 1000000000"
  proof -
    have "(10 :: int) ^ p \<le> 10 ^ 9" using assms(4) by (intro power_increasing) simp_all
    then show ?thesis by simp
  qed
  have f: "0 \<le> f" "f < 10 ^ p" using scaled_floor [OF assms(1,2,4)] by (simp_all add: f_def x_def)
  have small: "D_round r = D_fin (rnd r)" if "\<bar>r\<bar> \<le> 2 ^ 40" for r
    using that by (intro D_round_small order_trans [OF that]) (simp add: power_increasing)
  have whole: "d_to_int (D_fin q) = Some \<lfloor>q\<rfloor>"
    using assms(2,3) by (simp add: int32_def trunc_def le_floor_iff floor_less_iff)
  have power: "unat (of_nat p :: u32) < length pow10" "pow10 ! unat (of_nat p :: u32) = D_fin (10 ^ p)"
  proof -
    have "unat (of_nat p :: u32) = p" using assms(4) by (simp add: unat_of_nat32)
    moreover have "p \<in> {0, 1, 2, 3, 4, 5, 6, 7, 8, 9}" using assms(4) by auto
    ultimately show "unat (of_nat p :: u32) < length pow10" "pow10 ! unat (of_nat p :: u32) = D_fin (10 ^ p)"
      by (auto simp: pow10_def)
  qed
  have tmp: "d_mul (d_sub (D_fin q) (d_of_int \<lfloor>q\<rfloor>)) (D_fin (10 ^ p)) = D_fin x"
  proof -
    have r: "\<bar>q - of_int \<lfloor>q\<rfloor>\<bar> \<le> 1" by (simp add: abs_le_iff) linarith
    have "\<bar>(q - of_int \<lfloor>q\<rfloor>) * 10 ^ p\<bar> \<le> 1 * of_int 1000000000"
      unfolding abs_mult using r ten by (intro mult_mono) (simp_all flip: of_int_le_iff [where 'a = rat])
    then have s: "\<bar>(q - of_int \<lfloor>q\<rfloor>) * 10 ^ p\<bar> \<le> 2 ^ 40" by simp
    have "d_sub (D_fin q) (d_of_int \<lfloor>q\<rfloor>) = D_fin (q - of_int \<lfloor>q\<rfloor>)"
      using small [of "q - of_int \<lfloor>q\<rfloor>"] r rnd_fraction [OF assms(1,2)] by (simp add: d_sub_def d_of_int_def)
    then show ?thesis using small [OF s] by (simp add: x_def scaled_fraction_def)
  qed
  have frc: "d_to_u32 (D_fin x) = Some (word_of_int f)"
  proof -
    have "x < of_int (10 ^ p)" using b(2) by simp
    also have "\<dots> \<le> (of_int (2 ^ 32) :: rat)" using ten unfolding of_int_le_iff by simp
    finally show ?thesis using b(1) by (simp add: trunc_def f_def floor_less_iff)
  qed
  have word: "uint (word_of_int k :: u32) = k" if "0 \<le> k" "k \<le> 1000000000" for k
    using that by (simp add: unsigned_of_int take_bit_int_eq_self)
  have diff: "d_sub (D_fin x) (d_of_int (uint (word_of_int f :: u32))) = D_fin (x - of_int f)"
  proof -
    have "\<bar>x - of_int f\<bar> \<le> 2 ^ 40" by (simp add: f_def abs_le_iff) linarith
    moreover have "uint (word_of_int f :: u32) = f" using f ten by (intro word) simp_all
    ultimately show ?thesis
      using rnd_fraction [OF b(3,1)] small [of "x - of_int f"] by (simp only: d_sub_def d_of_int_def f_def d_minus.simps d_add.simps add_uminus_conv_diff)
  qed
  have up: "uint (word_of_int f + 1 :: u32) = f + 1"
    using word [of "f + 1"] f ten by simp
  have w1: "int32 (\<lfloor>q\<rfloor> + 1) = Some (\<lfloor>q\<rfloor> + 1)"
    using assms(2,3) by (simp add: int32_def le_floor_iff floor_less_iff)
  have cmp: "\<not> d_less (d_of_int (f + 1)) (D_fin (10 ^ p)) \<longleftrightarrow> 10 ^ p \<le> f + 1"
  proof -
    have "(of_int (f + 1) :: rat) < of_int (10 ^ p) \<longleftrightarrow> f + 1 < 10 ^ p" by (rule of_int_less_iff)
    then show ?thesis by (simp add: d_of_int_def not_less)
  qed
  have zero: "word_of_int f = (0 :: u32) \<longleftrightarrow> f = 0"
  proof -
    have "uint (word_of_int f :: u32) = f" using f ten by (intro word) simp_all
    then show ?thesis by (metis of_int_0 unsigned_0)
  qed
  have "ftoa_split (D_fin q) (of_nat p) =
      (if 1 / 2 < x - of_int f then if 10 ^ p \<le> f + 1 then Some (\<lfloor>q\<rfloor> + 1, 0) else Some (\<lfloor>q\<rfloor>, word_of_int f + 1)
       else if x - of_int f < 1 / 2 then Some (\<lfloor>q\<rfloor>, word_of_int f)
       else if f = 0 \<or> odd f then Some (\<lfloor>q\<rfloor>, word_of_int f + 1) else Some (\<lfloor>q\<rfloor>, word_of_int f))"
    unfolding ftoa_split_def whole bind.simps if_P [OF power(1)] power(2) Let_def tmp frc diff up cmp w1 word_odd zero half_def
    by simp
  then show ?thesis
    unfolding decimal_def Let_def f_def [symmetric] x_def [symmetric] by simp
qed
section \<open>Accuracy\<close>

text \<open>
  In one case the rounding carries into a further decimal: the scaled fraction lies half-way below
  the next whole number, and only the first branch of the code checks for the carry.
\<close>

definition carries :: "rat \<Rightarrow> nat \<Rightarrow> bool" where
  "carries q p \<longleftrightarrow> 0 < p \<and> scaled_fraction q p = 10 ^ p - 1 / 2"

lemma decimal_parts:
  assumes "rnd q = q" "0 \<le> q" "p \<le> 9" "0 < p" "\<not> carries q p"
    and d: "decimal q p = (w, f)"
  shows "0 \<le> w" "w \<le> \<lfloor>q\<rfloor> + 1" "0 \<le> f" "f < 10 ^ p"
    "\<bar>of_int (w * 10 ^ p + f) - q * 10 ^ p\<bar> \<le> 1 / 2 + 1 / 2 ^ 22"
proof -
  define x g where "x = scaled_fraction q p" and "g = \<lfloor>x\<rfloor>"
  have g: "0 \<le> g" "g < 10 ^ p" using scaled_floor [OF assms(1-3)] by (simp_all add: g_def x_def)
  have q0: "0 \<le> \<lfloor>q\<rfloor>" using assms(2) by simp
  have odd: "g \<noteq> 10 ^ p - 1" if "x - of_int g = 1 / 2"
  proof
    assume "g = 10 ^ p - 1"
    then have "of_int g = (10 ^ p - 1 :: rat)" by simp
    with that have "x = 10 ^ p - 1 / 2" by (simp add: algebra_simps)
    with assms(4,5) show False by (simp add: carries_def x_def)
  qed
  have g1: "of_int g \<le> x" "x < of_int g + 1" using floor_correct [of x] by (simp_all add: g_def)
  have wf: "\<bar>of_int (w * 10 ^ p + f) - (of_int (\<lfloor>q\<rfloor> * 10 ^ p) + x)\<bar> \<le> 1 / 2
      \<and> (w = \<lfloor>q\<rfloor> \<or> w = \<lfloor>q\<rfloor> + 1) \<and> 0 \<le> f \<and> f < 10 ^ p"
  proof -
    consider "1 / 2 < x - of_int g" "10 ^ p \<le> g + 1" | "1 / 2 < x - of_int g" "g + 1 < 10 ^ p"
      | "x - of_int g < 1 / 2" | "x - of_int g = 1 / 2" "g = 0 \<or> odd g" | "x - of_int g = 1 / 2" "g \<noteq> 0" "even g"
      by linarith
    then show ?thesis
    proof cases
      case 1
      then have "w = \<lfloor>q\<rfloor> + 1" "f = 0" using d by (simp_all add: decimal_def Let_def x_def g_def)
      moreover have "g + 1 = 10 ^ p" using 1 g by simp
      then have "of_int (\<lfloor>q\<rfloor> * 10 ^ p + (g + 1)) = (of_int ((\<lfloor>q\<rfloor> + 1) * 10 ^ p + 0) :: rat)"
        unfolding of_int_eq_iff by (simp add: algebra_simps)
      then have "\<bar>of_int ((\<lfloor>q\<rfloor> + 1) * 10 ^ p + 0) - (of_int (\<lfloor>q\<rfloor> * 10 ^ p) + x)\<bar> \<le> 1 / 2"
        using 1 g1 by (simp only: of_int_add of_int_1 abs_le_iff) linarith
      ultimately show ?thesis by simp
    next
      case 2
      then have "w = \<lfloor>q\<rfloor>" "f = g + 1" using d by (simp_all add: decimal_def Let_def x_def g_def)
      then show ?thesis using 2 g g1 by (simp add: abs_le_iff)
    next
      case 3
      then have "w = \<lfloor>q\<rfloor>" "f = g" using d by (simp_all add: decimal_def Let_def x_def g_def)
      then show ?thesis using 3 g g1 by (simp add: abs_le_iff)
    next
      case 4
      then have "w = \<lfloor>q\<rfloor>" "f = g + 1" using d by (simp_all add: decimal_def Let_def x_def g_def)
      then show ?thesis using 4 g g1 odd by (simp add: abs_le_iff)
    next
      case 5
      then have "w = \<lfloor>q\<rfloor>" "f = g" using d by (simp_all add: decimal_def Let_def x_def g_def)
      then show ?thesis using 5 g g1 by (simp add: abs_le_iff)
    qed
  qed
  then show "0 \<le> w" "w \<le> \<lfloor>q\<rfloor> + 1" "0 \<le> f" "f < 10 ^ p" using q0 by auto
  have "of_int (\<lfloor>q\<rfloor> * 10 ^ p) + x - q * 10 ^ p = x - (q - of_int \<lfloor>q\<rfloor>) * 10 ^ p" by (simp add: algebra_simps)
  then have "\<bar>of_int (\<lfloor>q\<rfloor> * 10 ^ p) + x - q * 10 ^ p\<bar> \<le> 1 / 2 ^ 22"
    using scaled_fraction_bounds(4) [OF assms(1-3)] by (simp only: x_def)
  then show "\<bar>of_int (w * 10 ^ p + f) - q * 10 ^ p\<bar> \<le> 1 / 2 + 1 / 2 ^ 22" using wf by linarith
qed

lemma digit_text_numeral: "digit_text (base_digits 10 n) = numeral_text flags 10 n"
proof -
  have "digit_char flags (of_nat d) = 48 + of_nat d" if "d \<in> set (base_digits 10 n)" for d
    using base_digits_less [OF _ that] by (simp add: digit_char_def word_less_nat_alt unat_of_nat)
  then show ?thesis by (simp add: digit_text_def numeral_text_def)
qed

text \<open>The precision a conversion works with, and the text of its digits.\<close>

definition effective_precision :: "u32 \<Rightarrow> u32 \<Rightarrow> nat" where
  "effective_precision prec flags = unat (if has flags FLAGS_PRECISION then prec else DEFAULT_FLOAT_PRECISION)"

lemma ftoa_number_decimal:
  assumes "rnd v = v" "\<bar>v\<bar> < 2 ^ 31 - 1" "p = effective_precision prec flags" "0 < p" "p \<le> 9"
    and "\<not> carries \<bar>v\<bar> p" "decimal \<bar>v\<bar> p = (w, f)"
  shows "ftoa_number (D_fin v) prec flags
    = Some (v < 0, rev (numeral_text 0 10 (nat w) @ [c_dot] @ rev (digit_text (last_digits p (nat f)))))"
proof -
  define P where "P = (if has flags FLAGS_PRECISION then prec else DEFAULT_FLOAT_PRECISION)"
  have P: "unat P = p" using assms(3) by (simp add: P_def effective_precision_def)
  then have Pn: "P = of_nat p" by (simp flip: P)
  have abs: "rnd \<bar>v\<bar> = \<bar>v\<bar>" "0 \<le> \<bar>v\<bar>" using assms(1) by (simp_all add: abs_if)
  note parts = decimal_parts [OF abs assms(5,4,6,7)]
  have "\<bar>v\<bar> < of_int (2 ^ 31 - 1)" using assms(2) by simp
  then have fl: "\<lfloor>\<bar>v\<bar>\<rfloor> < 2 ^ 31 - 1" unfolding floor_less_iff .
  have small: "D_round (- v) = D_fin (- v)"
    using assms(1,2) D_round_small [of "- v"] by (simp add: order_trans [OF less_imp_le])
  have pos: "(if d_less (D_fin v) (D_fin 0) then d_sub (D_fin 0) (D_fin v) else D_fin v) = D_fin \<bar>v\<bar>"
    using small by (simp add: d_sub_def abs_if)
  have limit: "limit_precision P [] = (P, [])" using assms(5) P by (simp add: limit_precision_eq Let_def)
  have split: "ftoa_split (D_fin \<bar>v\<bar>) P = Some (w, word_of_int f)"
    unfolding Pn using ftoa_split_decimal [OF abs assms(2,5)] assms(7) by simp
  have f: "unat (word_of_int f :: u32) = nat f"
  proof -
    have "(10 :: int) ^ p \<le> 10 ^ 9" using assms(5) by (intro power_increasing) simp_all
    then have "f < 2 ^ 32" using parts(4) by simp
    then show ?thesis using parts(3) by (simp add: unsigned_of_int take_bit_int_eq_self flip: nat_uint_eq)
  qed
  have "nat f < 10 ^ p" using parts(3,4) by (simp add: nat_less_iff)
  then have "(case frac_loop (word_of_int f) P [] of (n, buf) \<Rightarrow> extra_zeros n buf) = digit_text (last_digits p (nat f))"
    using frac_loop_digits [of P "word_of_int f" "[]"] assms(4,5) P f by simp
  then have decimals: "ftoa_decimals (word_of_int f) P [] = digit_text (last_digits p (nat f)) @ [c_dot]"
    using assms(5) by (simp add: ftoa_decimals_def Let_def FTOA_BUFFER_SIZE_def split_def)
  have "a \<le> b + 1 \<Longrightarrow> b < 2 ^ 31 - 1 \<Longrightarrow> a < 10000000000" for a b :: int by simp
  from this [OF parts(2) fl] have "length (base_digits 10 (nat w)) \<le> Suc 9"
    using parts(1) by (intro base_digits_length) (simp_all add: nat_less_iff)
  then have whole: "whole_loop w (digit_text (last_digits p (nat f)) @ [c_dot])
      = digit_text (last_digits p (nat f)) @ [c_dot] @ rev (numeral_text 0 10 (nat w))"
    using whole_loop_digits [OF parts(1)] assms(5) by (simp add: digit_text_numeral [of _ 0])
  have "P \<noteq> 0" using P assms(4) by auto
  then show ?thesis
    unfolding ftoa_number_def Let_def P_def [symmetric] pos limit prod.case split
    by (simp add: decimals whole)
qed

text \<open>Without decimals the value is rounded to a whole number, ties to even.\<close>

lemma ftoa_whole:
  assumes "rnd q = q" "0 \<le> q" "q < 2 ^ 31 - 1"
  shows "ftoa_split (D_fin q) 0 = Some (fst (decimal q 0), word_of_int (snd (decimal q 0)))"
    and "ftoa_even (D_fin q) (fst (decimal q 0)) = Some (half_even q)"
proof -
  show "ftoa_split (D_fin q) 0 = Some (fst (decimal q 0), word_of_int (snd (decimal q 0)))"
    using ftoa_split_decimal [OF assms, of 0] by simp
  let ?w = "\<lfloor>q\<rfloor>"
  have fr: "0 \<le> q - of_int ?w" "q - of_int ?w < 1" using floor_correct [of q] by simp_all
  have x: "scaled_fraction q 0 = q - of_int ?w"
    using rnd_fraction [OF assms(1,2)] by (simp add: scaled_fraction_def)
  have fl: "\<lfloor>q - of_int ?w\<rfloor> = 0" using fr by (simp add: floor_eq_iff)
  have d: "fst (decimal q 0) = (if 1 / 2 < q - of_int ?w then ?w + 1 else ?w)"
    by (simp add: decimal_def Let_def x fl)
  have neg: "rnd (q - of_int (?w + 1)) \<le> 0"
    using rnd_mono [of "q - of_int (?w + 1)" 0] fr(2) by (simp add: algebra_simps)
  have D: "D_round r = D_fin (rnd r)" if "\<bar>r\<bar> \<le> 1" for r
    using that by (intro D_round_small order_trans [OF that]) simp
  have "\<bar>q - of_int (?w + 1)\<bar> \<le> 1" "\<bar>q - of_int ?w\<bar> \<le> 1" using fr by (simp_all add: abs_le_iff)
  note D' = D [OF this(1)] D [OF this(2)]
  have w1: "int32 (?w + 1) = Some (?w + 1)"
    using assms(2,3) by (simp add: int32_def le_floor_iff floor_less_iff)
  show "ftoa_even (D_fin q) (fst (decimal q 0)) = Some (half_even q)"
  proof (cases "1 / 2 < q - of_int ?w")
    case True
    then have "ftoa_even (D_fin q) (?w + 1) = Some (?w + 1)"
      using D'(1) neg by (simp add: ftoa_even_def Let_def d_sub_def d_of_int_def half_def del: of_int_add)
    with True show ?thesis by (simp add: d half_even_def Let_def)
  next
    case False
    then show ?thesis
      using D'(2) w1 rnd_fraction [OF assms(1,2)] fr
      by (auto simp: d half_even_def Let_def ftoa_even_def d_sub_def d_of_int_def half_def)
  qed
qed

lemma ftoa_number_whole:
  assumes "rnd v = v" "\<bar>v\<bar> < 2 ^ 31 - 1" "effective_precision prec flags = 0"
  shows "ftoa_number (D_fin v) prec flags = Some (v < 0, rev (numeral_text 0 10 (nat (half_even \<bar>v\<bar>))))"
    and "0 \<le> half_even \<bar>v\<bar>" "half_even \<bar>v\<bar> < 10 ^ 10"
proof -
  define P where "P = (if has flags FLAGS_PRECISION then prec else DEFAULT_FLOAT_PRECISION)"
  have P: "P = 0" using assms(3) by (simp add: P_def effective_precision_def unat_eq_0)
  have abs: "rnd \<bar>v\<bar> = \<bar>v\<bar>" "0 \<le> \<bar>v\<bar>" using assms(1) by (simp_all add: abs_if)
  have "D_round (- v) = D_fin (- v)"
    using assms(1,2) D_round_small [of "- v"] by (simp add: order_trans [OF less_imp_le])
  then have pos: "(if d_less (D_fin v) (D_fin 0) then d_sub (D_fin 0) (D_fin v) else D_fin v) = D_fin \<bar>v\<bar>"
    by (simp add: d_sub_def abs_if)
  have limit: "limit_precision 0 [] = (0, [])" by (simp add: limit_precision_eq)
  show h: "0 \<le> half_even \<bar>v\<bar>" using half_even_mono [OF abs(2)] half_even_of_int [of 0] by simp
  have "half_even \<bar>v\<bar> \<le> half_even (of_int (2 ^ 31 - 1))" using assms(2) by (intro half_even_mono) simp
  then show h10: "half_even \<bar>v\<bar> < 10 ^ 10" unfolding half_even_of_int by simp
  have "length (base_digits 10 (nat (half_even \<bar>v\<bar>))) \<le> Suc 9"
    using h h10 by (intro base_digits_length) (simp_all add: nat_less_iff)
  then have whole: "whole_loop (half_even \<bar>v\<bar>) [] = rev (numeral_text 0 10 (nat (half_even \<bar>v\<bar>)))"
    using whole_loop_digits [OF h, of "[]"] by (simp add: digit_text_numeral [of _ 0])
  show "ftoa_number (D_fin v) prec flags = Some (v < 0, rev (numeral_text 0 10 (nat (half_even \<bar>v\<bar>))))"
    unfolding ftoa_number_def Let_def P_def [symmetric] pos P limit prod.case ftoa_whole [OF abs assms(2)] bind.simps
    by (simp add: whole)
qed

text \<open>Without a width and without flags the digits are printed as they are.\<close>

lemma not_large: "\<bar>v\<bar> < 2 ^ 31 - 1 \<Longrightarrow> \<not> ftoa_large (D_fin v)"
  by (simp add: ftoa_large_def PRINTF_MAX_FLOAT_def abs_less_iff)

lemma ftoa_text_plain:
  assumes "flags = 0 \<or> flags = FLAGS_PRECISION" "ftoa_special val flags = None" "\<not> ftoa_large val"
    and "ftoa_number val prec flags = Some (negative, rev t)" "length t < 32"
  shows "ftoa_text val prec 0 flags = Some ((if negative then [c_minus] else []) @ t)"
proof -
  have no: "\<not> has flags FLAGS_LEFT" "\<not> has flags FLAGS_ZEROPAD" "\<not> has flags FLAGS_PLUS" "\<not> has flags FLAGS_SPACE"
    using assms(1) by (auto simp: has_def flag_bits)
  then show ?thesis
    using assms(2-5)
    by (simp add: ftoa_text_def ftoa_buf_def ftoa_pad_def ftoa_sign_def rev_text_def Let_def FTOA_BUFFER_SIZE_def)
qed

lemma ftoa_plain:
  assumes "flags = 0 \<or> flags = FLAGS_PRECISION" "ftoa_special val flags = None" "\<not> ftoa_large val"
    and "ftoa_number val prec flags = Some (negative, rev t)" "length t < 32"
  shows "ftoa out buffer maxlen val prec 0 flags o'
    = Some (emits out buffer maxlen ((if negative then [c_minus] else []) @ t) o')"
  using ftoa_emits [of val flags out buffer maxlen prec 0 o'] ftoa_text_plain [OF assms] assms(3) by simp

lemma numeral_text_size: "n < 10 ^ 10 \<Longrightarrow> length (numeral_text fl 10 n) \<le> 10"
  using base_digits_length [of 10 n 9] by (simp add: numeral_text_def)

lemma digit_text_digits: "c \<in> set (digit_text (last_digits n f)) \<Longrightarrow> is_digit c"
proof -
  have "is_digit (48 + of_nat d)" if "d < 10" for d
  proof -
    from that have "d \<in> {0, 1, 2, 3, 4, 5, 6, 7, 8, 9}" by auto
    then show ?thesis by (auto simp: is_digit_def)
  qed
  then show "c \<in> set (digit_text (last_digits n f)) \<Longrightarrow> is_digit c"
    using last_digits_less [of _ n f] by (auto simp: digit_text_def)
qed

end
