(* ===== verification/ExpBound.thy ===== *)
theory ExpBound
  imports Complex_Main
begin

text \<open>
  Bounds on the logarithm and the exponential function: the constants of \<open>_etoa\<close> against the logarithms
  they stand for, and its continued fraction against \<open>exp\<close>.
\<close>

section \<open>Logarithms of rationals\<close>

text \<open>The first terms of the series of \<open>ln ((1 + x) / (1 - x))\<close>.\<close>

definition ratio_series :: "nat \<Rightarrow> real \<Rightarrow> real" where
  "ratio_series n x = 2 * (\<Sum>k<n. x ^ (2 * k + 1) / (2 * real k + 1))"

lemma monomial_deriv: "DERIV (\<lambda>x. x ^ (2 * k + 1) / (2 * real k + 1)) x :> x ^ (2 * k)"
  by (rule derivative_eq_intros refl | simp)+ (simp add: field_simps)

lemma ratio_series_deriv:
  assumes "0 \<le> x" "x < 1"
  shows "DERIV (\<lambda>x. ln (1 + x) - ln (1 - x) - ratio_series n x) x :> 2 * x ^ (2 * n) / (1 - x\<^sup>2)"
proof -
  have sq: "x\<^sup>2 < 1" using assms by (simp add: abs_square_less_1)
  have "DERIV (ratio_series n) x :> 2 * (\<Sum>k<n. x ^ (2 * k))"
    unfolding ratio_series_def by (intro DERIV_cmult DERIV_sum monomial_deriv)
  moreover have "DERIV (\<lambda>x. ln (1 + x) - ln (1 - x)) x :> 1 / (1 + x) + 1 / (1 - x)"
    using assms by (auto intro!: derivative_eq_intros simp: divide_simps)
  ultimately have "DERIV (\<lambda>x. ln (1 + x) - ln (1 - x) - ratio_series n x) x
      :> 1 / (1 + x) + 1 / (1 - x) - 2 * (\<Sum>k<n. x ^ (2 * k))" by (intro DERIV_diff)
  moreover have "(\<Sum>k<n. x ^ (2 * k)) = (1 - x ^ (2 * n)) / (1 - x\<^sup>2)"
    unfolding power_mult using sq by (subst sum_gp_strict) simp
  moreover have "1 / (1 + x) + 1 / (1 - x) = 2 / (1 - x\<^sup>2)"
    using assms sq by (simp add: field_simps power2_eq_square)
  ultimately show ?thesis by (simp add: diff_divide_distrib [symmetric])
qed

lemma ln_ratio_series:
  assumes "0 \<le> x" "x < 1"
  shows "ratio_series n x \<le> ln ((1 + x) / (1 - x))"
    and "ln ((1 + x) / (1 - x)) \<le> ratio_series n x + 2 * x ^ (2 * n + 1) / ((2 * real n + 1) * (1 - x\<^sup>2))"
proof -
  let ?f = "\<lambda>x. ln (1 + x) - ln (1 - x) - ratio_series n x"
  let ?g = "\<lambda>t. ?f t - 2 / (1 - x\<^sup>2) * (t ^ (2 * n + 1) / (2 * real n + 1))"
  have ln: "ln ((1 + x) / (1 - x)) = ln (1 + x) - ln (1 - x)" using assms by (simp add: ln_div)
  have zero: "?f 0 = 0" by (simp add: ratio_series_def)
  have sq: "t\<^sup>2 \<le> x\<^sup>2" "x\<^sup>2 < 1" if "0 \<le> t" "t \<le> x" for t
    using that assms by (simp_all add: power_mono abs_square_less_1)
  have "?f 0 \<le> ?f x"
  proof (rule DERIV_nonneg_imp_nondecreasing [OF assms(1)])
    fix t assume "0 \<le> t" "t \<le> x"
    then have "0 \<le> 2 * t ^ (2 * n) / (1 - t\<^sup>2)" "DERIV ?f t :> 2 * t ^ (2 * n) / (1 - t\<^sup>2)"
      using sq [of t] assms order.strict_implies_order [OF le_less_trans [OF sq]] by (auto intro!: divide_nonneg_nonneg ratio_series_deriv)
    then show "\<exists>y. DERIV ?f t :> y \<and> 0 \<le> y" by blast
  qed
  with zero show "ratio_series n x \<le> ln ((1 + x) / (1 - x))" unfolding ln by simp
  have "?g x \<le> ?g 0"
  proof (rule DERIV_nonpos_imp_nonincreasing [OF assms(1)])
    fix t assume t: "0 \<le> t" "t \<le> x"
    have "DERIV (\<lambda>t. 2 / (1 - x\<^sup>2) * (t ^ (2 * n + 1) / (2 * real n + 1))) t :> 2 / (1 - x\<^sup>2) * t ^ (2 * n)"
      by (intro DERIV_cmult monomial_deriv)
    with ratio_series_deriv [of t n] t assms
    have "DERIV ?g t :> 2 * t ^ (2 * n) / (1 - t\<^sup>2) - 2 / (1 - x\<^sup>2) * t ^ (2 * n)" by (intro DERIV_diff) simp_all
    moreover have "2 * t ^ (2 * n) / (1 - t\<^sup>2) \<le> 2 * t ^ (2 * n) / (1 - x\<^sup>2)"
      using sq [OF t] t by (intro frac_le) simp_all
    then have "2 * t ^ (2 * n) / (1 - t\<^sup>2) - 2 / (1 - x\<^sup>2) * t ^ (2 * n) \<le> 0" by simp
    ultimately show "\<exists>y. DERIV ?g t :> y \<and> y \<le> 0" by blast
  qed
  with zero show "ln ((1 + x) / (1 - x)) \<le> ratio_series n x + 2 * x ^ (2 * n + 1) / ((2 * real n + 1) * (1 - x\<^sup>2))"
    unfolding ln by (simp add: mult.commute)
qed

lemma within: "c - e \<le> x \<Longrightarrow> x \<le> c + e \<Longrightarrow> \<bar>x - c\<bar> \<le> (e :: 'a :: linordered_field)"
  by (simp add: abs_le_iff)

lemma withinD:
  "\<bar>x - c\<bar> \<le> (e :: 'a :: linordered_field) \<Longrightarrow> c - e \<le> x"
  "\<bar>x - c\<bar> \<le> (e :: 'a :: linordered_field) \<Longrightarrow> x \<le> c + e"
  by (simp_all add: abs_le_iff algebra_simps)

lemma ln2_bounds: "\<bar>ln 2 - 0.6931471805599453\<bar> \<le> (1 / 10 ^ 15 :: real)"
  using ln_ratio_series [of "1 / 3" 16]
  by (intro within) (simp_all add: ratio_series_def lessThan_nat_numeral lessThan_Suc power_divide)

lemma ln10_bounds: "\<bar>ln 10 - 2.302585092994046\<bar> \<le> (1 / 10 ^ 15 :: real)"
proof -
  have "ln (10 :: real) = ln (2 ^ 3 * (5 / 4))" by simp
  also have "\<dots> = 3 * ln 2 + ln (5 / 4)" by (subst ln_mult) (simp_all add: ln_realpow del: power_numeral)
  finally show ?thesis
    using ln_ratio_series [of "1 / 3" 17] ln_ratio_series [of "1 / 9" 9]
    by (intro within) (simp_all add: ratio_series_def lessThan_nat_numeral lessThan_Suc power_divide)
qed

lemma ln_three_halves: "\<bar>ln (3 / 2) - 0.405465108108164\<bar> \<le> (1 / 10 ^ 12 :: real)"
  using ln_ratio_series [of "1 / 5" 9]
  by (intro within) (simp_all add: ratio_series_def lessThan_nat_numeral lessThan_Suc power_divide)

lemmas ln_intervals = withinD [OF ln2_bounds] withinD [OF ln10_bounds] withinD [OF ln_three_halves]

section \<open>The continued fraction\<close>

definition exp_fraction :: "'a \<Rightarrow> 'a :: field" where
  "exp_fraction z = 1 + 2 * z / (2 - z + z\<^sup>2 / (6 + z\<^sup>2 / (10 + z\<^sup>2 / 14)))"

definition exp_poly :: "real \<Rightarrow> real" where
  "exp_poly z = 1680 + 840 * z + 180 * z\<^sup>2 + 20 * z ^ 3 + z ^ 4"

lemma exp_poly_pos: "\<bar>z\<bar> \<le> 21 / 20 \<Longrightarrow> 0 < exp_poly z"
proof -
  assume "\<bar>z\<bar> \<le> 21 / 20"
  then have "0 \<le> 1680 + 840 * z - 798" by (simp add: abs_le_iff)
  moreover have "180 * z\<^sup>2 + 20 * z ^ 3 = z\<^sup>2 * (180 + 20 * z)" by (simp add: power2_eq_square power3_eq_cube algebra_simps)
  then have "0 \<le> 180 * z\<^sup>2 + 20 * z ^ 3" using \<open>\<bar>z\<bar> \<le> 21 / 20\<close> by (simp add: abs_le_iff)
  moreover have "0 \<le> z ^ 4" by simp
  ultimately show ?thesis unfolding exp_poly_def by linarith
qed

lemma exp_fraction_poly:
  assumes "\<bar>z\<bar> \<le> 21 / 20"
  shows "exp_fraction z = exp_poly z / exp_poly (- z)"
proof -
  have q: "0 < exp_poly (- z)" using assms by (intro exp_poly_pos) simp
  have d: "10 + z\<^sup>2 / 14 = (140 + z\<^sup>2) / 14" "140 + z\<^sup>2 \<noteq> 0" "840 + 20 * z\<^sup>2 \<noteq> 0"
    using zero_le_power2 [of z] by (simp_all add: field_simps add_nonneg_eq_0_iff)
  have "6 + z\<^sup>2 / (10 + z\<^sup>2 / 14) = (840 + 20 * z\<^sup>2) / (140 + z\<^sup>2)"
    unfolding d(1) using d by (simp add: field_simps)
  then have "2 - z + z\<^sup>2 / (6 + z\<^sup>2 / (10 + z\<^sup>2 / 14)) = exp_poly (- z) / (840 + 20 * z\<^sup>2)"
    using d by (simp add: exp_poly_def field_simps power2_eq_square power3_eq_cube power4_eq_xxxx)
  then show ?thesis
    unfolding exp_fraction_def using d q
    by (simp add: field_simps) (simp add: exp_poly_def field_simps power2_eq_square power3_eq_cube power4_eq_xxxx)
qed

lemma exp_poly_product: "\<bar>z\<bar> \<le> 21 / 20 \<Longrightarrow> 2700000 \<le> exp_poly z * exp_poly (- z)"
proof -
  assume z: "\<bar>z\<bar> \<le> 21 / 20"
  define s where "s = z\<^sup>2"
  have "\<bar>z\<bar>\<^sup>2 \<le> (21 / 20)\<^sup>2" using z by (intro power_mono) simp_all
  then have s: "0 \<le> s" "s \<le> 441 / 400" by (simp_all add: s_def power2_eq_square)
  have "exp_poly z * exp_poly (- z) = (1680 + 180 * s + s\<^sup>2)\<^sup>2 - s * (840 + 20 * s)\<^sup>2"
    unfolding exp_poly_def s_def by (simp add: power2_eq_square power3_eq_cube power4_eq_xxxx algebra_simps)
  also have "\<dots> = 2822400 - s * (100800 - 2160 * s + 40 * s\<^sup>2) + s ^ 4"
    by (simp add: power2_eq_square power3_eq_cube power4_eq_xxxx algebra_simps)
  finally have e: "exp_poly z * exp_poly (- z) = 2822400 - s * (100800 - 2160 * s + 40 * s\<^sup>2) + s ^ 4" .
  have "s\<^sup>2 \<le> 2" using s power_mono [of s "441 / 400" 2] by (simp add: power2_eq_square)
  then have "s * (100800 - 2160 * s + 40 * s\<^sup>2) \<le> 441 / 400 * (100800 + 80)"
    using s by (intro mult_mono) simp_all
  then have "s * (100800 - 2160 * s + 40 * s\<^sup>2) \<le> 122400" by simp
  with e show ?thesis using zero_le_power [OF s(1), of 4] by linarith
qed

text \<open>The error of the fraction is of the ninth order.\<close>

lemma exp_fraction_deriv:
  assumes "\<bar>z\<bar> \<le> 21 / 20"
  shows "DERIV (\<lambda>z. ln (exp_poly z) - ln (exp_poly (- z)) - z) z :> - (z ^ 8) / (exp_poly z * exp_poly (- z))"
proof -
  have pos: "0 < exp_poly z" "0 < exp_poly (- z)" using assms by (simp_all add: exp_poly_pos)
  define d where "d z = 840 + 360 * z + 60 * z\<^sup>2 + 4 * z ^ 3" for z :: real
  have p: "DERIV exp_poly z :> d z" for z
    unfolding exp_poly_def d_def by (rule derivative_eq_intros refl | simp)+
  have "DERIV (\<lambda>z. exp_poly (- z)) z :> d (- z) * (- 1)"
    by (rule DERIV_chain2 [OF p]) (auto intro!: derivative_eq_intros)
  note q = this
  have "DERIV (\<lambda>z. ln (exp_poly z) - ln (exp_poly (- z)) - z) z
      :> 1 / exp_poly z * d z - 1 / exp_poly (- z) * (d (- z) * (- 1)) - 1"
    by (intro DERIV_diff DERIV_chain2 [OF DERIV_ln_divide] p q pos DERIV_ident)
  moreover have "1 / exp_poly z * d z - 1 / exp_poly (- z) * (d (- z) * (- 1)) - 1
      = (d z * exp_poly (- z) + d (- z) * exp_poly z - exp_poly z * exp_poly (- z)) / (exp_poly z * exp_poly (- z))"
    using pos by (simp add: field_simps)
  moreover have "d z * exp_poly (- z) + d (- z) * exp_poly z - exp_poly z * exp_poly (- z) = - (z ^ 8)"
    unfolding d_def exp_poly_def by (simp add: eval_nat_numeral algebra_simps)
  ultimately show ?thesis by simp
qed

lemma exp_fraction_ln:
  fixes z :: real
  assumes z: "\<bar>z\<bar> \<le> 21 / 20"
  shows "\<bar>ln (exp_fraction z) - z\<bar> \<le> 7 / 10 ^ 8"
proof -
  let ?f = "\<lambda>z. ln (exp_poly z) - ln (exp_poly (- z)) - z"
  let ?c = "1 / (9 * 2700000) :: real"
  let ?g = "\<lambda>z. ?f z + ?c * z ^ 9"
  have f: "\<exists>y. DERIV ?f t :> y \<and> y \<le> 0" and g: "\<exists>y. DERIV ?g t :> y \<and> 0 \<le> y" if t: "\<bar>t\<bar> \<le> 21 / 20" for t
  proof -
    have pq: "2700000 \<le> exp_poly t * exp_poly (- t)" by (rule exp_poly_product [OF t])
    then have "- (t ^ 8) / (exp_poly t * exp_poly (- t)) \<le> 0" by (simp add: divide_nonpos_pos)
    with exp_fraction_deriv [OF t] show "\<exists>y. DERIV ?f t :> y \<and> y \<le> 0" by blast
    have "DERIV (\<lambda>z. ?c * z ^ 9) t :> ?c * (9 * t ^ 8)" by (auto intro!: derivative_eq_intros)
    with exp_fraction_deriv [OF t]
    have "DERIV ?g t :> - (t ^ 8) / (exp_poly t * exp_poly (- t)) + ?c * (9 * t ^ 8)" by (intro DERIV_add)
    moreover have "t ^ 8 / (exp_poly t * exp_poly (- t)) \<le> t ^ 8 / 2700000" using pq by (intro frac_le) simp_all
    then have "0 \<le> - (t ^ 8) / (exp_poly t * exp_poly (- t)) + ?c * (9 * t ^ 8)" by simp
    ultimately show "\<exists>y. DERIV ?g t :> y \<and> 0 \<le> y" by blast
  qed
  have zero: "?f 0 = 0" by simp
  have p9: "\<bar>?c * z ^ 9\<bar> \<le> 7 / 10 ^ 8"
  proof -
    have "\<bar>z\<bar> ^ 9 \<le> (21 / 20) ^ 9" using z by (intro power_mono) simp_all
    also have "\<dots> \<le> 1.56" by (simp add: power_divide)
    finally show ?thesis by (simp add: abs_mult power_abs)
  qed
  have "\<bar>?f z\<bar> \<le> \<bar>?c * z ^ 9\<bar>"
  proof (cases "0 \<le> z")
    case True
    have "?f z \<le> ?f 0" using True z by (intro DERIV_nonpos_imp_nonincreasing [OF _ f]) simp_all
    moreover have "?g 0 \<le> ?g z" using True z by (intro DERIV_nonneg_imp_nondecreasing [OF _ g]) simp_all
    ultimately show ?thesis using zero True by simp
  next
    case False
    have "?f 0 \<le> ?f z" using False z by (intro DERIV_nonpos_imp_nonincreasing [OF _ f]) simp_all
    moreover have "?g z \<le> ?g 0" using False z by (intro DERIV_nonneg_imp_nondecreasing [OF _ g]) simp_all
    ultimately show ?thesis using zero False by simp
  qed
  moreover have "ln (exp_fraction z) = ln (exp_poly z) - ln (exp_poly (- z))"
    unfolding exp_fraction_poly [OF z] using exp_poly_pos [OF z] exp_poly_pos [of "- z"] z by (simp add: ln_div)
  ultimately show ?thesis using p9 by simp
qed

section \<open>The linear estimate of the decimal logarithm\<close>

text \<open>The tangent of the logarithm at 1.5 and its chord from 1 to 2.\<close>

lemma ln_tangent: "1 \<le> (m :: real) \<Longrightarrow> ln m \<le> ln (3 / 2) + (m - 3 / 2) * (2 / 3)"
proof -
  assume m: "1 \<le> m"
  then have "ln (m / (3 / 2)) \<le> m / (3 / 2) - 1" by (intro ln_le_minus_one) simp
  also have "\<dots> = (m - 3 / 2) * (2 / 3)" by (simp add: field_simps)
  also have "ln (m / (3 / 2)) = ln m - ln (3 / 2)" using m by (intro ln_divide_pos) simp_all
  finally show ?thesis by linarith
qed

lemma ln_chord:
  assumes "1 \<le> m" "m \<le> (2 :: real)"
  shows "(m - 1) * ln 2 \<le> ln m"
proof -
  let ?f = "\<lambda>m. ln m - (m - 1) * ln (2 :: real)"
  have f: "DERIV ?f t :> 1 / t - ln 2" if "0 < t" for t
    using that by (auto intro!: derivative_eq_intros simp: field_simps)
  have l: "0 < ln (2 :: real)" by simp
  show ?thesis
  proof (cases "m \<le> 1 / ln 2")
    case True
    have "?f 1 \<le> ?f m"
    proof (rule DERIV_nonneg_imp_nondecreasing [OF assms(1)])
      fix t assume t: "1 \<le> t" "t \<le> m"
      have "t * ln 2 \<le> m * ln 2" using l t by simp
      also have "\<dots> \<le> 1" using True l by (simp add: field_simps)
      finally have "t * ln 2 \<le> 1" .
      then have "0 \<le> 1 / t - ln 2" using t by (simp add: field_simps)
      with f [of t] t show "\<exists>y. DERIV ?f t :> y \<and> 0 \<le> y" by auto
    qed
    then show ?thesis by simp
  next
    case False
    have "?f 2 \<le> ?f m"
    proof (rule DERIV_nonpos_imp_nonincreasing [OF assms(2)])
      fix t assume t: "m \<le> t" "t \<le> 2"
      with False have "1 / ln 2 < t" by simp
      then have "1 < t * ln 2" using l by (simp add: field_simps)
      then have "1 / t - ln 2 \<le> 0" using t assms(1) by (simp add: field_simps)
      with f [of t] t assms(1) show "\<exists>y. DERIV ?f t :> y \<and> y \<le> 0" by auto
    qed
    then show ?thesis by simp
  qed
qed

text \<open>
  The estimate of \<open>_etoa\<close> is above the logarithm of \<open>2 ^ e * m\<close>, by less than 0.03133: it is the tangent
  plus a multiple of \<open>e\<close>.
\<close>

definition log_estimate :: "'a \<Rightarrow> 'a \<Rightarrow> 'a :: linordered_field" where
  "log_estimate e m = 0.1760912590558 + e * 0.301029995663981 + (m - 1.5) * 0.289529654602168"

lemma log_estimate_bounds:
  fixes e m :: real
  assumes "\<bar>e\<bar> \<le> 1023" "1 \<le> m" "m < 2"
  shows "e * ln 2 + ln m \<le> (log_estimate e m + 1 / 10 ^ 8) * ln 10"
    and "(log_estimate e m - 3133 / 100000) * ln 10 \<le> e * ln 2 + ln m"
proof -
  have c: "\<bar>0.301029995663981 * ln 10 - ln 2\<bar> \<le> (1 / 10 ^ 14 :: real)"
    "\<bar>0.1760912590558 * ln 10 - ln (3 / 2)\<bar> \<le> (1 / 10 ^ 11 :: real)"
    "\<bar>0.289529654602168 * ln 10 - 2 / 3\<bar> \<le> (1 / 10 ^ 11 :: real)"
    using ln_intervals by (intro within; simp)+
  have e: "\<bar>e * (0.301029995663981 * ln 10 - ln 2)\<bar> \<le> 1023 * (1 / 10 ^ 14)"
    unfolding abs_mult using assms(1) c(1) by (intro mult_mono) simp_all
  have m: "\<bar>(m - 3 / 2) * (0.289529654602168 * ln 10 - 2 / 3)\<bar> \<le> 1 * (1 / 10 ^ 11)"
    unfolding abs_mult using assms(2,3) c(3) by (intro mult_mono) (simp_all add: abs_le_iff)
  define E where "E = e * (0.301029995663981 * ln 10 - ln 2)"
  define M where "M = (m - 3 / 2) * (0.289529654602168 * ln 10 - 2 / 3)"
  define K where "K = 0.1760912590558 * ln 10 - ln (3 / 2 :: real)"
  have split: "log_estimate e m * ln 10 = e * ln 2 + (ln (3 / 2) + (m - 3 / 2) * (2 / 3)) + (E + M + K)"
    by (simp add: log_estimate_def E_def M_def K_def algebra_simps)
  have small: "\<bar>E + M + K\<bar> \<le> 4 / 10 ^ 11"
  proof -
    have "\<bar>E + M + K\<bar> \<le> \<bar>E\<bar> + \<bar>M\<bar> + \<bar>K\<bar>" by linarith
    also have "\<dots> \<le> 1023 * (1 / 10 ^ 14) + 1 * (1 / 10 ^ 11) + 1 / 10 ^ 11"
      unfolding E_def M_def K_def by (intro add_mono e m c)
    finally show ?thesis by simp
  qed
  have l10: "2 \<le> ln (10 :: real)" "ln (10 :: real) \<le> 2.31" using ln_intervals by simp_all
  have "4 / 10 ^ 11 \<le> 1 / 10 ^ 8 * ln (10 :: real)" using l10 by simp
  then show "e * ln 2 + ln m \<le> (log_estimate e m + 1 / 10 ^ 8) * ln 10"
    using ln_tangent [OF assms(2)] small unfolding distrib_right split by linarith
  have "ln (3 / 2) + (m - 3 / 2) * (2 / 3) - (m - 1) * ln 2 \<le> 0.072132"
  proof -
    have "(m - 1) * (2 / 3 - ln 2) \<le> 0"
      using assms(2) ln_intervals by (intro mult_nonneg_nonpos) simp_all
    then have "(m - 1) * (2 / 3) \<le> (m - 1) * ln 2" by (simp add: right_diff_distrib)
    moreover have "(m - 3 / 2) * (2 / 3) = (m - 1) * (2 / 3) - 1 / 3" by (simp add: field_simps)
    ultimately have "ln (3 / 2) + (m - 3 / 2) * (2 / 3) - (m - 1) * ln 2 \<le> ln (3 / 2) - 1 / 3" by argo
    also have "\<dots> \<le> 0.072132" using ln_intervals by simp
    finally show ?thesis .
  qed
  moreover have "0.072132 + 4 / 10 ^ 11 \<le> 3133 / 100000 * ln (10 :: real)" using ln_intervals by simp
  ultimately show "(log_estimate e m - 3133 / 100000) * ln 10 \<le> e * ln 2 + ln m"
    using ln_chord [OF assms(2) less_imp_le [OF assms(3)]] small unfolding left_diff_distrib split by linarith
qed

end
