(* ===== verification/FloatScale.thy ===== *)
theory FloatScale
  imports FloatSpec ExpBound
begin

text \<open>
  The decimal exponent \<open>_etoa\<close> guesses from the binary one, and the power of ten it divides by: enough
  of the error analysis to know that every step is defined and that the quotient is small, so that
  \<open>_ftoa\<close> prints it without calling \<open>_etoa\<close> again.
\<close>

section \<open>Bounds through rounding\<close>

text \<open>\<open>near x q e\<close>: the value of \<open>x\<close> is finite and within \<open>e\<close> of \<open>q\<close>.\<close>

definition near :: "dbl \<Rightarrow> rat \<Rightarrow> rat \<Rightarrow> bool" where
  "near x q e \<longleftrightarrow> (\<exists>y. x = D_fin y \<and> rnd y = y \<and> \<bar>y - q\<bar> \<le> e)"

lemma abs_near: "\<bar>a - b\<bar> \<le> e \<Longrightarrow> \<bar>b\<bar> + e \<le> (B :: rat) \<Longrightarrow> \<bar>a\<bar> \<le> B"
  by linarith

lemma rnd_near: "\<bar>x\<bar> \<le> 4000 \<Longrightarrow> \<bar>rnd x - x\<bar> \<le> 1 / 100000000000"
proof -
  assume x: "\<bar>x\<bar> \<le> 4000"
  have "(2 :: rat) powi (- 1075) \<le> 2 powi (- 53)" unfolding pow2_le_iff by simp
  then have "\<bar>x\<bar> * 2 powi (- 53) + 2 powi (- 1075) \<le> 4000 * 2 powi (- 53) + (2 :: rat) powi (- 53)"
    using x by (intro add_mono mult_right_mono) simp_all
  also have "\<dots> \<le> 1 / 100000000000" by (simp add: power_int_def power_one_over)
  finally show ?thesis using rnd_relative [of x] by linarith
qed

lemma near_round:
  assumes "\<bar>x\<bar> \<le> 4000" "\<bar>x - q\<bar> \<le> e"
  shows "near (D_round x) q (e + 1 / 100000000000)"
proof -
  have "D_round x = D_fin (rnd x)"
    by (rule D_round_small, rule order_trans [OF assms(1)], rule order_trans [of _ "2 ^ 12"])
      (simp, rule power_increasing, simp_all)
  moreover have "\<bar>rnd x - q\<bar> \<le> e + 1 / 100000000000" using rnd_near [OF assms(1)] assms(2) by linarith
  ultimately show ?thesis by (simp add: near_def)
qed

lemma near_lit: "\<bar>q\<bar> \<le> 4000 \<Longrightarrow> near (d_lit q) q (1 / 100000000000)"
  using near_round [of q q 0] by (simp add: d_lit_def)

lemma near_add:
  assumes "near x a e" "near y b d" "\<bar>a\<bar> + \<bar>b\<bar> + (e + d) \<le> 4000"
  shows "near (d_add x y) (a + b) (e + d + 1 / 100000000000)"
proof -
  obtain p q where "x = D_fin p" "y = D_fin q" "\<bar>p - a\<bar> \<le> e" "\<bar>q - b\<bar> \<le> d"
    using assms(1,2) by (auto simp: near_def)
  then show ?thesis using near_round [of "p + q" "a + b" "e + d"] assms(3) by simp
qed

lemma near_minus: "near x a e \<Longrightarrow> near (d_minus x) (- a) e"
  by (fastforce simp: near_def)

lemma near_sub:
  assumes "near x a e" "near y b d" "\<bar>a\<bar> + \<bar>b\<bar> + (e + d) \<le> 4000"
  shows "near (d_sub x y) (a - b) (e + d + 1 / 100000000000)"
  using near_add [OF assms(1) near_minus [OF assms(2)]] assms(3) by (simp add: d_sub_def)

lemma near_weaken: "near x a e \<Longrightarrow> e \<le> d \<Longrightarrow> near x a d"
  by (force simp: near_def)

lemma near_div:
  assumes "near x a e" "near y b d" "1 \<le> b - d" "\<bar>a\<bar> + e \<le> 4000" "\<bar>a / b\<bar> \<le> 2" "0 \<le> d"
  shows "near (d_div x y) (a / b) (e + 2 * d + 1 / 100000000000)"
proof -
  obtain p where p: "x = D_fin p" "\<bar>p - a\<bar> \<le> e" using assms(1) by (auto simp: near_def)
  obtain q where q: "y = D_fin q" "\<bar>q - b\<bar> \<le> d" using assms(2) by (auto simp: near_def)
  have b: "1 \<le> q" "1 \<le> b" using q(2) assms(3,6) by (simp_all add: abs_le_iff)
  have "\<bar>p\<bar> \<le> 4000" by (rule abs_near [OF p(2) assms(4)])
  moreover have "\<bar>p / q\<bar> \<le> \<bar>p\<bar> / 1" using b unfolding abs_divide by (intro frac_le) simp_all
  ultimately have "\<bar>p / q\<bar> \<le> 4000" by simp
  moreover have "\<bar>p / q - a / b\<bar> \<le> e + 2 * d"
  proof -
    have "p / q - a / b = (p - a) / q + a / b * ((b - q) / q)" using b by (simp add: field_simps)
    also have "\<bar>\<dots>\<bar> \<le> \<bar>(p - a) / q\<bar> + \<bar>a / b * ((b - q) / q)\<bar>" by (rule abs_triangle_ineq)
    also have "\<bar>(p - a) / q\<bar> \<le> e / 1" unfolding abs_divide using p(2) b by (intro frac_le) simp_all
    also have "\<bar>a / b * ((b - q) / q)\<bar> \<le> 2 * (d / 1)"
    proof -
      have "\<bar>(b - q) / q\<bar> \<le> d / 1"
        unfolding abs_divide using q(2) b by (intro frac_le) (simp_all add: abs_minus_commute)
      then show ?thesis unfolding abs_mult using assms(5,6) by (intro mult_mono) simp_all
    qed
    finally show ?thesis by simp
  qed
  ultimately show ?thesis using near_round b by (simp add: p(1) q(1))
qed

lemma near_exact: "rnd x = x \<Longrightarrow> near (D_fin x) x 0"
  by (simp add: near_def)

text \<open>A whole number of up to four digits times a decimal constant.\<close>

lemma near_scale:
  assumes "\<bar>k\<bar> \<le> 1023" "\<bar>c\<bar> \<le> 3.9"
  shows "near (d_mul (d_of_int k) (d_lit c)) (of_int k * c) (1 / 500000000000)"
proof -
  have tiny: "(2 :: rat) powi (- 1075) \<le> 1 / 10 ^ 17"
  proof -
    have "(2 :: rat) powi (- 1075) \<le> 2 powi (- 57)" unfolding pow2_le_iff by simp
    also have "\<dots> \<le> 1 / 10 ^ 17" by (simp add: power_int_def power_one_over)
    finally show ?thesis .
  qed
  have rel: "\<bar>rnd x - x\<bar> \<le> B / 9000000000000000 + 1 / 10 ^ 17" if "\<bar>x\<bar> \<le> B" for x B
  proof -
    have "\<bar>x\<bar> * 2 powi (- 53) \<le> B * (1 / 9000000000000000)"
      using that by (intro mult_mono) (simp_all add: power_int_def power_one_over)
    then show ?thesis using rnd_relative [of x] tiny by simp
  qed
  obtain y where y: "d_lit c = D_fin y" "\<bar>y - c\<bar> \<le> 1 / 2000000000000000" "rnd y = y"
  proof
    have "\<bar>c\<bar> \<le> 2 ^ 1023" by (rule order_trans [OF assms(2)]) simp
    then show "d_lit c = D_fin (rnd c)" unfolding d_lit_def by (rule D_round_small)
    show "\<bar>rnd c - c\<bar> \<le> 1 / 2000000000000000" using rel [OF assms(2)] by simp
  qed simp
  have k: "\<bar>of_int k\<bar> \<le> (1023 :: rat)" using assms(1) by (metis of_int_abs of_int_le_iff of_int_numeral)
  have "\<bar>of_int k * y - of_int k * c\<bar> = \<bar>of_int k\<bar> * \<bar>y - c\<bar>" by (simp add: abs_mult [symmetric] right_diff_distrib)
  also have "\<dots> \<le> 1023 * (1 / 2000000000000000)" using k y(2) by (intro mult_mono) simp_all
  finally have d: "\<bar>of_int k * y - of_int k * c\<bar> \<le> 1023 / 2000000000000000" by simp
  have "\<bar>of_int k * c\<bar> \<le> 1023 * 3.9" unfolding abs_mult using k assms(2) by (intro mult_mono) simp_all
  then have b: "\<bar>of_int k * y\<bar> \<le> 4000" using d by linarith
  have "D_round (of_int k * y) = D_fin (rnd (of_int k * y))"
    by (rule D_round_small, rule order_trans [OF b]) simp
  moreover
  have "\<bar>rnd (of_int k * y) - of_int k * c\<bar> \<le> \<bar>rnd (of_int k * y) - of_int k * y\<bar> + \<bar>of_int k * y - of_int k * c\<bar>"
    by linarith
  then have "\<bar>rnd (of_int k * y) - of_int k * c\<bar> \<le> 1 / 500000000000"
    by (rule order_trans [OF _ order_trans [OF add_mono [OF rel [OF b] d]]]) simp
  ultimately show ?thesis unfolding y(1) d_of_int_def d_mul.simps near_def by auto
qed

lemma trunc_bounds: "q - 1 < of_int (trunc q)" "of_int (trunc q) < q + 1"
  "0 \<le> q \<Longrightarrow> 0 \<le> trunc q \<and> of_int (trunc q) \<le> q" "q \<le> 0 \<Longrightarrow> trunc q \<le> 0 \<and> q \<le> of_int (trunc q)"
proof -
  have f: "of_int \<lfloor>q\<rfloor> \<le> q" "q < of_int \<lfloor>q\<rfloor> + 1" using floor_correct [of q] by simp_all
  have c: "of_int \<lceil>q\<rceil> - 1 < q" "q \<le> of_int \<lceil>q\<rceil>" using ceiling_correct [of q] by simp_all
  show "q - 1 < of_int (trunc q)" "of_int (trunc q) < q + 1" unfolding trunc_def using f c by (simp_all, linarith+)
  show "0 \<le> q \<Longrightarrow> 0 \<le> trunc q \<and> of_int (trunc q) \<le> q" "q \<le> 0 \<Longrightarrow> trunc q \<le> 0 \<and> q \<le> of_int (trunc q)"
    unfolding trunc_def using f c by auto
qed

lemma near_to_int:
  assumes "near x q e" "\<bar>q\<bar> + e \<le> 4000"
  obtains y where "d_to_int x = Some (trunc y)" "\<bar>y - q\<bar> \<le> e"
proof -
  obtain y where y: "x = D_fin y" "\<bar>y - q\<bar> \<le> e" using assms(1) by (auto simp: near_def)
  then have "\<bar>y\<bar> \<le> 4000" using assms(2) by linarith
  then have "\<bar>of_int (trunc y)\<bar> < (of_int 4001 :: rat)" using trunc_bounds(1,2) [of y] by (simp add: abs_le_iff abs_less_iff)
  then have "\<bar>trunc y\<bar> < 4001" by (metis of_int_abs of_int_less_iff)
  then have "- (2 ^ 31) \<le> trunc y" "trunc y < 2 ^ 31" by (simp_all add: abs_less_iff)
  then have "d_to_int x = Some (trunc y)" using y(1) by (simp add: int32_def)
  with y(2) show ?thesis by (rule that [rotated])
qed

section \<open>The exponent\<close>

text \<open>\<open>e\<close> is the binary exponent and \<open>m\<close> the significand in \<open>[1, 2)\<close>.\<close>

lemma decimal_exponent:
  assumes "\<bar>e\<bar> \<le> 1023" "1 \<le> m" "m < 2" "rnd m = m"
  obtains X y where
    "d_to_int (d_add (d_add (d_lit 0.1760912590558) (d_mul (d_of_int e) (d_lit 0.301029995663981)))
        (d_mul (d_sub (D_fin m) (d_lit 1.5)) (d_lit 0.289529654602168))) = Some X"
    "X = trunc y" "\<bar>y - (0.1760912590558 + of_int e * 0.301029995663981 + (m - 1.5) * 0.289529654602168)\<bar> \<le> 1 / 1000000"
proof -
  let ?c = "0.289529654602168 :: rat"
  have e: "\<bar>of_int e * 0.301029995663981\<bar> \<le> (1023 * 0.31 :: rat)"
  proof -
    have "\<bar>of_int e\<bar> \<le> (1023 :: rat)" using assms(1) by (metis of_int_abs of_int_le_iff of_int_numeral)
    then show ?thesis unfolding abs_mult by (intro mult_mono) simp_all
  qed
  have a: "near (d_add (d_lit 0.1760912590558) (d_mul (d_of_int e) (d_lit 0.301029995663981)))
      (0.1760912590558 + of_int e * 0.301029995663981) (2 / 10000000)"
    using e by (intro near_weaken [OF near_add [OF near_lit near_scale]] assms) simp_all
  have m: "near (D_fin m) m 0" using assms(4) by (simp add: near_def)
  obtain r where r: "d_sub (D_fin m) (d_lit 1.5) = D_fin r" "\<bar>r - (m - 1.5)\<bar> \<le> 3 / 100000000000"
    using near_sub [OF m near_lit, of "1.5"] assms(2,3) by (auto simp: near_def)
  obtain c where c: "d_lit ?c = D_fin c" "\<bar>c - ?c\<bar> \<le> 1 / 100000000000"
    using near_lit [of ?c] by (auto simp: near_def)
  have "r * c - (m - 1.5) * ?c = (r - (m - 1.5)) * c + (m - 1.5) * (c - ?c)" by (simp add: algebra_simps)
  also have "\<bar>\<dots>\<bar> \<le> \<bar>(r - (m - 1.5)) * c\<bar> + \<bar>(m - 1.5) * (c - ?c)\<bar>" by (rule abs_triangle_ineq)
  also have "\<dots> \<le> 3 / 100000000000 * 1 + 1 * (1 / 100000000000)"
  proof -
    have "\<bar>c\<bar> \<le> 1" by (rule abs_near [OF c(2)]) simp
    moreover have "\<bar>m - 1.5\<bar> \<le> 1" using assms(2,3) by (simp add: abs_le_iff)
    ultimately show ?thesis using r(2) c(2) unfolding abs_mult by (intro add_mono mult_mono) simp_all
  qed
  finally have rc: "\<bar>r * c - (m - 1.5) * ?c\<bar> \<le> 4 / 100000000000" by simp
  have mc: "\<bar>(m - 1.5) * ?c\<bar> \<le> 1 * 1" unfolding abs_mult using assms(2,3) by (intro mult_mono) (linarith | simp)+
  have "near (d_mul (d_sub (D_fin m) (d_lit 1.5)) (d_lit ?c)) ((m - 1.5) * ?c) (1 / 10000000)"
    unfolding r(1) c(1) d_mul.simps
  proof (rule near_weaken [OF near_round [OF _ rc]])
    show "\<bar>r * c\<bar> \<le> 4000" by (rule abs_near [OF rc], rule order_trans [OF add_right_mono [OF mc]]) simp
  qed simp
  note b = this
  have A: "\<bar>0.1760912590558 + of_int e * 0.301029995663981\<bar> \<le> (400 :: rat)"
    by (rule order_trans [OF abs_triangle_ineq], rule order_trans [OF add_left_mono [OF e]]) simp
  have AB: "\<bar>0.1760912590558 + of_int e * 0.301029995663981 + (m - 1.5) * ?c\<bar> \<le> 400 + 1 * 1"
    by (rule order_trans [OF abs_triangle_ineq add_mono [OF A mc]])
  have "near (d_add (d_add (d_lit 0.1760912590558) (d_mul (d_of_int e) (d_lit 0.301029995663981)))
      (d_mul (d_sub (D_fin m) (d_lit 1.5)) (d_lit ?c)))
      (0.1760912590558 + of_int e * 0.301029995663981 + (m - 1.5) * ?c) (1 / 1000000)"
    by (rule near_weaken [OF near_add [OF a b]], rule order_trans [OF add_right_mono [OF add_mono [OF A mc]]]) simp_all
  then obtain y where "d_to_int (d_add (d_add (d_lit 0.1760912590558) (d_mul (d_of_int e) (d_lit 0.301029995663981)))
      (d_mul (d_sub (D_fin m) (d_lit 1.5)) (d_lit ?c))) = Some (trunc y)"
    "\<bar>y - (0.1760912590558 + of_int e * 0.301029995663981 + (m - 1.5) * ?c)\<bar> \<le> 1 / 1000000"
    by (rule near_to_int) (rule order_trans [OF add_right_mono [OF AB]], simp_all)
  then show ?thesis using that by blast
qed

section \<open>The power of ten\<close>

lemma round_between:
  assumes "l \<le> x" "x \<le> u" "- 4000 \<le> l" "u \<le> 4000"
  obtains y where "D_round x = D_fin y" "rnd y = y" "l - 1 / 100000000000 \<le> y" "y \<le> u + 1 / 100000000000"
proof -
  have "\<bar>x\<bar> \<le> 4000" using assms by (simp add: abs_le_iff)
  from near_round [OF this, of x 0] obtain y where y: "D_round x = D_fin y" "rnd y = y" "\<bar>y - x\<bar> \<le> 1 / 100000000000"
    by (auto simp: near_def)
  moreover have "l - 1 / 100000000000 \<le> y" "y \<le> u + 1 / 100000000000" using y(3) assms(1,2) by linarith+
  ultimately show ?thesis using that by blast
qed

text \<open>The continued fraction of the exponential function stays between a quarter and two.\<close>

lemma exp_factor:
  fixes z :: rat
  assumes z: "- 21 / 20 \<le> z" "z \<le> 9 / 25"
  shows "\<exists>g. (let z2 = d_mul (D_fin z) (D_fin z)
      in d_add (D_fin 1) (d_div (d_mul (D_fin 2) (D_fin z))
           (d_add (d_sub (D_fin 2) (D_fin z)) (d_div z2 (d_add (D_fin 6) (d_div z2 (d_add (D_fin 10) (d_div z2 (D_fin 14))))))))) = D_fin g
    \<and> 1 / 4 \<le> g \<and> g \<le> 8 / 5"
proof -
  have sq: "0 \<le> z * z" "z * z \<le> 6 / 5"
  proof -
    have "\<bar>z\<bar> * \<bar>z\<bar> \<le> (21 / 20) * (21 / 20)" using z by (intro mult_mono) (simp_all add: abs_le_iff)
    then show "0 \<le> z * z" "z * z \<le> 6 / 5" by (simp_all flip: abs_mult)
  qed
  obtain z2 where z2: "D_round (z * z) = D_fin z2" "rnd z2 = z2" "0 \<le> z2" "z2 \<le> 13 / 10"
    by (rule round_between [OF sq]) (use rnd_nonneg [OF sq(1)] in \<open>auto simp: D_round_def Let_def split: if_splits\<close>)
  have frc: "\<exists>y. D_round (z2 / d) = D_fin y \<and> 0 \<le> y \<and> y \<le> 14 / 10" if "1 \<le> d" for d
  proof -
    have b: "0 \<le> z2 / d" "z2 / d \<le> 13 / 10"
      using z2(3,4) that by (simp_all add: divide_le_eq)
    obtain y where "D_round (z2 / d) = D_fin y" "y \<le> 13 / 10 + 1 / 100000000000"
      by (rule round_between [OF b]) simp_all
    then show ?thesis using rnd_nonneg [OF b(1)] by (auto simp: D_round_def Let_def split: if_splits)
  qed
  have add: "\<exists>d. D_round (k + y) = D_fin d \<and> 1 \<le> d" if "2 \<le> k" "k \<le> 10" "0 \<le> y" "y \<le> 14 / 10" for k y
    by (rule round_between [of 2 "k + y" 20]) (use that in auto)
  obtain q1 where q1: "D_round (z2 / 14) = D_fin q1" "0 \<le> q1" "q1 \<le> 14 / 10" using frc [of 14] by auto
  obtain d1 where d1: "D_round (10 + q1) = D_fin d1" "1 \<le> d1" using add [of 10 q1] q1 by auto
  obtain q2 where q2: "D_round (z2 / d1) = D_fin q2" "0 \<le> q2" "q2 \<le> 14 / 10" using frc [OF d1(2)] by auto
  obtain d2 where d2: "D_round (6 + q2) = D_fin d2" "1 \<le> d2" using add [of 6 q2] q2 by auto
  obtain q3 where q3: "D_round (z2 / d2) = D_fin q3" "0 \<le> q3" "q3 \<le> 14 / 10" using frc [OF d2(2)] by auto
  obtain s where s: "D_round (2 - z) = D_fin s" "2 - z - 1 / 100000000000 \<le> s" "s \<le> 2 - z + 1 / 100000000000"
    by (rule round_between [of "2 - z" "2 - z" "2 - z"]) (use z in auto)
  obtain d3 where d3: "D_round (s + q3) = D_fin d3" "2 - z - 2 / 100000000000 \<le> d3"
    by (rule round_between [of "2 - z - 1 / 100000000000" "s + q3" 20]) (use z s q3 in auto)
  obtain t where t: "D_round (2 * z) = D_fin t" "2 * z - 1 / 100000000000 \<le> t" "t \<le> 2 * z + 1 / 100000000000"
    by (rule round_between [of "2 * z" "2 * z" "2 * z"]) (use z in auto)
  have d3pos: "1 \<le> d3" using d3(2) z by linarith
  have b: "- (71 / 100) \<le> t / d3" "t / d3 \<le> 1 / 2"
    using d3 d3pos t z by (simp_all add: le_divide_eq divide_le_eq)
  obtain q4 where q4: "D_round (t / d3) = D_fin q4" "- (72 / 100) \<le> q4" "q4 \<le> 55 / 100"
    by (rule round_between [OF b]) auto
  obtain g where g: "D_round (1 + q4) = D_fin g" "1 / 4 \<le> g" "g \<le> 8 / 5"
    by (rule round_between [of "28 / 100" "1 + q4" "155 / 100"]) (use q4 in auto)
  have nz: "d1 \<noteq> 0" "d2 \<noteq> 0" "d3 \<noteq> 0" using d1(2) d2(2) d3pos by auto
  show ?thesis
    by (intro exI [of _ g]) (simp add: Let_def z2(1) q1(1) d1(1) q2(1) d2(1) q3(1) d_sub_def s(1) d3(1) t(1) q4(1)
        g(1) nz, use g(2,3) in simp)
qed

text \<open>The computed continued fraction is close to the exact one.\<close>

lemma exp_factor_near:
  fixes z :: rat
  assumes z: "- 21 / 20 \<le> z" "z \<le> 9 / 25" "rnd z = z"
  shows "near (let z2 = d_mul (D_fin z) (D_fin z)
      in d_add (D_fin 1) (d_div (d_mul (D_fin 2) (D_fin z))
           (d_add (d_sub (D_fin 2) (D_fin z)) (d_div z2 (d_add (D_fin 6) (d_div z2 (d_add (D_fin 10) (d_div z2 (D_fin 14)))))))))
      (exp_fraction z) (1 / 1000000000)"
proof -
  have int: "near (D_fin (of_int k)) (of_int k) 0" if "\<bar>k\<bar> < 2 ^ 53" for k
    using that by (intro near_exact rnd_of_int)
  note n = int [of 14, simplified] int [of 10, simplified] int [of 6, simplified] int [of 2, simplified] int [of 1, simplified]
  have nz: "near (D_fin z) z 0" by (rule near_exact [OF z(3)])
  define s where "s = z\<^sup>2"
  have "\<bar>z\<bar>\<^sup>2 \<le> (21 / 20)\<^sup>2" using z by (intro power_mono) (simp_all add: abs_le_iff)
  then have s: "0 \<le> s" "s \<le> 6 / 5" by (simp_all add: s_def power2_eq_square)
  have z2: "near (d_mul (D_fin z) (D_fin z)) s (1 / 100000000000)"
    using near_round [of "z * z" s 0] s by (simp add: s_def power2_eq_square)
  define q1 where "q1 = s / 14"
  have q1: "0 \<le> q1" "q1 \<le> 1" using s by (simp_all add: q1_def)
  have q1': "near (d_div (d_mul (D_fin z) (D_fin z)) (D_fin 14)) q1 (2 / 100000000000)"
    unfolding q1_def using s by (intro near_weaken [OF near_div [OF z2 n(1)]]) simp_all
  have d1': "near (d_add (D_fin 10) (d_div (d_mul (D_fin z) (D_fin z)) (D_fin 14))) (10 + q1) (3 / 100000000000)"
    using q1 by (intro near_weaken [OF near_add [OF n(2) q1']]) simp_all
  define q2 where "q2 = s / (10 + q1)"
  have "q2 \<le> s / 10" unfolding q2_def using q1 s by (intro frac_le) simp_all
  then have q2: "0 \<le> q2" "q2 \<le> 1" using s q1 by (simp_all add: q2_def)
  have q2': "near (d_div (d_mul (D_fin z) (D_fin z)) (d_add (D_fin 10) (d_div (d_mul (D_fin z) (D_fin z)) (D_fin 14)))) q2
      (8 / 100000000000)"
    unfolding q2_def using s q1 q2 by (intro near_weaken [OF near_div [OF z2 d1']]) (simp_all flip: q2_def)
  have d2': "near (d_add (D_fin 6) (d_div (d_mul (D_fin z) (D_fin z)) (d_add (D_fin 10) (d_div (d_mul (D_fin z) (D_fin z)) (D_fin 14)))))
      (6 + q2) (9 / 100000000000)"
    using q2 by (intro near_weaken [OF near_add [OF n(3) q2']]) simp_all
  define q3 where "q3 = s / (6 + q2)"
  have "q3 \<le> s / 6" unfolding q3_def using q2 s by (intro frac_le) simp_all
  then have q3: "0 \<le> q3" "q3 \<le> 1" using s q2 by (simp_all add: q3_def)
  have q3': "near (d_div (d_mul (D_fin z) (D_fin z)) (d_add (D_fin 6) (d_div (d_mul (D_fin z) (D_fin z)) (d_add (D_fin 10)
      (d_div (d_mul (D_fin z) (D_fin z)) (D_fin 14)))))) q3 (20 / 100000000000)"
    unfolding q3_def using s q2 q3 by (intro near_weaken [OF near_div [OF z2 d2']]) (simp_all flip: q3_def)
  have s2: "near (d_sub (D_fin 2) (D_fin z)) (2 - z) (1 / 100000000000)"
    using z by (intro near_weaken [OF near_sub [OF n(4) nz]]) (simp_all add: abs_if)
  have d3': "near (d_add (d_sub (D_fin 2) (D_fin z)) (d_div (d_mul (D_fin z) (D_fin z)) (d_add (D_fin 6) (d_div (d_mul (D_fin z) (D_fin z))
      (d_add (D_fin 10) (d_div (d_mul (D_fin z) (D_fin z)) (D_fin 14))))))) (2 - z + q3) (22 / 100000000000)"
    using z q3 by (intro near_weaken [OF near_add [OF s2 q3']]) (simp_all add: abs_if)
  have t: "near (d_mul (D_fin 2) (D_fin z)) (2 * z) (1 / 100000000000)"
    using near_round [of "2 * z" "2 * z" 0] z by (simp add: abs_le_iff)
  define q4 where "q4 = 2 * z / (2 - z + q3)"
  have d3: "1 \<le> 2 - z + q3" using z q3 by simp
  then have q4: "- 2 \<le> q4" "q4 \<le> 2" unfolding q4_def using z q3 by (simp_all add: divide_le_eq le_divide_eq)
  have q4': "near (d_div (d_mul (D_fin 2) (D_fin z)) (d_add (d_sub (D_fin 2) (D_fin z)) (d_div (d_mul (D_fin z) (D_fin z)) (d_add (D_fin 6)
      (d_div (d_mul (D_fin z) (D_fin z)) (d_add (D_fin 10) (d_div (d_mul (D_fin z) (D_fin z)) (D_fin 14)))))))) q4 (46 / 100000000000)"
    unfolding q4_def using z q3 q4
    by (intro near_weaken [OF near_div [OF t d3']]) (simp_all add: abs_le_iff flip: q4_def)
  have e: "exp_fraction z = 1 + q4"
    unfolding exp_fraction_def q4_def q3_def q2_def q1_def s_def ..
  then show ?thesis
    unfolding Let_def e using q4 by (intro near_weaken [OF near_add [OF n(5) q4']]) (simp_all add: abs_if)
qed

text \<open>
  For a decimal exponent \<open>X\<close> the code takes \<open>Y\<close>, near \<open>X\<close> times the binary logarithm of ten, and writes
  the power of ten as \<open>2 ^ Y\<close> times the exponential of \<open>z\<close>.
\<close>

lemma power_parts:
  assumes "- 307 \<le> X" "X \<le> 308"
  obtains Y z where
    "d_to_int (d_add (d_mul (d_of_int X) (d_lit 3.321928094887362)) (d_lit 0.5)) = Some Y"
    "- 1020 \<le> Y" "Y \<le> 1023" "of_int X * 3.3219 - 0.8 \<le> (of_int Y :: rat)"
    "d_sub (d_mul (d_of_int X) (d_lit 2.302585092994046)) (d_mul (d_of_int Y) (d_lit 0.6931471805599453)) = D_fin z"
    "- 21 / 20 \<le> z" "z \<le> 9 / 25" "rnd z = z"
    "\<bar>z - (of_int X * 2.302585092994046 - of_int Y * 0.6931471805599453)\<bar> \<le> 1 / 50000000000"
proof -
  define x :: rat where "x = of_int X"
  have x: "- 307 \<le> x" "x \<le> 308"
    using assms unfolding x_def by (metis of_int_le_iff of_int_neg_numeral, metis of_int_le_iff of_int_numeral)
  have X: "\<bar>X\<bar> \<le> 1023" using assms by simp
  have a: "near (d_add (d_mul (d_of_int X) (d_lit 3.321928094887362)) (d_lit 0.5)) (x * 3.321928094887362 + 0.5) (1 / 1000000)"
    unfolding x_def [symmetric] using x
    by (intro near_weaken [OF near_add [OF near_scale [OF X, folded x_def] near_lit]]) (simp_all add: abs_if)
  obtain y where y: "d_to_int (d_add (d_mul (d_of_int X) (d_lit 3.321928094887362)) (d_lit 0.5)) = Some (trunc y)"
    "\<bar>y - (x * 3.321928094887362 + 0.5)\<bar> \<le> 1 / 1000000"
    by (rule near_to_int [OF a]) (use x in \<open>simp_all add: abs_if\<close>)
  define Y u where "Y = trunc y" and "u = (of_int Y :: rat)"
  have u: "y - 1 < u" "u < y + 1" "0 \<le> y \<Longrightarrow> u \<le> y" using trunc_bounds [of y] by (simp_all add: u_def Y_def)
  have y': "x * 3.321928094887362 + 0.499999 \<le> y" "y \<le> x * 3.321928094887362 + 0.500001"
  proof -
    have "y - (x * 3.321928094887362 + 0.5) \<le> 1 / 1000000" "- (y - (x * 3.321928094887362 + 0.5)) \<le> 1 / 1000000"
      using y(2) unfolding abs_le_iff by blast+
    then show "x * 3.321928094887362 + 0.499999 \<le> y" "y \<le> x * 3.321928094887362 + 0.500001" by simp_all
  qed
  have "u < 1024" "- 1021 < u" using u y' x by (cases "0 \<le> y"; simp)+
  then have Y: "- 1020 \<le> Y" "Y \<le> 1023" unfolding u_def by simp_all
  have ux: "x * 3.3219 - 0.8 \<le> u" using u(1) y'(1) x by simp
  have ub: "\<bar>u\<bar> \<le> 1023" "\<bar>Y\<bar> \<le> 1023" using Y unfolding u_def by (simp_all add: abs_le_iff)
  let ?d = "x * 2.302585092994046 - u * 0.6931471805599453"
  have d: "- 1.04 \<le> ?d" "?d \<le> 0.35" using u(1,2) y' x by simp_all
  have "near (d_sub (d_mul (d_of_int X) (d_lit 2.302585092994046)) (d_mul (d_of_int Y) (d_lit 0.6931471805599453)))
      ?d (1 / 50000000000)"
    unfolding x_def [symmetric] using x ub(1)
    by (intro near_weaken [OF near_sub [OF near_scale [OF X, folded x_def] near_scale [OF ub(2), folded u_def]]])
      (simp_all add: abs_if split: if_splits)
  then obtain z where z: "d_sub (d_mul (d_of_int X) (d_lit 2.302585092994046)) (d_mul (d_of_int Y) (d_lit 0.6931471805599453)) = D_fin z"
    "\<bar>z - ?d\<bar> \<le> 1 / 50000000000" "rnd z = z" by (auto simp: near_def)
  have "z - ?d \<le> 1 / 50000000000" "- (z - ?d) \<le> 1 / 50000000000" using z(2) unfolding abs_le_iff by blast+
  then have "- 21 / 20 \<le> z" "z \<le> 9 / 25" using d by simp_all
  with that y(1) Y ux z show ?thesis unfolding x_def u_def Y_def by blast
qed


section \<open>The bits of a double\<close>

lemma exponent_bits_bounds:
  assumes "0 \<le> v" "v < 2 ^ 1024"
  shows "0 \<le> exponent_bits v" "exponent_bits v \<le> 2046" "v < 2 powi (exponent_bits v - 1022)"
proof -
  show "0 \<le> exponent_bits v" by (simp add: exponent_bits_def)
  show "exponent_bits v \<le> 2046"
  proof (cases "v = 0")
    case False
    then have "2 powi ilog2 v \<le> v" using ilog2_bounds(1) [of v] assms(1) by simp
    also have "v < 2 powi 1024" using assms(2) by (simp add: power_int_def)
    finally have "ilog2 v < 1024" unfolding pow2_less_iff .
    then show ?thesis using assms(1) by (simp add: exponent_bits_def)
  qed (simp add: exponent_bits_def)
  show "v < 2 powi (exponent_bits v - 1022)"
  proof (cases "v = 0")
    case False
    then have "v < 2 powi (ilog2 v + 1)" using ilog2_bounds(2) [of v] assms(1) by simp
    also have "\<dots> \<le> 2 powi (exponent_bits v - 1022)" using assms(1) False unfolding pow2_le_iff by (simp add: exponent_bits_def)
    finally show ?thesis .
  qed simp
qed

lemma fraction_bits_bounds: "0 \<le> fraction_bits v" "fraction_bits v < 2 ^ 52"
  by (simp_all add: fraction_bits_def)

definition significand :: "rat \<Rightarrow> rat" where
  "significand v = 1 + of_int (fraction_bits v) / 2 ^ 52"

lemma significand: "1 \<le> significand v" "significand v < 2" "rnd (significand v) = significand v"
proof -
  have "of_int (fraction_bits v) < (of_int (2 ^ 52) :: rat)" unfolding of_int_less_iff by (rule fraction_bits_bounds)
  then show "1 \<le> significand v" "significand v < 2"
    using fraction_bits_bounds(1) [of v] by (simp_all add: significand_def)
  have "significand v = of_int (2 ^ 52 + fraction_bits v) * 2 powi (- 52)"
    by (simp add: significand_def power_int_def power_one_over field_simps)
  moreover
  have "\<bar>2 ^ 52 + fraction_bits v\<bar> < 2 ^ 53" using fraction_bits_bounds [of v] by simp
  then have "rnd (of_int (2 ^ 52 + fraction_bits v) * 2 powi (- 52)) = of_int (2 ^ 52 + fraction_bits v) * 2 powi (- 52)"
    by (rule rnd_representable) simp
  ultimately show "rnd (significand v) = significand v" by (simp only:)
qed

lemma d_of_bits_normal:
  assumes "uint u = e * 2 ^ 52 + f" "0 \<le> f" "f < 2 ^ 52" "0 < e" "e < 2047"
  shows "d_of_bits u = D_fin (of_int (2 ^ 52 + f) * 2 powi (e - 1075))"
proof -
  have "(e * 2 ^ 52 + f) div 2 ^ 52 mod 2 ^ 11 = e" "(e * 2 ^ 52 + f) mod 2 ^ 52 = f" "\<not> 2 ^ 63 \<le> e * 2 ^ 52 + f"
    using assms(2-5) by simp_all
  then show ?thesis using assms(4,5) unfolding d_of_bits_def Let_def assms(1) by simp
qed

lemma uint_of_int64: "0 \<le> k \<Longrightarrow> k < 2 ^ 64 \<Longrightarrow> uint (word_of_int k :: u64) = k"
  by (simp add: unsigned_of_int take_bit_int_eq_self)

lemma etoa_bits:
  assumes "0 \<le> v" "v < 2 ^ 1024"
  obtains U where "d_to_bits (D_fin v) = Some U"
    "uint (drop_bit 52 U AND 0x7FF) = exponent_bits v"
    "d_of_bits ((U AND (push_bit 52 1 - 1)) OR push_bit 52 1023) = D_fin (significand v)"
proof -
  define e f where "e = exponent_bits v" and "f = fraction_bits v"
  have e: "0 \<le> e" "e \<le> 2046" using exponent_bits_bounds [OF assms] by (simp_all add: e_def)
  have f: "0 \<le> f" "f < 2 ^ 52" using fraction_bits_bounds by (simp_all add: f_def)
  define U :: u64 where "U = word_of_int (e * 2 ^ 52 + f)"
  have U: "uint U = e * 2 ^ 52 + f"
    unfolding U_def using e f by (intro uint_of_int64) simp_all
  have bits: "d_to_bits (D_fin v) = Some U" using assms(1) by (simp add: U_def e_def f_def)
  have m11: "(0x7FF :: u64) = mask 11" by (simp add: mask_eq_exp_minus_1)
  have "uint (drop_bit 52 U AND 0x7FF) = take_bit 11 (drop_bit 52 (uint U))"
  proof -
    have "take_bit 64 (uint U) = uint U" unfolding U using e f by (intro take_bit_int_eq_self) simp_all
    then show ?thesis unfolding m11 take_bit_eq_mask [symmetric] unsigned_take_bit_eq by (simp add: unsigned_drop_bit_eq)
  qed
  also have "drop_bit 52 (uint U) = e" using f by (simp add: U drop_bit_eq_div)
  also have "take_bit 11 e = e" using e by (simp add: take_bit_int_eq_self)
  finally have ex: "uint (drop_bit 52 U AND 0x7FF) = exponent_bits v" by (simp add: e_def)
  have m52: "push_bit 52 1 - 1 = (mask 52 :: u64)" by (simp add: mask_eq_exp_minus_1)
  have fr: "uint (U AND (push_bit 52 1 - 1)) = f"
    unfolding m52 take_bit_eq_mask [symmetric] unsigned_take_bit_eq U using f
    by (simp add: take_bit_eq_mod)
  have apart: "(U AND mask 52) AND push_bit 52 b = 0" for b by (rule bit_eqI) (auto simp: bit_simps)
  have "(U AND (push_bit 52 1 - 1)) AND push_bit 52 1023 = 0" unfolding m52 by (rule apart)
  then have "(U AND (push_bit 52 1 - 1)) OR push_bit 52 1023 = (U AND (push_bit 52 1 - 1)) + push_bit 52 1023"
    by (rule disjunctive_add_eq_or [symmetric])
  then have "uint ((U AND (push_bit 52 1 - 1)) OR push_bit 52 1023)
      = (uint (U AND (push_bit 52 1 - 1)) + uint (push_bit 52 1023 :: u64)) mod 2 ^ 64"
    by (simp only: uint_word_ariths) simp
  also have "\<dots> = 1023 * 2 ^ 52 + f" unfolding fr using f by simp
  finally have w: "uint ((U AND (push_bit 52 1 - 1)) OR push_bit 52 1023) = 1023 * 2 ^ 52 + f" .
  have "d_of_bits ((U AND (push_bit 52 1 - 1)) OR push_bit 52 1023) = D_fin (of_int (2 ^ 52 + f) * 2 powi (1023 - 1075))"
    using f by (intro d_of_bits_normal [OF w]) simp_all
  also have "of_int (2 ^ 52 + f) * 2 powi (1023 - 1075) = significand v"
    by (simp add: significand_def f_def power_int_def power_one_over field_simps)
  finally have "d_of_bits ((U AND (push_bit 52 1 - 1)) OR push_bit 52 1023) = D_fin (significand v)" .
  with bits ex that show ?thesis by blast
qed

lemma power_bits:
  assumes "- 1020 \<le> Y" "Y \<le> 1023"
  shows "int32 (Y + 1023) = Some (Y + 1023)" "d_of_bits (push_bit 52 (word_of_int (Y + 1023))) = D_fin (2 powi Y)"
proof -
  show "int32 (Y + 1023) = Some (Y + 1023)" using assms by (simp add: int32_def)
  have u: "uint (word_of_int (Y + 1023) :: u64) = Y + 1023" using assms by (intro uint_of_int64) simp_all
  have "uint (push_bit 52 (word_of_int (Y + 1023)) :: u64) = (Y + 1023) * 2 ^ 52"
    unfolding unsigned_push_bit_eq u using assms by (simp add: push_bit_eq_mult take_bit_int_eq_self)
  then have "d_of_bits (push_bit 52 (word_of_int (Y + 1023))) = D_fin (of_int (2 ^ 52 + 0) * 2 powi (Y + 1023 - 1075))"
    using assms by (intro d_of_bits_normal) simp_all
  also have "of_int (2 ^ 52 + 0) * 2 powi (Y + 1023 - 1075) = (2 :: rat) powi (52 + (Y - 52))"
    by (subst power_int_add) (simp_all add: power_int_def)
  finally show "d_of_bits (push_bit 52 (word_of_int (Y + 1023))) = D_fin (2 powi Y)" by simp
qed

section \<open>The scale\<close>

lemma rnd_power_error:
  assumes "\<bar>x\<bar> \<le> 2 * 2 powi Y" "- 1020 \<le> Y"
  shows "\<bar>rnd x - x\<bar> \<le> 2 powi Y / 10 ^ 12"
proof -
  have "(2 :: rat) powi (- 1075) \<le> 2 powi (Y - 52)" unfolding pow2_le_iff using assms(2) by simp
  also have "\<dots> = 2 powi Y * (1 / 2 ^ 52)" by (simp add: power_int_diff)
  finally have "\<bar>x\<bar> * 2 powi (- 53) + 2 powi (- 1075) \<le> 2 * 2 powi Y * (1 / 2 ^ 53) + 2 powi Y * (1 / 2 ^ 52)"
    using assms(1) by (intro add_mono mult_mono) (simp_all add: power_int_def power_one_over)
  also have "\<dots> \<le> 2 powi Y / 10 ^ 12" by simp
  finally show ?thesis using rnd_relative [of x] by linarith
qed

lemma D_round_power:
  assumes "- 1020 \<le> Y" "Y \<le> 1023" "1 / 4 \<le> g" "g \<le> 8 / 5"
  obtains r where "D_round (2 powi Y * g) = D_fin r" "2 powi (Y - 2) \<le> r" "r < 2 ^ 1024"
    "r \<le> 2 * 2 powi Y" "\<bar>r - 2 powi Y * g\<bar> \<le> 2 powi Y / 10 ^ 12"
proof -
  let ?top = "of_int (2 ^ 53 - 1) * 2 powi 971 :: rat"
  have "2 powi Y * g \<le> 2 powi 1023 * (8 / 5)"
    using assms by (intro mult_mono) (simp_all only: pow2_le_iff, simp_all)
  also have "\<dots> \<le> ?top" by (simp add: power_int_def)
  finally have "rnd (2 powi Y * g) \<le> ?top" using rnd_mono rnd_representable [of "2 ^ 53 - 1" 971] by fastforce
  also have "?top < 2 ^ 1024" by (simp add: power_int_def)
  finally have hi: "rnd (2 powi Y * g) < 2 ^ 1024" .
  have "2 powi (Y - 2) = 2 powi Y * (1 / 4 :: rat)" by (simp add: power_int_diff)
  also have "\<dots> \<le> 2 powi Y * g" using assms(3) by (intro mult_left_mono) simp_all
  finally have "rnd (2 powi (Y - 2)) \<le> rnd (2 powi Y * g)" by (rule rnd_mono)
  then have lo: "2 powi (Y - 2) \<le> rnd (2 powi Y * g)" using rnd_representable [of 1 "Y - 2"] assms(1) by simp
  have "0 \<le> rnd (2 powi Y * g)" using lo pow2_pos [of "Y - 2"] by linarith
  then have "D_round (2 powi Y * g) = D_fin (rnd (2 powi Y * g))" using hi by (simp add: D_round_def Let_def)
  moreover
  have err: "\<bar>rnd (2 powi Y * g) - 2 powi Y * g\<bar> \<le> 2 powi Y / 10 ^ 12"
  proof (rule rnd_power_error)
    show "\<bar>2 powi Y * g\<bar> \<le> 2 * 2 powi Y" using assms by (simp add: abs_mult)
  qed fact
  moreover have "rnd (2 powi Y * g) \<le> 2 * 2 powi Y"
  proof -
    have "2 powi Y * g \<le> 2 powi Y * (8 / 5)" using assms(4) by simp
    moreover have "(2 :: rat) powi Y / 10 ^ 12 \<le> 2 powi Y * (2 / 5)" by simp
    ultimately show ?thesis using withinD(2) [OF err] by linarith
  qed
  ultimately show ?thesis using lo hi by (intro that)
qed

lemma D_round_tenth:
  assumes "2 powi (Y - 2) \<le> r" "r < 2 ^ 1024" "- 1020 \<le> Y" "r \<le> 2 * 2 powi Y"
  obtains t where "D_round (r / 10) = D_fin t" "2 powi (Y - 6) \<le> t" "\<bar>t - r / 10\<bar> \<le> 2 powi Y / 10 ^ 12"
proof -
  have r: "0 < r" using assms(1) pow2_pos [of "Y - 2"] by linarith
  have "(2 :: rat) powi (Y - 6) = 2 powi (Y - 2) / 16" by (simp add: power_int_diff)
  also have "\<dots> \<le> r / 10" using assms(1) r by (intro frac_le) simp_all
  finally have "rnd (2 powi (Y - 6)) \<le> rnd (r / 10)" by (rule rnd_mono)
  then have "2 powi (Y - 6) \<le> rnd (r / 10)" using rnd_representable [of 1 "Y - 6"] assms(3) by simp
  moreover have "D_round (r / 10) = D_fin (rnd (r / 10))" using r assms(2) by (intro D_round_small) (simp add: abs_if)
  moreover have "\<bar>rnd (r / 10) - r / 10\<bar> \<le> 2 powi Y / 10 ^ 12"
    using r assms(4) by (intro rnd_power_error assms(3)) simp
  ultimately show ?thesis using that by blast
qed

lemma estimate_range:
  assumes "1 \<le> m" "m < 2" "\<bar>y - log_estimate e m\<bar> \<le> (1 / 1000000 :: rat)"
  shows "e * 0.301029995663981 + 0.0312 \<le> y" "y \<le> e * 0.301029995663981 + 0.321"
proof -
  define M where "M = (m - 1.5) * 0.289529654602168"
  have M: "- 0.14477 \<le> M" "M \<le> 0.14477" using assms(1,2) unfolding M_def by simp_all
  have "y - (0.1760912590558 + e * 0.301029995663981 + M) \<le> 1 / 1000000"
    "- (y - (0.1760912590558 + e * 0.301029995663981 + M)) \<le> 1 / 1000000"
    using assms(3) unfolding abs_le_iff log_estimate_def M_def by blast+
  with M show "e * 0.301029995663981 + 0.0312 \<le> y" "y \<le> e * 0.301029995663981 + 0.321" by simp_all
qed

lemma exponent_range:
  assumes "\<bar>E\<bar> \<le> 1023" "1 \<le> m" "m < 2" "\<bar>y - log_estimate (of_int E) m\<bar> \<le> 1 / 1000000"
  shows "- 307 \<le> trunc y" "trunc y \<le> 308"
proof -
  have e: "- 1023 \<le> (of_int E :: rat)" "of_int E \<le> (1023 :: rat)" using assms(1) by (simp_all add: abs_le_iff)
  have "- 308 < (of_int (trunc y) :: rat)" "of_int (trunc y) < (309 :: rat)"
    using trunc_bounds [of y] estimate_range [OF assms(2-4)] e by (cases "0 \<le> y"; simp)+
  then show "- 307 \<le> trunc y" "trunc y \<le> 308" by simp_all
qed

text \<open>
  The decimal exponent \<open>X\<close>, the binary exponent \<open>Y\<close> and the remainder \<open>z\<close>, the power of ten \<open>r\<close> made of them, and
  its tenth \<open>t\<close>, which replaces it when it is larger than the value.
\<close>

lemma etoa_scale_core:
  assumes "0 \<le> v" "v < 2 ^ 1024"
  obtains X y Y z r t where
    "X = trunc y" "\<bar>y - log_estimate (of_int (exponent_bits v - 1023)) (significand v)\<bar> \<le> 1 / 1000000"
    "- 307 \<le> X" "X \<le> 308" "- 1020 \<le> Y" "of_int X * 3.3219 - 0.8 \<le> (of_int Y :: rat)"
    "\<bar>z - (of_int X * 2.302585092994046 - of_int Y * 0.6931471805599453)\<bar> \<le> 1 / 50000000000"
    "- 21 / 20 \<le> z" "z \<le> 9 / 25" "1 / 5 \<le> exp_fraction z"
    "2 powi (Y - 2) \<le> r" "\<bar>r - 2 powi Y * exp_fraction z\<bar> \<le> 2 powi Y / 800000000"
    "2 powi (Y - 6) \<le> t" "\<bar>10 * t - 2 powi Y * exp_fraction z\<bar> \<le> 2 powi Y / 800000000"
    "etoa_scale (D_fin v) = Some (if v < r then (X - 1, D_fin t) else (X, D_fin r))" "\<bar>Y\<bar> \<le> 1023"
proof -
  define E m where "E = exponent_bits v - 1023" and "m = significand v"
  have E: "\<bar>E\<bar> \<le> 1023" using exponent_bits_bounds [OF assms] by (auto simp: E_def abs_le_iff)
  have m: "1 \<le> m" "m < 2" "rnd m = m" using significand by (simp_all add: m_def)
  obtain U where U: "d_to_bits (D_fin v) = Some U" "uint (drop_bit 52 U AND 0x7FF) - 1023 = E"
    "d_of_bits ((U AND (push_bit 52 1 - 1)) OR push_bit 52 1023) = D_fin m"
    using etoa_bits [OF assms] unfolding E_def m_def by metis
  obtain X y where X: "d_to_int (d_add (d_add (d_lit 0.1760912590558) (d_mul (d_of_int E) (d_lit 0.301029995663981)))
        (d_mul (d_sub (D_fin m) (d_lit 1.5)) (d_lit 0.289529654602168))) = Some X" "X = trunc y"
    and y: "\<bar>y - (0.1760912590558 + of_int E * 0.301029995663981 + (m - 1.5) * 0.289529654602168)\<bar> \<le> 1 / 1000000"
    by (rule decimal_exponent [OF E m])
  have y': "\<bar>y - log_estimate (of_int E) m\<bar> \<le> 1 / 1000000" unfolding log_estimate_def by (rule y)
  define x where "x = (of_int X :: rat)"
  have Xb: "- 307 \<le> X" "X \<le> 308" using exponent_range [OF E m(1,2) y'] by (simp_all add: X(2))
  obtain Y z where Y: "d_to_int (d_add (d_mul (d_of_int X) (d_lit 3.321928094887362)) (d_lit 0.5)) = Some Y"
    "- 1020 \<le> Y" "Y \<le> 1023" "of_int X * 3.3219 - 0.8 \<le> (of_int Y :: rat)"
    and z: "d_sub (d_mul (d_of_int X) (d_lit 2.302585092994046)) (d_mul (d_of_int Y) (d_lit 0.6931471805599453)) = D_fin z"
    "- 21 / 20 \<le> z" "z \<le> 9 / 25" "rnd z = z"
    "\<bar>z - (of_int X * 2.302585092994046 - of_int Y * 0.6931471805599453)\<bar> \<le> 1 / 50000000000"
    by (rule power_parts [OF Xb])
  obtain g where g: "(let z2 = d_mul (D_fin z) (D_fin z)
      in d_add (D_fin 1) (d_div (d_mul (D_fin 2) (D_fin z))
           (d_add (d_sub (D_fin 2) (D_fin z)) (d_div z2 (d_add (D_fin 6) (d_div z2 (d_add (D_fin 10) (d_div z2 (D_fin 14))))))))) = D_fin g"
    "1 / 4 \<le> g" "g \<le> 8 / 5"
    using exp_factor [OF z(2,3)] by blast
  have ge: "\<bar>g - exp_fraction z\<bar> \<le> 1 / 1000000000"
    using exp_factor_near [OF z(2,3,4)] unfolding g(1) by (simp add: near_def)
  then have e5: "1 / 5 \<le> exp_fraction z" using withinD(2) [OF ge] g(2) by simp
  obtain r where r: "D_round (2 powi Y * g) = D_fin r" "2 powi (Y - 2) \<le> r" "r < 2 ^ 1024" "r \<le> 2 * 2 powi Y"
    "\<bar>r - 2 powi Y * g\<bar> \<le> 2 powi Y / 10 ^ 12"
    by (rule D_round_power [OF Y(2,3) g(2,3)])
  obtain t where t: "D_round (r / 10) = D_fin t" "2 powi (Y - 6) \<le> t" "\<bar>t - r / 10\<bar> \<le> 2 powi Y / 10 ^ 12"
    by (rule D_round_tenth [OF r(2,3) Y(2) r(4)])
  have X1: "int32 (X - 1) = Some (X - 1)" using Xb by (simp add: int32_def)
  have scaled: "d_mul (D_fin (2 powi Y)) (D_fin g) = D_fin r" by (simp add: r(1))
  have "etoa_scale (D_fin v) = Some (if v < r then (X - 1, D_fin t) else (X, D_fin r))"
    unfolding etoa_scale_def U(1) bind.simps Let_def U(2,3) X(1) Y(1) z(1) power_bits [OF Y(2,3)] g(1) [unfolded Let_def]
      scaled
    using t(1) X1 by simp
  moreover have near: "\<bar>r - 2 powi Y * exp_fraction z\<bar> \<le> 2 powi Y / 10 ^ 12 + 2 powi Y * (1 / 1000000000)"
  proof -
    have "r - 2 powi Y * exp_fraction z = (r - 2 powi Y * g) + 2 powi Y * (g - exp_fraction z)" by (simp add: algebra_simps)
    also have "\<bar>\<dots>\<bar> \<le> \<bar>r - 2 powi Y * g\<bar> + \<bar>2 powi Y * (g - exp_fraction z)\<bar>" by (rule abs_triangle_ineq)
    also have "\<dots> \<le> 2 powi Y / 10 ^ 12 + 2 powi Y * (1 / 1000000000)"
      using r(5) ge unfolding abs_mult by (intro add_mono mult_mono) simp_all
    finally show ?thesis .
  qed
  moreover have "\<bar>10 * t - 2 powi Y * exp_fraction z\<bar> \<le> 2 powi Y / 800000000"
  proof -
    have "10 * t - 2 powi Y * exp_fraction z = 10 * (t - r / 10) + (r - 2 powi Y * exp_fraction z)" by simp
    also have "\<bar>\<dots>\<bar> \<le> \<bar>10 * (t - r / 10)\<bar> + \<bar>r - 2 powi Y * exp_fraction z\<bar>" by (rule abs_triangle_ineq)
    also have "\<dots> \<le> 10 * (2 powi Y / 10 ^ 12) + (2 powi Y / 10 ^ 12 + 2 powi Y * (1 / 1000000000))"
      using near t(3) unfolding abs_mult by (intro add_mono mult_mono) simp_all
    also have "\<dots> \<le> 2 powi Y / 800000000" by simp
    finally show ?thesis .
  qed
  moreover have "2 powi Y / 10 ^ 12 + 2 powi Y * (1 / 1000000000) \<le> 2 powi Y / (800000000 :: rat)" by simp
  then have "\<bar>r - 2 powi Y * exp_fraction z\<bar> \<le> 2 powi Y / 800000000" using near by linarith
  moreover have "\<bar>Y\<bar> \<le> 1023" using Y(2,3) by simp
  ultimately show ?thesis using X(2) y' Xb Y(2-4) z e5 r(2) t(2) unfolding E_def m_def by (intro that)
qed

text \<open>What is known of the exponent \<open>X\<close> and the divisor \<open>F\<close> without looking at their accuracy.\<close>

lemma etoa_scale_bounds:
  assumes "0 \<le> v" "v < 2 ^ 1024"
  obtains X F where "etoa_scale (D_fin v) = Some (X, D_fin F)" "0 < F" "- 308 \<le> X" "X \<le> 308" "v / F \<le> 2 ^ 11"
    "X = 0 \<Longrightarrow> v \<le> 2 ^ 11" "2 powi (- 14) \<le> v \<Longrightarrow> - 6 \<le> X" "v = 0 \<Longrightarrow> X = - 308"
proof -
  define E m e where "E = exponent_bits v - 1023" and "m = significand v" and "e = (of_int E :: rat)"
  obtain X y Y z r t where X: "X = trunc y" "\<bar>y - log_estimate e m\<bar> \<le> 1 / 1000000" "- 307 \<le> X" "X \<le> 308"
    and Y: "of_int X * 3.3219 - 0.8 \<le> (of_int Y :: rat)" and r: "2 powi (Y - 2) \<le> r" and t: "2 powi (Y - 6) \<le> t"
    and scale: "etoa_scale (D_fin v) = Some (if v < r then (X - 1, D_fin t) else (X, D_fin r))"
    by (rule etoa_scale_core [OF assms]) (rule that, simp_all only: E_def m_def e_def)
  have E: "\<bar>E\<bar> \<le> 1023" and vE: "v < 2 powi (E + 1)"
    using exponent_bits_bounds [OF assms] by (auto simp: E_def abs_le_iff)
  have m: "1 \<le> m" "m < 2" using significand by (simp_all add: m_def)
  define x where "x = (of_int X :: rat)"
  have e: "- 1023 \<le> e" "e \<le> 1023" using E unfolding e_def by (simp_all add: abs_le_iff)
  note y' = estimate_range [OF m X(2)]
  have x: "y - 1 < x" "x < y + 1" "0 \<le> y \<Longrightarrow> 0 \<le> x \<and> x \<le> y" "y \<le> 0 \<Longrightarrow> y \<le> x \<and> x \<le> 0"
    using trunc_bounds [of y] by (simp_all add: x_def X(1))
  define X' F where "X' = (if v < r then X - 1 else X)" and "F = (if v < r then t else r)"
  have F: "2 powi (Y - 6) \<le> F"
    using t r pow2_le_iff [of "Y - 6" "Y - 2"] by (auto simp: F_def simp del: pow2_le_iff)
  have EY: "E - Y \<le> 4"
  proof -
    have "e - 5 < of_int Y" using Y x(1) y'(1) e by (simp add: x_def)
    then show ?thesis unfolding e_def by linarith
  qed
  have "v / F \<le> 2 powi (E + 1) / 2 powi (Y - 6)" using vE F assms(1) by (intro frac_le) simp_all
  also have "\<dots> = 2 powi (E + 1 - (Y - 6))" by (rule power_int_diff [symmetric]) simp
  also have "\<dots> \<le> 2 powi 11" unfolding pow2_le_iff using EY by simp
  finally have q: "v / F \<le> 2 ^ 11" by (simp add: power_int_def)
  have "v \<le> 2 ^ 11" if "X' = 0"
  proof -
    have "x \<le> 1" using that by (simp add: X'_def x_def split: if_splits)
    then have "e < 10" using x(1) y'(1) by simp
    then have "E + 1 \<le> 11" by (simp add: e_def)
    then have "(2 :: rat) powi (E + 1) \<le> 2 powi 11" unfolding pow2_le_iff .
    then show ?thesis using vE by (simp add: power_int_def)
  qed
  moreover have "- 6 \<le> X'" if "2 powi (- 14) \<le> v"
  proof -
    have "(2 :: rat) powi (- 14) < 2 powi (E + 1)" using that vE by linarith
    then have "- 14 \<le> e" unfolding pow2_less_iff e_def by simp
    then have "- 6 < x" using x(1) y'(1) by simp
    then show ?thesis by (simp add: X'_def x_def)
  qed
  moreover have "X' = - 308" if "v = 0"
  proof -
    have "e = - 1023" using that by (simp add: e_def E_def exponent_bits_def)
    then have "x < - 306" using x y' by (cases "0 \<le> y") simp_all
    then have "X = - 307" using X(3) by (simp add: x_def)
    moreover have "0 < r" using r pow2_pos [of "Y - 2"] by linarith
    ultimately show ?thesis using that by (simp add: X'_def)
  qed
  moreover have "0 < F" using F pow2_pos [of "Y - 6"] by linarith
  moreover have "etoa_scale (D_fin v) = Some (X', D_fin F)" by (simp add: scale X'_def F_def)
  moreover have "- 308 \<le> X'" "X' \<le> 308" using X(3,4) by (simp_all add: X'_def)
  ultimately show ?thesis using q that by blast
qed

section \<open>Every step is defined\<close>

lemma ordinary:
  assumes "\<bar>v\<bar> < 2 ^ 1024" "rnd v = v"
  shows "\<not> etoa_special (D_fin v)" "ftoa_special (D_fin v) flags = None"
proof -
  obtain m k where mk: "v = of_int m * 2 powi k" "\<bar>m\<bar> < 2 ^ 53" by (rule is_double_form [OF assms(2)])
  have "\<bar>v\<bar> \<le> DBL_MAX"
  proof (cases "k \<le> 971")
    case True
    have "\<bar>m\<bar> \<le> 2 ^ 53 - 1" using mk(2) by simp
    then have "of_int \<bar>m\<bar> \<le> (of_int (2 ^ 53 - 1) :: rat)" unfolding of_int_le_iff .
    moreover have "(2 :: rat) powi k \<le> 2 powi 971" using True unfolding pow2_le_iff .
    ultimately have "\<bar>v\<bar> \<le> of_int (2 ^ 53 - 1) * 2 powi 971"
      unfolding mk(1) abs_mult by (intro mult_mono) simp_all
    then show ?thesis by (simp add: DBL_MAX_def power_int_def)
  next
    case False
    define j where "j = nat (k - 971)"
    have k: "k = 971 + int j" using False by (simp add: j_def)
    have v: "v = of_int (m * 2 ^ j) * 2 powi 971" unfolding mk(1) k by (simp add: power_int_add)
    have "\<bar>m * 2 ^ j\<bar> < 2 ^ 53"
    proof -
      have "of_int \<bar>m * 2 ^ j\<bar> * 2 powi 971 < (2 :: rat) ^ 53 * 2 powi 971"
        using assms(1) unfolding v abs_mult by (simp add: power_int_def)
      then have "of_int \<bar>m * 2 ^ j\<bar> < (of_int (2 ^ 53) :: rat)" by (simp add: power_int_def)
      then show ?thesis unfolding of_int_less_iff .
    qed
    then have "of_int \<bar>m * 2 ^ j\<bar> \<le> (of_int (2 ^ 53 - 1) :: rat)" unfolding of_int_le_iff by simp
    then have "\<bar>v\<bar> \<le> of_int (2 ^ 53 - 1) * 2 powi 971"
      unfolding v abs_mult [of "of_int (m * 2 ^ j)"] by (intro mult_mono) simp_all
    then show ?thesis by (simp add: DBL_MAX_def power_int_def)
  qed
  then have "v \<le> DBL_MAX" "- DBL_MAX \<le> v" unfolding abs_le_iff by linarith+
  then show "\<not> etoa_special (D_fin v)" "ftoa_special (D_fin v) flags = None"
    by (simp_all add: etoa_special_def ftoa_special_def not_less)
qed

text \<open>The precision that is left when the buffer has taken the excess zeros.\<close>

lemma limited_precision:
  "unat (fst (limit_precision P [])) = unat P - min 32 (unat P - 9)"
proof -
  let ?n = "min 32 (unat P - 9)"
  have n: "?n \<le> unat P" by simp
  then have w: "(of_nat ?n :: u32) \<le> P" using unat_u32_bound [of P] by (simp add: word_le_nat_alt unat_of_nat32)
  show ?thesis
    using unat_sub [OF w] n unat_u32_bound [of P] by (simp add: limit_precision_eq Let_def unat_of_nat32)
qed

lemma ftoa_number_some:
  assumes "rnd v = v" "\<bar>v\<bar> < 2 ^ 31 - 1" "effective_precision prec flags \<le> 41"
  shows "\<exists>b. ftoa_number (D_fin v) prec flags = Some b"
proof -
  define P where "P = (if has flags FLAGS_PRECISION then prec else DEFAULT_FLOAT_PRECISION)"
  obtain p buf where pb: "limit_precision P [] = (p, buf)" by (metis surj_pair)
  have p: "unat p \<le> 9" 
    using limited_precision [of P] assms(3) unfolding effective_precision_def P_def [symmetric] pb fst_conv by simp
  have abs: "rnd \<bar>v\<bar> = \<bar>v\<bar>" "0 \<le> \<bar>v\<bar>" using assms(1) by (simp_all add: abs_if)
  have "D_round (- v) = D_fin (- v)"
    using assms(1,2) D_round_small [of "- v"] by (simp add: order_trans [OF less_imp_le])
  then have pos: "(if d_less (D_fin v) (D_fin 0) then d_sub (D_fin 0) (D_fin v) else D_fin v) = D_fin \<bar>v\<bar>"
    by (simp add: d_sub_def abs_if)
  obtain w f where split: "ftoa_split (D_fin \<bar>v\<bar>) p = Some (w, f)" and even: "p = 0 \<Longrightarrow> \<exists>w'. ftoa_even (D_fin \<bar>v\<bar>) w = Some w'"
  proof (cases "p = 0")
    case True
    with ftoa_whole [OF abs assms(2)] show ?thesis by (intro that) auto
  next
    case False
    have "p = of_nat (unat p)" by simp
    with ftoa_split_decimal [OF abs assms(2) p] False show ?thesis by (intro that) auto
  qed
  then show ?thesis
    unfolding ftoa_number_def Let_def P_def [symmetric] pos pb prod.case split bind.simps
    by (cases "p = 0") auto
qed

lemma ftoa_text_some:
  assumes "rnd v = v" "\<bar>v\<bar> < 2 ^ 31 - 1" "effective_precision prec flags \<le> 41"
  obtains t where "ftoa_text (D_fin v) prec width flags = Some t"
proof -
  have "\<bar>v\<bar> < 2 ^ 1024" using assms(2) by simp
  note ordinary(2) [OF this assms(1)]
  moreover have "\<bar>v\<bar> \<le> 10000000000" using assms(2) by simp
  then have "\<not> ftoa_large (D_fin v)" by (simp add: ftoa_large_def PRINTF_MAX_FLOAT_def abs_le_iff)
  moreover obtain n b where "ftoa_number (D_fin v) prec flags = Some (n, b)" using ftoa_number_some [OF assms] by auto
  ultimately have "\<exists>t. ftoa_text (D_fin v) prec width flags = Some t"
    by (simp add: ftoa_text_def ftoa_buf_def split_def Let_def)
  with that show ?thesis by blast
qed

lemma keeps_precision: "has (flags AND NOT FLAGS_ADAPT_EXP) FLAGS_PRECISION = has flags FLAGS_PRECISION"
  by (simp add: has_def flag_bits FLAGS_ADAPT_EXP_def and.assoc)

lemma lit_0001: "d_less (D_fin v) (d_lit 0.0001) \<or> 2 powi (- 14) \<le> v"
proof -
  have "rnd (2 powi (- 14)) \<le> rnd 0.0001" by (rule rnd_mono) (simp add: power_int_def power_one_over)
  then have "2 powi (- 14) \<le> rnd 0.0001" using rnd_representable [of 1 "- 14"] by simp
  moreover have "d_lit 0.0001 = D_fin (rnd 0.0001)" unfolding d_lit_def by (rule D_round_small) simp
  ultimately show ?thesis by auto
qed

text \<open>What \<open>_etoa\<close> hands to \<open>_ftoa\<close> is small and has few decimals.\<close>

lemma etoa_adapt_bounds:
  assumes "unat prec \<le> 36" "- 308 \<le> X" "X \<le> 308" "2 powi (- 14) \<le> v \<Longrightarrow> - 6 \<le> X"
  obtains p fl mw X' where "etoa_adapt (D_fin v) prec flags minwidth X = Some (p, fl, mw, X')" "unat p \<le> 41"
    "X' = X \<or> X' = 0 \<and> v < 1000000"
proof (cases "has flags FLAGS_ADAPT_EXP \<and> \<not> d_less (D_fin v) (d_lit 0.0001) \<and> d_less (D_fin v) (D_fin 1000000)")
  case True
  then have X: "- 6 \<le> X" using lit_0001 [of v] assms(4) by auto
  have v: "v < 1000000" using True by simp
  have pu: "uint prec \<le> 36" using assms(1) of_nat_le_iff [of "unat prec" 36, where 'a = int] by simp
  have "signed_take_bit 31 k = k" if "0 \<le> k" "k \<le> 36" for k :: int
    using that by (intro signed_take_bit_int_eq_self) simp_all
  from this [OF _ pu] have sp: "sint prec = uint prec" by (simp add: sint_uint)
  show ?thesis
  proof (cases "X < sint prec")
    case False
    with True v show ?thesis by (intro that [of 0 "flags OR FLAGS_PRECISION" 0 0]) (simp_all add: etoa_adapt_def)
  next
    case less: True
    let ?d = "sint prec - X - 1"
    have d: "0 \<le> ?d" "?d \<le> 41" using less X pu sp by simp_all
    have "int32 (sint prec - X) = Some (sint prec - X)" "int32 ?d = Some ?d" using d by (simp_all add: int32_def)
    moreover have "unat (word_of_int ?d :: u32) \<le> 41"
    proof -
      have "uint (word_of_int k :: u32) = k" if "0 \<le> k" "k \<le> 41" for k
        using that by (simp add: unsigned_of_int take_bit_int_eq_self)
      from this [OF d] d show ?thesis by (simp only: nat_uint_eq [symmetric])
    qed
    ultimately show ?thesis
      using True less v by (intro that [of "word_of_int ?d" "flags OR FLAGS_PRECISION" 0 0]) (simp_all add: etoa_adapt_def)
  qed
next
  case False
  let ?p = "if has flags FLAGS_ADAPT_EXP \<and> prec > 0 \<and> has flags FLAGS_PRECISION then prec - 1 else prec"
  have "unat ?p \<le> 41"
    using assms(1) sub1_le [of prec] by (auto simp: word_le_nat_alt)
  moreover have "etoa_adapt (D_fin v) prec flags minwidth X = Some (?p, flags, minwidth, X)"
    using False by (auto simp: etoa_adapt_def)
  ultimately show ?thesis using that [of ?p flags minwidth X] by blast
qed

lemma etoa_text_some:
  assumes "rnd v = v" "\<bar>v\<bar> < 2 ^ 1024" "effective_precision prec flags \<le> 36"
  obtains t where "etoa_text (D_fin v) prec width flags = Some t"
proof -
  define P where "P = (if has flags FLAGS_PRECISION then prec else DEFAULT_FLOAT_PRECISION)"
  have P: "unat P \<le> 36" using assms(3) by (simp add: P_def effective_precision_def)
  have abs: "rnd \<bar>v\<bar> = \<bar>v\<bar>" "0 \<le> \<bar>v\<bar>" using assms(1) by (simp_all add: abs_if)
  have pos: "(if d_less (D_fin v) (D_fin 0) then d_minus (D_fin v) else D_fin v) = D_fin \<bar>v\<bar>" by (simp add: abs_if)
  obtain X F where X: "etoa_scale (D_fin \<bar>v\<bar>) = Some (X, D_fin F)" "0 < F" "- 308 \<le> X" "X \<le> 308" "\<bar>v\<bar> / F \<le> 2 ^ 11"
    "X = 0 \<Longrightarrow> \<bar>v\<bar> \<le> 2 ^ 11" "2 powi (- 14) \<le> \<bar>v\<bar> \<Longrightarrow> - 6 \<le> X"
    by (rule etoa_scale_bounds [OF abs(2) assms(2)]) blast
  let ?mw = "if X < 100 \<and> X > - 100 then 4 else 5 :: u32"
  obtain p fl mw X' where A: "etoa_adapt (D_fin \<bar>v\<bar>) P flags ?mw X = Some (p, fl, mw, X')" "unat p \<le> 41"
    "X' = X \<or> X' = 0 \<and> \<bar>v\<bar> < 1000000"
    by (rule etoa_adapt_bounds [OF P X(3,4,7), where flags = flags and minwidth = ?mw])
  define u where "u = (if X' = 0 then \<bar>v\<bar> else rnd (\<bar>v\<bar> / F))"
  have q: "0 \<le> \<bar>v\<bar> / F" using X(2) by simp
  have top: "rnd (2 ^ 11) = 2 ^ 11" using rnd_representable [of 1 11] by (simp add: power_int_def)
  have r: "rnd (\<bar>v\<bar> / F) \<le> 2 ^ 11" using rnd_mono [OF X(5)] top by simp
  have u: "(if X' \<noteq> 0 then d_div (D_fin \<bar>v\<bar>) (D_fin F) else D_fin \<bar>v\<bar>) = D_fin u" "rnd u = u" "0 \<le> u" "u < 2 ^ 31 - 1"
  proof -
    have "\<bar>\<bar>v\<bar> / F\<bar> \<le> 2 ^ 1023" using X(5) q by (simp add: abs_if del: abs_divide)
    then show "(if X' \<noteq> 0 then d_div (D_fin \<bar>v\<bar>) (D_fin F) else D_fin \<bar>v\<bar>) = D_fin u"
      using X(2) D_round_small by (simp add: u_def)
    show "rnd u = u" "0 \<le> u" using abs rnd_nonneg [OF q] by (simp_all add: u_def)
    show "u < 2 ^ 31 - 1" using A(3) X(6) r by (auto simp: u_def)
  qed
  let ?s = "if d_less (D_fin v) (D_fin 0) then d_minus (D_fin u) else D_fin u"
  obtain s where s: "?s = D_fin s" "rnd s = s" "\<bar>s\<bar> < 2 ^ 31 - 1"
  proof -
    have "?s = D_fin (if v < 0 then - u else u)" by simp
    with u that [of "if v < 0 then - u else u"] show ?thesis by simp
  qed
  have "effective_precision p (fl AND NOT FLAGS_ADAPT_EXP) \<le> 41"
    using A(2) by (simp add: effective_precision_def DEFAULT_FLOAT_PRECISION_def)
  then obtain t where t: "ftoa_text (D_fin s) p (etoa_fwidth width mw fl) (fl AND NOT FLAGS_ADAPT_EXP) = Some t"
    by (rule ftoa_text_some [OF s(2,3)])
  have prep: "etoa_prepare (D_fin v) prec width flags = Some (D_fin s, p, etoa_fwidth width mw fl, fl, mw, X')"
    unfolding etoa_prepare_def Let_def P_def [symmetric] pos X(1) bind.simps prod.case A(1) u(1) s(1) ..
  have "etoa_text (D_fin v) prec width flags = Some (exponent_text width fl mw X' t)"
    unfolding etoa_text_def prep using t ordinary(1) [OF assms(2,1)] by simp
  with that show ?thesis by blast
qed

end
