(* ===== verification/FloatProps.thy ===== *)
theory FloatProps
  imports FloatScale PrintfSpec
begin

text \<open>
  The properties of the conversions that \<open>debug_config.h\<close> switches off: what \<open>_ntoa_long_long\<close>, \<open>_ftoa\<close> and
  \<open>_etoa\<close> print, where they are undefined, that they return, and two values they print wrongly.
\<close>

section \<open>long long\<close>

text \<open>The digits of a number, last one first, cut at the size of the buffer.\<close>

lemma ll_digits_loop_digits:
  assumes "2 \<le> unat base" "unat base \<le> 16" "length buf < 32"
  shows "ll_digits_loop v base flags buf
    = buf @ take (32 - length buf) (rev (map (\<lambda>d. digit_char flags (of_nat d)) (base_digits (unat base) (unat v))))"
  using assms
proof (induction v base flags buf rule: ll_digits_loop.induct)
  case (1 v base flags buf)
  let ?b = "unat base" and ?ch = "digit_char flags (ucast (v mod base))"
  have dig: "(ucast (v mod base) :: byte) = of_nat (unat v mod ?b)" by (simp add: unat_mod [symmetric])
  have dv: "unat (v div base) = unat v div ?b" by (simp add: unat_div)
  have k: "32 - length buf = Suc (31 - length buf)" using "1.prems"(3) by simp
  show ?case
  proof (cases "unat v < ?b")
    case True
    then have "v div base = 0" using dv by (simp add: unat_eq_zero [symmetric])
    with True k show ?thesis
      by (subst ll_digits_loop.simps, subst base_digits.simps) (simp add: dig)
  next
    case False
    have nz: "v div base \<noteq> 0"
      using False "1.prems"(1) dv by (metis div_eq_0_iff not_numeral_le_zero unat_0)
    have bd: "base_digits ?b (unat v) = base_digits ?b (unat v div ?b) @ [unat v mod ?b]"
      using False "1.prems"(1) by (subst base_digits.simps) simp
    show ?thesis
    proof (cases "length (buf @ [?ch]) < 32")
      case True
      with "1.IH" [OF refl refl refl] "1.prems" nz k show ?thesis
        by (subst ll_digits_loop.simps) (simp add: Let_def NTOA_BUFFER_SIZE_def bd dv dig)
    next
      case False
      then have "31 - length buf = 0" "32 - length buf = 1" using "1.prems"(3) by simp_all
      with False show ?thesis
        by (subst ll_digits_loop.simps) (simp add: Let_def NTOA_BUFFER_SIZE_def bd dig)
    qed
  qed
qed

lemma low_digits_value:
  "2 \<le> b \<Longrightarrow> foldl (\<lambda>a d. a * b + d) 0 (rev (take n (rev (base_digits b v)))) = v mod b ^ n"
proof (induction n arbitrary: v)
  case (Suc n)
  show ?case
  proof (cases "v < b")
    case True
    then have "v < b ^ Suc n" using Suc.prems by (metis One_nat_def le_less_trans less_le_trans
          one_le_power power_Suc le_add1 mult.right_neutral mult_le_mono2 one_le_numeral order_trans)
    with True show ?thesis by (subst base_digits.simps) simp
  next
    case False
    with Suc.prems have "base_digits b v = base_digits b (v div b) @ [v mod b]"
      by (subst base_digits.simps) simp
    with Suc show ?thesis by (simp add: mod_mult2_eq algebra_simps)
  qed
qed simp

lemma ll_digits_loop_length: "length buf < 32 \<Longrightarrow> length (ll_digits_loop v base flags buf) \<le> 32"
proof (induction v base flags buf rule: ll_digits_loop.induct)
  case (1 v base flags buf)
  then show ?case by (subst ll_digits_loop.simps) (simp add: Let_def NTOA_BUFFER_SIZE_def)
qed

text \<open>A \<open>long long\<close> that fits a \<open>long\<close> has the same digits.\<close>

lemma unat_widen [simp]: "unat (ucast (v :: u32) :: u64) = unat v"
  using unat_u32_bound [of v] by (simp add: unsigned_ucast_eq take_bit_nat_eq_self)

lemma ll_digits_loop_u32:
  "ll_digits_loop (ucast v) (ucast base) flags buf = digits_loop v base flags buf"
proof (induction v base flags buf rule: digits_loop.induct)
  case (1 v base flags buf)
  have m: "(ucast v :: u64) mod ucast base = ucast (v mod base)" "(ucast v :: u64) div ucast base = ucast (v div base)"
    by (simp_all add: word_unat_eq_iff unat_mod unat_div)
  have d: "(ucast (ucast (v mod base) :: u64) :: byte) = ucast (v mod base)"
    by (metis of_nat_unat unat_widen)
  have z: "(ucast w :: u64) = 0 \<longleftrightarrow> w = 0" for w :: u32
    by (simp add: word_unat_eq_iff)
  show ?case
    using "1.IH" [OF refl refl refl]
    by (subst ll_digits_loop.simps, subst digits_loop.simps) (simp add: Let_def m d z)
qed

text \<open>
  \<open>_ntoa_long_long\<close> agrees with \<open>_ntoa_long\<close> on every number of 32 bits, for every output function,
  base, precision, width, sign and set of flags.
\<close>

theorem long_long_agrees:
  "ntoa_long_long out buffer maxlen (ucast v) negative (ucast base) prec width flags o'
    = ntoa_long out buffer maxlen v negative base prec width flags o'"
proof -
  have z: "(ucast v :: u64) = 0 \<longleftrightarrow> v = 0" by (simp add: word_unat_eq_iff)
  have b: "(ucast (ucast base :: u64) :: u32) = base" by (metis of_nat_unat ucast_id unat_widen)
  show ?thesis by (simp only: ntoa_long_long_def ntoa_long_def Let_def z b ll_digits_loop_u32)
qed

text \<open>
  The 64-bit conversions print the value modulo \<open>base ^ 32\<close>: the buffer holds 32 digits. In base 8
  and above that is the numeral of the whole value; in base 2 a value of more than 32 bits loses its
  upper half.
\<close>

theorem long_long_value:
  assumes "2 \<le> unat base" "unat base \<le> 16"
  shows "\<exists>t. ntoa_long_long out buffer maxlen v False base 0 0 0 o' = emits out buffer maxlen t o'
    \<and> num_value (unat base) t = unat v mod unat base ^ 32
    \<and> (unat v < unat base ^ 32 \<longrightarrow> is_numeral (unat base) (unat v) t)"
proof -
  let ?b = "unat base" and ?ch = "\<lambda>d. digit_char 0 (of_nat d)"
  define ds where "ds = take 32 (rev (base_digits ?b (unat v)))"
  define buf where "buf = map ?ch ds"
  have loop: "ll_digits_loop v base 0 [] = buf"
    using ll_digits_loop_digits [OF assms, of "[]" v 0] by (simp add: buf_def ds_def take_map rev_map)
  have no: "\<not> has 0 f" for f by (simp add: has_def)
  have base: "(ucast base :: u32) = of_nat ?b" by (metis of_nat_unat)
  have len: "length buf \<le> 32" by (simp add: buf_def ds_def)
  have "ntoa_buf False (ucast base) 0 0 0 buf = (buf, 0)"
    using len by (simp add: ntoa_buf_def ntoa_zeros_def ntoa_hash_def ntoa_sign_def Let_def no zero_fill_eq)
  then have printed: "ntoa_long_long out buffer maxlen v False base 0 0 0 o' = emits out buffer maxlen (rev buf) o'"
    unfolding ntoa_long_long_def Let_def bit.conj_zero_left if_cancel loop
    by (simp add: no ntoa_format_emits [OF len] rev_text_def)
  have small: "d < 16" if "d \<in> set ds" for d
    using base_digits_less [OF assms(1)] assms(2) that unfolding ds_def by (force dest: in_set_takeD)
  have "foldl (\<lambda>a c. a * ?b + digit_value c) x (map ?ch es) = foldl (\<lambda>a d. a * ?b + d) x es"
    if "\<forall>d \<in> set es. d < 16" for es x
    using that by (induction es arbitrary: x) (auto simp: digit_value_char)
  from this [of "rev ds" 0] have "num_value ?b (rev buf) = foldl (\<lambda>a d. a * ?b + d) 0 (rev ds)"
    using small by (simp add: num_value_def buf_def rev_map)
  also have "\<dots> = unat v mod ?b ^ 32" unfolding ds_def by (rule low_digits_value [OF assms(1)])
  finally have val: "num_value ?b (rev buf) = unat v mod ?b ^ 32" .
  have "is_numeral ?b (unat v) (rev buf)" if "unat v < ?b ^ 32"
  proof -
    have "length (base_digits ?b (unat v)) \<le> Suc 31" using that by (intro base_digits_length [OF assms(1)]) simp
    then have "rev buf = numeral_text 0 ?b (unat v)" by (simp add: buf_def ds_def numeral_text_def rev_map)
    then show ?thesis using numeral_text_is_numeral [OF assms] by simp
  qed
  with printed val show ?thesis by blast
qed

theorem long_long_value_witness:
  "\<exists>t. ntoa_long_long out_null 0 0 0x300000005 False 2 0 0 0 (0, boot (\<lambda>_. 0)) = emits out_null 0 0 t (0, boot (\<lambda>_. 0))
     \<and> num_value 2 t = 5"
  using long_long_value [of 2 out_null 0 0 "0x300000005" "(0, boot (\<lambda>_. 0))"] by auto

section \<open>Fixed notation\<close>

lemma ftoa_text_decimal:
  assumes "is_double v" "\<bar>v\<bar> < 2 ^ 31 - 1" "flags = 0 \<or> flags = FLAGS_PRECISION"
    and "p = effective_precision prec flags" "p \<le> 9" "0 < p" "\<not> carries \<bar>v\<bar> p"
  shows "\<exists>w ds. ftoa_text (D_fin v) prec 0 flags
      = Some ((if v < 0 then [c_minus] else []) @ numeral_text 0 10 w @ c_dot # ds)
    \<and> length ds = p \<and> (\<forall>d \<in> set ds. is_digit d)
    \<and> \<bar>of_nat (w * 10 ^ p + num_value 10 ds) - \<bar>v\<bar> * 10 ^ p\<bar> \<le> 1 / 2 + 1 / 2 ^ 22"
proof -
  define q where "q = \<bar>v\<bar>"
  have v: "rnd v = v" "\<bar>v\<bar> < 2 ^ 1024" using assms(1) by (simp_all add: is_double_def)
  have abs: "rnd q = q" "0 \<le> q" using v(1) by (simp_all add: q_def abs_if)
  obtain w f where d: "decimal q p = (w, f)" by (metis surj_pair)
  note parts = decimal_parts [OF abs assms(5,6) assms(7) [folded q_def] d]
  let ?ds = "rev (digit_text (last_digits p (nat f)))" and ?w = "numeral_text 0 10 (nat w)"
  have "\<bar>v\<bar> < of_int (2 ^ 31 - 1)" using assms(2) by simp
  then have fl: "\<lfloor>q\<rfloor> < 2 ^ 31 - 1" unfolding floor_less_iff q_def .
  have "a \<le> b + 1 \<Longrightarrow> b < 2 ^ 31 - 1 \<Longrightarrow> a < 10 ^ 10" for a b :: int by simp
  from this [OF parts(2) fl] have "length ?w \<le> 10"
    using parts(1) by (intro numeral_text_size) (simp add: nat_less_iff)
  then have "length (?w @ [c_dot] @ ?ds) < 32" using assms(5) by simp
  from ftoa_text_plain [OF assms(3) ordinary(2) [OF v(2,1)] not_large [OF assms(2)]
      ftoa_number_decimal [OF v(1) assms(2,4,6,5,7) d [unfolded q_def]] this]
  have "ftoa_text (D_fin v) prec 0 flags = Some ((if v < 0 then [c_minus] else []) @ ?w @ [c_dot] @ ?ds)" .
  moreover have "num_value 10 ?ds = nat f" using parts(3,4) by (intro num_value_last_digits) (simp add: nat_less_iff)
  moreover have "(of_nat (nat w * 10 ^ p + nat f) :: rat) = of_int (w * 10 ^ p + f)"
    using parts(1,3) by (simp add: of_nat_nat)
  moreover have "\<forall>d \<in> set ?ds. is_digit d" using digit_text_digits by auto
  ultimately show ?thesis
    using parts(5) by (intro exI [of _ "nat w"] exI [of _ ?ds]) (simp add: q_def)
qed

lemma ftoa_text_rounded:
  assumes "is_double v" "\<bar>v\<bar> < 2 ^ 31 - 1" "flags = 0 \<or> flags = FLAGS_PRECISION"
    and "p = effective_precision prec flags" "p \<le> 9" "\<not> carries \<bar>v\<bar> p"
  shows "\<exists>w ds. ftoa_text (D_fin v) prec 0 flags
      = Some ((if v < 0 then [c_minus] else []) @ numeral_text 0 10 w @ (if p = 0 then [] else c_dot # ds))
    \<and> length ds = p \<and> (\<forall>d \<in> set ds. is_digit d)
    \<and> \<bar>of_nat (w * 10 ^ p + num_value 10 ds) - \<bar>v\<bar> * 10 ^ p\<bar> \<le> 1 / 2 + 1 / 2 ^ 22"
proof (cases "p = 0")
  case True
  have v: "rnd v = v" "\<bar>v\<bar> < 2 ^ 1024" using assms(1) by (simp_all add: is_double_def)
  note number = ftoa_number_whole [OF v(1) assms(2) assms(4) [symmetric, unfolded True]]
  let ?w = "nat (half_even \<bar>v\<bar>)"
  have "length (numeral_text 0 10 ?w) < 32"
    using numeral_text_size [of ?w 0] number(2,3) by (simp add: nat_less_iff)
  note t = ftoa_text_plain [OF assms(3) ordinary(2) [OF v(2,1)] not_large [OF assms(2)] number(1) this]
  have "(of_nat ?w :: rat) = of_int (half_even \<bar>v\<bar>)" using number(2) by simp
  moreover have "1 / 2 \<le> 1 / 2 + (1 / 2 ^ 22 :: rat)" by simp
  ultimately have "\<bar>of_nat ?w - \<bar>v\<bar>\<bar> \<le> 1 / 2 + 1 / 2 ^ 22" using half_even_error [of "\<bar>v\<bar>"] by linarith
  with t True show ?thesis by (intro exI [of _ ?w] exI [of _ "[]"]) (simp add: num_value_def)
next
  case False
  with ftoa_text_decimal [OF assms(1-5) _ assms(6)] show ?thesis by simp
qed

text \<open>
  C5. \<open>%f\<close> prints the sign of a negative value, the whole part without leading zeros and exactly as
  many decimals as the precision asks for, up to nine. The printed number is off by at most half a
  unit of the last decimal plus \<open>2 ^ -22\<close> of it, for every value below \<open>2 ^ 31 - 1\<close> but those that
  carry (\<open>ftoa_carry_garbles\<close>); without decimals it is the value rounded to even.
\<close>

theorem ftoa_accurate:
  assumes "is_double v" "\<bar>v\<bar> < 2 ^ 31 - 1" "flags = 0 \<or> flags = FLAGS_PRECISION"
    and "p = effective_precision prec flags" "p \<le> 9" "\<not> carries \<bar>v\<bar> p"
  shows "\<exists>w ds. ftoa out buffer maxlen (D_fin v) prec 0 flags o' = Some (emits out buffer maxlen
      ((if v < 0 then [c_minus] else []) @ numeral_text 0 10 w @ (if p = 0 then [] else c_dot # ds)) o')
    \<and> length ds = p \<and> (\<forall>d \<in> set ds. is_digit d)
    \<and> \<bar>of_nat (w * 10 ^ p + num_value 10 ds) - \<bar>v\<bar> * 10 ^ p\<bar> \<le> 1 / 2 + 1 / 2 ^ 22"
proof -
  obtain w ds where t: "ftoa_text (D_fin v) prec 0 flags
      = Some ((if v < 0 then [c_minus] else []) @ numeral_text 0 10 w @ (if p = 0 then [] else c_dot # ds))"
    and r: "length ds = p \<and> (\<forall>d \<in> set ds. is_digit d)
      \<and> \<bar>of_nat (w * 10 ^ p + num_value 10 ds) - \<bar>v\<bar> * 10 ^ p\<bar> \<le> 1 / 2 + 1 / 2 ^ 22"
    using ftoa_text_rounded [OF assms] by blast
  have "ftoa out buffer maxlen (D_fin v) prec 0 flags o' = Some (emits out buffer maxlen
      ((if v < 0 then [c_minus] else []) @ numeral_text 0 10 w @ (if p = 0 then [] else c_dot # ds)) o')"
    unfolding ftoa_emits [OF disjI1, OF not_large [OF assms(2)]] t by (simp only: option.map)
  with r show ?thesis by blast
qed

lemma quarter_double: "is_double (13 / 4)"
  using rnd_representable [of 13 "- 2"] by (simp add: is_double_def power_int_def power_one_over)

theorem ftoa_accurate_witness:
  "\<exists>w ds. ftoa out_null 0 0 (D_fin (13 / 4)) 1 0 FLAGS_PRECISION (0, boot (\<lambda>_. 0)) = Some (emits out_null 0 0
      (numeral_text 0 10 w @ (c_dot # ds)) (0, boot (\<lambda>_. 0)))
    \<and> length ds = 1 \<and> \<bar>of_nat (w * 10 + num_value 10 ds) - 65 / (2 :: rat)\<bar> \<le> 1 / 2 + 1 / 2 ^ 22"
proof -
  have p: "1 = effective_precision 1 FLAGS_PRECISION" by (simp add: effective_precision_def has_def flag_bits)
  have "\<lfloor>13 / 4 :: rat\<rfloor> = 3" by (simp add: floor_eq_iff)
  then have "scaled_fraction (13 / 4) 1 = 5 / 2"
    using rnd_representable [of 5 "- 1"] by (simp add: scaled_fraction_def power_int_def)
  then have "\<not> carries \<bar>13 / 4\<bar> 1" by (simp add: carries_def)
  then show ?thesis
    using ftoa_accurate [OF quarter_double _ _ p, of out_null 0 0 "(0, boot (\<lambda>_. 0))"] by auto
qed

text \<open>The carry: the digits of \<open>10 ^ p\<close> take one place too many and the zeros fill the buffer.\<close>

lemma frac_loop_carry:
  assumes "n \<le> 9" "length buf + n < 32"
  shows "frac_loop (of_nat (10 ^ n)) (of_nat n) buf = (- 1, buf @ replicate n c_0 @ [49])"
  using assms
proof (induction n arbitrary: buf)
  case 0
  then show ?case by (subst frac_loop.simps) (simp add: Let_def FTOA_BUFFER_SIZE_def)
next
  case (Suc n)
  have "(10 :: nat) ^ Suc n \<le> 10 ^ 9" using Suc.prems by (intro power_increasing) simp_all
  then have u: "unat (of_nat (10 ^ Suc n) :: u32) = 10 ^ Suc n" by (intro unat_of_nat32) simp
  have m: "ucast (of_nat (10 ^ Suc n) mod 10 :: u32) = (0 :: byte)"
    unfolding unat_mod10 u by simp
  have "(of_nat (10 ^ Suc n) div 10 :: u32) = of_nat (10 ^ n)"
  proof (rule word_unat_eq_iff [THEN iffD2])
    have "(10 :: nat) ^ n \<le> 10 ^ 9" using Suc.prems by (intro power_increasing) simp_all
    then have "unat (of_nat (10 ^ n) :: u32) = 10 ^ n" by (intro unat_of_nat32) simp
    then show "unat (of_nat (10 ^ Suc n) div 10 :: u32) = unat (of_nat (10 ^ n) :: u32)"
      unfolding unat_div u by simp
  qed
  moreover have "(of_nat (10 ^ n) :: u32) \<noteq> 0"
  proof -
    have "(10 :: nat) ^ n \<le> 10 ^ 9" using Suc.prems by (intro power_increasing) simp_all
    then have "unat (of_nat (10 ^ n) :: u32) = 10 ^ n" by (intro unat_of_nat32) simp
    then show ?thesis by (metis power_not_zero unat_0 zero_neq_numeral)
  qed
  moreover have "of_nat (Suc n) - 1 = (of_nat n :: u32)" by simp
  ultimately show ?case
    using Suc.IH [of "buf @ [c_0]"] Suc.prems m
    by (subst frac_loop.simps) (simp add: Let_def FTOA_BUFFER_SIZE_def replicate_append_same del: of_nat_power of_nat_Suc power_Suc)
qed

lemma decimal_carries:
  assumes "carries q p"
  shows "decimal q p = (\<lfloor>q\<rfloor>, 10 ^ p)"
proof -
  have x: "scaled_fraction q p = 10 ^ p - 1 / 2" and p: "0 < p" using assms by (simp_all add: carries_def)
  have "\<lfloor>of_int (10 ^ p) - 1 / 2 :: rat\<rfloor> = 10 ^ p - 1" by (simp add: floor_eq_iff)
  then have fl: "\<lfloor>10 ^ p - 1 / 2 :: rat\<rfloor> = 10 ^ p - 1" by simp
  have "odd ((10 :: int) ^ p - 1)" using p by simp
  then show ?thesis unfolding decimal_def Let_def x fl by simp
qed

lemma ftoa_text_carry:
  assumes "is_double v" "\<bar>v\<bar> < 2 ^ 31 - 1" "p = effective_precision prec flags" "p \<le> 9" "carries \<bar>v\<bar> p"
  shows "ftoa_text (D_fin v) prec 0 flags = Some (replicate (31 - p) c_0 @ [49] @ replicate p c_0)"
proof -
  define P where "P = (if has flags FLAGS_PRECISION then prec else DEFAULT_FLOAT_PRECISION)"
  define buf where "buf = replicate p c_0 @ [49] @ replicate (31 - p) c_0"
  have P: "P = of_nat p" "unat P = p" using assms(3) by (simp_all add: P_def effective_precision_def)
  have p: "0 < p" using assms(5) by (simp add: carries_def)
  have v: "rnd v = v" "\<bar>v\<bar> < 2 ^ 1024" using assms(1) by (simp_all add: is_double_def)
  have abs: "rnd \<bar>v\<bar> = \<bar>v\<bar>" "0 \<le> \<bar>v\<bar>" using v(1) by (simp_all add: abs_if)
  have "D_round (- v) = D_fin (- v)"
    using v(1) assms(2) D_round_small [of "- v"] by (simp add: order_trans [OF less_imp_le])
  then have pos: "(if d_less (D_fin v) (D_fin 0) then d_sub (D_fin 0) (D_fin v) else D_fin v) = D_fin \<bar>v\<bar>"
    by (simp add: d_sub_def abs_if)
  have limit: "limit_precision P [] = (P, [])" using assms(4) P by (simp add: limit_precision_eq Let_def)
  have split: "ftoa_split (D_fin \<bar>v\<bar>) P = Some (\<lfloor>\<bar>v\<bar>\<rfloor>, of_nat (10 ^ p))"
    unfolding P(1) ftoa_split_decimal [OF abs assms(2,4)] decimal_carries [OF assms(5)] by simp
  have "ftoa_decimals (of_nat (10 ^ p)) P [] = buf"
    unfolding ftoa_decimals_def P(1) using frac_loop_carry [OF assms(4), of "[]"] assms(4)
    by (simp add: extra_zeros_eq FTOA_BUFFER_SIZE_def unsigned_minus_1_eq_mask mask_eq_exp_minus_1 buf_def)
  moreover have "whole_loop w buf = buf" for w by (subst whole_loop.simps) (simp add: buf_def FTOA_BUFFER_SIZE_def)
  moreover have "P \<noteq> 0" using P p by auto
  ultimately have number: "ftoa_number (D_fin v) prec flags = Some (v < 0, buf)"
    unfolding ftoa_number_def Let_def P_def [symmetric] pos limit prod.case split by simp
  have len: "length buf = 32" using assms(4) by (simp add: buf_def)
  have "ftoa_text (D_fin v) prec 0 flags = Some (rev buf)"
    using ordinary(2) [OF v(2,1)] not_large [OF assms(2)] number len
    by (simp add: ftoa_text_def ftoa_buf_def ftoa_pad_def ftoa_sign_def ftoa_fill_eq rev_text_def Let_def FTOA_BUFFER_SIZE_def)
  moreover have "rev buf = replicate (31 - p) c_0 @ [49] @ replicate p c_0" by (simp add: buf_def)
  ultimately show ?thesis by simp
qed

text \<open>
  C26. One case of the rounding is wrong. When the scaled fraction lies half-way below the next whole number
  (as for \<open>%.1f\<close> of 0.95) the code rounds up without looking for a carry: the conversion prints a one
  among 31 zeros, without a decimal point, whatever the value, its sign and the flags are.
\<close>

theorem ftoa_carry_garbles:
  assumes "is_double v" "\<bar>v\<bar> < 2 ^ 31 - 1" "p = effective_precision prec flags" "p \<le> 9" "carries \<bar>v\<bar> p"
  shows "ftoa out buffer maxlen (D_fin v) prec 0 flags o'
    = Some (emits out buffer maxlen (replicate (31 - p) c_0 @ [49] @ replicate p c_0) o')"
  using ftoa_emits [of "D_fin v" flags out buffer maxlen prec 0 o'] not_large [OF assms(2)] ftoa_text_carry [OF assms] by simp

text \<open>The \<open>double\<close> next to 0.95.\<close>

definition near_095 :: rat where "near_095 = 4278419646001971 / 4503599627370496"

lemma near_095: "is_double near_095" "carries near_095 1" "rnd 0.95 = near_095"
proof -
  show "is_double near_095"
    using rnd_representable [of 4278419646001971 "- 52"] by (simp add: is_double_def near_095_def power_int_def power_one_over)
  have fl: "\<lfloor>near_095\<rfloor> = 0" by (simp add: near_095_def floor_eq_iff)
  have "ilog2 \<bar>near_095 * 10\<bar> = 3" by (rule ilog2_unique) (simp_all add: near_095_def power_int_def)
  then have lp: "last_place (near_095 * 10) = - 49" by (simp add: last_place_def)
  have "half_even (near_095 * 10 / 2 powi (- 49)) = 5348024557502464"
    by (rule half_evenI) (simp add: near_095_def power_int_def power_one_over)
  then have "rnd (near_095 * 10) = 19 / 2"
    unfolding rnd_def lp by (simp add: near_095_def power_int_def power_one_over)
  then show "carries near_095 1" by (simp add: carries_def scaled_fraction_def fl)
  have "ilog2 \<bar>0.95\<bar> = - 1" by (rule ilog2_unique) (simp_all add: power_int_def)
  then have lp: "last_place 0.95 = - 53" by (simp add: last_place_def)
  have "half_even (0.95 / 2 powi (- 53)) = 8556839292003942"
    by (rule half_evenI) (simp add: power_int_def power_one_over)
  then show "rnd 0.95 = near_095"
    unfolding rnd_def lp by (simp add: near_095_def power_int_def power_one_over)
qed

theorem ftoa_carry_garbles_witness:
  "ftoa out_char 4 0 (D_fin near_095) 1 0 FLAGS_PRECISION (0, boot (\<lambda>_. 0))
    = Some (32, (boot (\<lambda>_. 0))\<lparr>uart_out := replicate 30 c_0 @ [49, c_0]\<rparr>)"
proof -
  have p: "1 = effective_precision 1 FLAGS_PRECISION" by (simp add: effective_precision_def has_def flag_bits)
  have "\<bar>near_095\<bar> = near_095" "\<bar>near_095\<bar> < 2 ^ 31 - 1" by (simp_all add: near_095_def)
  then show ?thesis
    using ftoa_carry_garbles [OF near_095(1) _ p, of out_char 4 0 "(0, boot (\<lambda>_. 0))"] near_095(2)
    by (simp add: emits_char emit_def out_char_def put_char_def UART_write_def)
qed

section \<open>Where the conversions are defined\<close>

lemma ftoa_number_none:
  assumes "42 \<le> effective_precision prec flags \<or> 2 ^ 31 \<le> \<bar>v\<bar>" "\<bar>v\<bar> \<le> 10000000000"
  shows "ftoa_number (D_fin v) prec flags = None"
proof -
  define P where "P = (if has flags FLAGS_PRECISION then prec else DEFAULT_FLOAT_PRECISION)"
  obtain p buf where pb: "limit_precision P [] = (p, buf)" by (metis surj_pair)
  define u where "u = (if d_less (D_fin v) (D_fin 0) then d_sub (D_fin 0) (D_fin v) else D_fin v)"
  have "ftoa_split u p = None"
  proof (cases "2 ^ 31 \<le> \<bar>v\<bar>")
    case False
    then have "42 \<le> unat P" using assms(1) by (simp add: effective_precision_def P_def)
    then have "9 < unat p" using limited_precision [of P] by (simp add: pb)
    then show ?thesis by (cases "d_to_int u") (simp_all add: ftoa_split_def pow10_def)
  next
    case True
    have "D_round (- v) = D_fin (rnd (- v))"
      using assms(2) by (intro D_round_small order_trans [OF _ power_increasing [of 34 1023]]) simp_all
    moreover have "2 ^ 31 \<le> rnd \<bar>v\<bar>"
      using rnd_mono [OF True] rnd_of_int [of "2 ^ 31"] by simp
    ultimately have "\<exists>r. u = D_fin r \<and> 2 ^ 31 \<le> r"
      using True by (auto simp: u_def d_sub_def abs_if)
    then obtain r where "u = D_fin r" "2 ^ 31 \<le> r" by blast
    then have "d_to_int u = None" by (simp add: int32_def trunc_def floor_less_iff)
    then show ?thesis by (simp add: ftoa_split_def)
  qed
  then show ?thesis unfolding ftoa_number_def Let_def P_def [symmetric] u_def [symmetric] pb by simp
qed

text \<open>
  C16. \<open>_ftoa\<close> is undefined for two reasons, in the range of values it handles itself. A precision of 42 or more
  fills the buffer with zeros before it has come down to 9, and then indexes the table of ten powers
  with what is left of it. A value from \<open>2 ^ 31\<close> up to \<open>PRINTF_MAX_FLOAT\<close> does not fit the \<open>int\<close>
  it is converted to. Everything else it prints.
\<close>

theorem ftoa_undefined_iff:
  assumes "is_double v" "\<bar>v\<bar> \<le> 10000000000" "\<bar>v\<bar> < 2 ^ 31 - 1 \<or> 2 ^ 31 \<le> \<bar>v\<bar>"
  shows "ftoa out buffer maxlen (D_fin v) prec width flags o' = None
    \<longleftrightarrow> 42 \<le> effective_precision prec flags \<or> 2 ^ 31 \<le> \<bar>v\<bar>"
proof -
  have v: "rnd v = v" "\<bar>v\<bar> < 2 ^ 1024" using assms(1) by (simp_all add: is_double_def)
  have large: "\<not> ftoa_large (D_fin v)" using assms(2) by (simp add: ftoa_large_def PRINTF_MAX_FLOAT_def abs_le_iff)
  have special: "ftoa_special (D_fin v) flags = None" by (rule ordinary(2) [OF v(2,1)])
  have "ftoa_text (D_fin v) prec width flags = None \<longleftrightarrow> ftoa_number (D_fin v) prec flags = None"
    using large special
    by (cases "ftoa_number (D_fin v) prec flags") (auto simp: ftoa_text_def ftoa_buf_def Let_def split_def)
  also have "\<dots> \<longleftrightarrow> 42 \<le> effective_precision prec flags \<or> 2 ^ 31 \<le> \<bar>v\<bar>"
  proof (cases "42 \<le> effective_precision prec flags \<or> 2 ^ 31 \<le> \<bar>v\<bar>")
    case True
    then show ?thesis using ftoa_number_none [OF True assms(2)] by blast
  next
    case False
    then have "\<bar>v\<bar> < 2 ^ 31 - 1" "effective_precision prec flags \<le> 41" using assms(3) by auto
    from ftoa_number_some [OF v(1) this] False show ?thesis by auto
  qed
  finally show ?thesis using ftoa_emits [of "D_fin v" flags out buffer maxlen prec width o'] large by simp
qed

theorem ftoa_undefined_iff_witness:
  "ftoa out_char 4 0 (D_fin (13 / 4)) 42 0 FLAGS_PRECISION (0, boot (\<lambda>_. 0)) = None
   \<and> ftoa out_char 4 0 (D_fin (13 / 4)) 41 0 FLAGS_PRECISION (0, boot (\<lambda>_. 0)) \<noteq> None"
  using ftoa_undefined_iff [OF quarter_double, of out_char 4 0 42 0 FLAGS_PRECISION "(0, boot (\<lambda>_. 0))"]
    ftoa_undefined_iff [OF quarter_double, of out_char 4 0 41 0 FLAGS_PRECISION "(0, boot (\<lambda>_. 0))"]
  by (simp add: effective_precision_def has_def flag_bits)

text \<open>
  C15. The recursion of \<open>_ftoa\<close> and \<open>_etoa\<close> ends: with a precision of at most 36 \<open>_etoa\<close> returns for every
  finite value, and so does \<open>_ftoa\<close> when it handles the value (below \<open>2 ^ 31 - 1\<close>) or leaves it to
  \<open>_etoa\<close> (above \<open>PRINTF_MAX_FLOAT\<close>). What they do is print one text.
\<close>

theorem float_conversions_return:
  assumes "is_double v" "effective_precision prec flags \<le> 36"
  shows "(\<exists>t. etoa out buffer maxlen (D_fin v) prec width flags o' = Some (emits out buffer maxlen t o'))
    \<and> (\<bar>v\<bar> < 2 ^ 31 - 1 \<or> 10000000000 < \<bar>v\<bar>
      \<longrightarrow> (\<exists>t. ftoa out buffer maxlen (D_fin v) prec width flags o' = Some (emits out buffer maxlen t o')))"
proof (intro conjI impI)
  have v: "rnd v = v" "\<bar>v\<bar> < 2 ^ 1024" using assms(1) by (simp_all add: is_double_def)
  obtain t where "etoa_text (D_fin v) prec width flags = Some t" by (rule etoa_text_some [OF v assms(2)])
  from etoa_emits [OF this] have e: "etoa out buffer maxlen (D_fin v) prec width flags o' = Some (emits out buffer maxlen t o')" .
  then show "\<exists>t. etoa out buffer maxlen (D_fin v) prec width flags o' = Some (emits out buffer maxlen t o')" by blast
  have e41: "effective_precision prec flags \<le> 41" using assms(2) by simp
  assume range: "\<bar>v\<bar> < 2 ^ 31 - 1 \<or> 10000000000 < \<bar>v\<bar>"
  show "\<exists>t. ftoa out buffer maxlen (D_fin v) prec width flags o' = Some (emits out buffer maxlen t o')"
  proof (cases "\<bar>v\<bar> < 2 ^ 31 - 1")
    case True
    obtain t where "ftoa_text (D_fin v) prec width flags = Some t"
      by (rule ftoa_text_some [OF v(1) True e41])
    then show ?thesis using ftoa_emits [of "D_fin v" flags out buffer maxlen prec width o'] not_large [OF True] by auto
  next
    case False
    with range have "10000000000 < \<bar>v\<bar>" by blast
    then have "ftoa_large (D_fin v)" by (auto simp: ftoa_large_def PRINTF_MAX_FLOAT_def abs_if split: if_splits)
    then have "ftoa out buffer maxlen (D_fin v) prec width flags o' = etoa out buffer maxlen (D_fin v) prec width flags o'"
      using ordinary(2) [OF v(2,1)] by (simp add: ftoa_def etoa_def float_text.simps [of False])
    with e show ?thesis by auto
  qed
qed

theorem float_conversions_return_witness:
  "(\<exists>t. etoa out_char 4 0 (D_fin (13 / 4)) 0 0 0 (0, boot (\<lambda>_. 0)) = Some (emits out_char 4 0 t (0, boot (\<lambda>_. 0))))
   \<and> (\<exists>t. ftoa out_char 4 0 (D_fin (2 ^ 40)) 0 0 0 (0, boot (\<lambda>_. 0)) = Some (emits out_char 4 0 t (0, boot (\<lambda>_. 0))))"
proof -
  have d: "is_double (2 ^ 40)" using rnd_representable [of 1 40] by (simp add: is_double_def power_int_def)
  have p: "effective_precision 0 0 \<le> 36" by (simp add: effective_precision_def has_def DEFAULT_FLOAT_PRECISION_def)
  show ?thesis
    using float_conversions_return [OF quarter_double p, of out_char 4 0 0 "(0, boot (\<lambda>_. 0))"]
      float_conversions_return [OF d p, of out_char 4 0 0 "(0, boot (\<lambda>_. 0))"] by simp
qed

text \<open>
  Zero has no decimal exponent, and \<open>_etoa\<close> gives it the smallest one it knows: \<open>%e\<close> of 0 prints
  \<open>0.000000e-308\<close>.
\<close>

theorem etoa_zero:
  "etoa out buffer maxlen (D_fin 0) prec 0 0 o'
    = Some (emits out buffer maxlen (map of_char ''0.000000e-308'') o')"
proof -
  have z: "0 \<le> (0 :: rat)" "(0 :: rat) < 2 ^ 1024" by simp_all
  obtain F where scale: "etoa_scale (D_fin 0) = Some (- 308, D_fin F)" "0 < F"
    by (rule etoa_scale_bounds [OF z]) blast
  have no: "\<not> has 0 f" for f by (simp add: has_def)
  have prep: "etoa_prepare (D_fin 0) prec 0 0 = Some (D_fin 0, DEFAULT_FLOAT_PRECISION, 0, 0, 5, - 308)"
    using scale(2) by (simp add: etoa_prepare_def no scale(1) etoa_adapt_def etoa_fwidth_def D_round_def)
  have frac: "scaled_fraction \<bar>0\<bar> 6 = 0" by (simp add: scaled_fraction_def)
  have "decimal \<bar>0\<bar> 6 = (0, 0)" using frac by (simp add: decimal_def Let_def)
  moreover have "\<not> carries \<bar>0\<bar> 6" using frac by (simp add: carries_def)
  moreover have "6 = effective_precision DEFAULT_FLOAT_PRECISION 0"
    by (simp add: effective_precision_def no DEFAULT_FLOAT_PRECISION_def)
  ultimately have "ftoa_number (D_fin 0) DEFAULT_FLOAT_PRECISION 0
      = Some (False, rev (numeral_text 0 10 (nat 0) @ [c_dot] @ rev (digit_text (last_digits 6 (nat 0)))))"
    using ftoa_number_decimal [of 0 6 DEFAULT_FLOAT_PRECISION 0 0 0] by simp
  moreover have "base_digits 10 0 = [0]" by (subst base_digits.simps) simp
  moreover have "last_digits 6 0 = [0, 0, 0, 0, 0, 0]" by code_simp
  ultimately have number: "ftoa_number (D_fin 0) DEFAULT_FLOAT_PRECISION 0 = Some (False, map of_char ''000000.0'')"
    by (simp add: numeral_text_def digit_char_def)
  then have "ftoa_text (D_fin 0) DEFAULT_FLOAT_PRECISION 0 0 = Some (map of_char ''0.000000'')"
    using ordinary(2) [of 0 0] not_large [of 0]
    by (simp add: ftoa_text_def ftoa_buf_def ftoa_pad_def ftoa_sign_def rev_text_def Let_def no FTOA_BUFFER_SIZE_def)
  moreover have "exponent_text 0 0 5 (- 308) (map of_char ''0.000000'') = map of_char ''0.000000e-308''"
    by code_simp
  moreover have "\<not> etoa_special (D_fin 0)" using ordinary(1) [of 0] by simp
  ultimately have "etoa_text (D_fin 0) prec 0 0 = Some (map of_char ''0.000000e-308'')"
    by (simp add: etoa_text_def prep del: list.map)
  then show ?thesis by (rule etoa_emits)
qed

end
