(* ===== verification/FullPrintf.thy ===== *)
theory FullPrintf
  imports FloatProps
begin

text \<open>
  \<open>_vsnprintf\<close> of \<open>c_test/printf.c\<close> with \<open>PRINTF_SUPPORT_LONG_LONG\<close> and \<open>PRINTF_SUPPORT_FLOAT\<close>: the
  cases the build of the programs leaves out, and the formatter around them. The other cases are those
  of \<open>Printf\<close>, on the words among the arguments.
\<close>

section \<open>Arguments\<close>

text \<open>
  The variable arguments with the types they were passed with. Reading one with another type is
  undefined; \<open>va_words\<close> are the words that can be read before that happens.
\<close>

datatype va_value = VA_word u32 | VA_long_long u64 | VA_double dbl

fun va_words :: "va_value list \<Rightarrow> u32 list" where
  "va_words (VA_word v # va) = v # va_words va"
| "va_words va = []"

text \<open>The arguments left when \<open>ws\<close> of the words at their front are left.\<close>

definition va_rest :: "va_value list \<Rightarrow> u32 list \<Rightarrow> va_value list" where
  "va_rest va ws = drop (length (va_words va) - length ws) va"

section \<open>Conversions\<close>

abbreviation c_e :: byte where "c_e \<equiv> 101"
abbreviation c_f :: byte where "c_f \<equiv> 102"
abbreviation c_g :: byte where "c_g \<equiv> 103"
abbreviation c_E :: byte where "c_E \<equiv> 69"
abbreviation c_F :: byte where "c_F \<equiv> 70"
abbreviation c_G :: byte where "c_G \<equiv> 71"

definition ll_magnitude :: "u64 \<Rightarrow> u64" where
  "ll_magnitude val = (if sint val > 0 then val else - val)"

definition convert_ll_signed :: "out_fct_type \<Rightarrow> u32 \<Rightarrow> u32 \<Rightarrow> u32 \<Rightarrow> u32 \<Rightarrow> u32 \<Rightarrow> u32 \<Rightarrow> va_value list
    \<Rightarrow> outpos \<Rightarrow> (va_value list \<times> outpos) option" where
  "convert_ll_signed out buffer maxlen base flags width precision va o' =
     (case va of VA_long_long v # va \<Rightarrow> Some (va,
         ntoa_long_long out buffer maxlen (ll_magnitude v) (sint v < 0) (ucast base) precision width flags o')
      | _ \<Rightarrow> None)"

definition convert_ll_unsigned :: "out_fct_type \<Rightarrow> u32 \<Rightarrow> u32 \<Rightarrow> u32 \<Rightarrow> u32 \<Rightarrow> u32 \<Rightarrow> u32 \<Rightarrow> va_value list
    \<Rightarrow> outpos \<Rightarrow> (va_value list \<times> outpos) option" where
  "convert_ll_unsigned out buffer maxlen base flags width precision va o' =
     (case va of VA_long_long v # va \<Rightarrow> Some (va,
         ntoa_long_long out buffer maxlen v False (ucast base) precision width flags o')
      | _ \<Rightarrow> None)"

definition convert_fixed :: "out_fct_type \<Rightarrow> u32 \<Rightarrow> u32 \<Rightarrow> byte \<Rightarrow> u32 \<Rightarrow> u32 \<Rightarrow> u32 \<Rightarrow> va_value list
    \<Rightarrow> outpos \<Rightarrow> (va_value list \<times> outpos) option" where
  "convert_fixed out buffer maxlen c flags width precision va o' =
     (let flags = (if c = c_F then flags OR FLAGS_UPPERCASE else flags)
      in case va of VA_double d # va \<Rightarrow> do {
           o' \<leftarrow> ftoa out buffer maxlen d precision width flags o';
           Some (va, o')
         } | _ \<Rightarrow> None)"

definition convert_exponential :: "out_fct_type \<Rightarrow> u32 \<Rightarrow> u32 \<Rightarrow> byte \<Rightarrow> u32 \<Rightarrow> u32 \<Rightarrow> u32 \<Rightarrow> va_value list
    \<Rightarrow> outpos \<Rightarrow> (va_value list \<times> outpos) option" where
  "convert_exponential out buffer maxlen c flags width precision va o' =
     (let flags = (if c = c_g \<or> c = c_G then flags OR FLAGS_ADAPT_EXP else flags);
          flags = (if c = c_E \<or> c = c_G then flags OR FLAGS_UPPERCASE else flags)
      in case va of VA_double d # va \<Rightarrow> do {
           o' \<leftarrow> etoa out buffer maxlen d precision width flags o';
           Some (va, o')
         } | _ \<Rightarrow> None)"

definition full_convert :: "out_fct_type \<Rightarrow> u32 \<Rightarrow> u32 \<Rightarrow> byte \<Rightarrow> u32 \<Rightarrow> u32 \<Rightarrow> u32 \<Rightarrow> va_value list
    \<Rightarrow> outpos \<Rightarrow> (va_value list \<times> outpos) option" where
  "full_convert out buffer maxlen c flags width precision va o' =
     (if int_specifier c \<and> has (int_flags c flags) FLAGS_LONG_LONG then
        if c = c_i \<or> c = c_d
        then convert_ll_signed out buffer maxlen (int_base c) (int_flags c flags) width precision va o'
        else convert_ll_unsigned out buffer maxlen (int_base c) (int_flags c flags) width precision va o'
      else if c = c_f \<or> c = c_F then convert_fixed out buffer maxlen c flags width precision va o'
      else if c = c_e \<or> c = c_E \<or> c = c_g \<or> c = c_G then
        convert_exponential out buffer maxlen c flags width precision va o'
      else do {
        (ws, o') \<leftarrow> convert out buffer maxlen c flags width precision (va_words va) o';
        Some (va_rest va ws, o')
      })"

section \<open>The formatter\<close>

partial_function (option) full_format_loop :: "out_fct_type \<Rightarrow> u32 \<Rightarrow> u32 \<Rightarrow> u32 \<Rightarrow> va_value list
    \<Rightarrow> outpos \<Rightarrow> outpos option" where
  "full_format_loop out buffer maxlen format va o' =
     (if mem (snd o') format = 0 then Some o'
      else if mem (snd o') format \<noteq> c_percent then
        full_format_loop out buffer maxlen (format + 1) va
          (emit out buffer maxlen (mem (snd o') format) o')
      else do {
        (flags, format) \<leftarrow> parse_flags (mem (snd o')) (format + 1) 0;
        (width, flags, format, ws) \<leftarrow> parse_width flags format (va_words va) (snd o');
        (precision, flags, format, ws) \<leftarrow> parse_precision flags format ws (snd o');
        let (flags, format) = parse_length flags format (snd o');
        (va, o') \<leftarrow> full_convert out buffer maxlen (mem (snd o') format) flags width precision (va_rest va ws) o';
        full_format_loop out buffer maxlen (format + 1) va o'
      })"

definition full_vsnprintf_core :: "out_fct_type \<Rightarrow> u32 \<Rightarrow> u32 \<Rightarrow> u32 \<Rightarrow> va_value list \<Rightarrow> machine
    \<Rightarrow> (u32 \<times> machine) option" where
  "full_vsnprintf_core out buffer maxlen format va st = do {
     let out = (if buffer = 0 then out_null else out);
     (idx, st) \<leftarrow> full_format_loop out buffer maxlen format va (0, st);
     Some (idx, out 0 buffer (if idx < maxlen then idx else maxlen - 1) maxlen st)
   }"

definition full_printf :: "u32 \<Rightarrow> u32 \<Rightarrow> va_value list \<Rightarrow> machine \<Rightarrow> (u32 \<times> machine) option" where
  "full_printf stack format va st = full_vsnprintf_core out_char stack (- 1) format va st"

section \<open>Both configurations\<close>

lemma va_words_map [simp]: "va_words (map VA_word ws) = ws"
  by (induction ws) simp_all

lemma va_rest_words: "ws = drop n us \<Longrightarrow> va_rest (map VA_word us) ws = map VA_word ws"
  by (cases "n \<le> length us") (auto simp: va_rest_def drop_map)

text \<open>The scanners and conversions take words from the front of the arguments.\<close>

lemma takes_front:
  "parse_width fl p us st = Some (w, fl', p', ws) \<Longrightarrow> \<exists>n. ws = drop n us"
  "parse_precision fl p us st = Some (w, fl', p', ws) \<Longrightarrow> \<exists>n. ws = drop n us"
  "convert out buffer maxlen c fl w pr us o' = Some (ws, o'') \<Longrightarrow> \<exists>n. ws = drop n us"
proof -
  have va: "va_arg us = Some (v, ws) \<Longrightarrow> \<exists>n. ws = drop n us" for v ws
    by (cases us) (auto intro: exI [of _ 1])
  have id: "\<exists>n. us = drop n us" by (rule exI [of _ 0]) simp
  show "parse_width fl p us st = Some (w, fl', p', ws) \<Longrightarrow> \<exists>n. ws = drop n us"
    using va id by (auto simp: parse_width_def bind_eq_Some_conv split: if_splits prod.splits)
  show "parse_precision fl p us st = Some (w, fl', p', ws) \<Longrightarrow> \<exists>n. ws = drop n us"
    using va id by (auto simp: parse_precision_def Let_def bind_eq_Some_conv split: if_splits prod.splits)
  show "convert out buffer maxlen c fl w pr us o' = Some (ws, o'') \<Longrightarrow> \<exists>n. ws = drop n us"
    using va id
    by (auto simp: convert_def convert_int_def convert_char_def convert_string_def convert_pointer_def Let_def
        bind_eq_Some_conv split: if_splits prod.splits)
qed

text \<open>
  A run of the formatter that meets only directives both configurations have: no floating point
  specifier, and no length modifier \<open>ll\<close> or \<open>j\<close> on an integer conversion.
\<close>

definition common :: "byte \<Rightarrow> u32 \<Rightarrow> bool" where
  "common c flags \<longleftrightarrow> c \<notin> {c_f, c_F, c_e, c_E, c_g, c_G}
     \<and> \<not> (int_specifier c \<and> has (int_flags c flags) FLAGS_LONG_LONG)"

inductive common_run :: "out_fct_type \<Rightarrow> u32 \<Rightarrow> u32 \<Rightarrow> u32 \<Rightarrow> u32 list \<Rightarrow> outpos \<Rightarrow> bool"
  for out buffer maxlen where
  stop: "mem (snd o') fmt = 0 \<Longrightarrow> common_run out buffer maxlen fmt ws o'"
| character: "mem (snd o') fmt \<noteq> 0 \<Longrightarrow> mem (snd o') fmt \<noteq> c_percent
    \<Longrightarrow> common_run out buffer maxlen (fmt + 1) ws (emit out buffer maxlen (mem (snd o') fmt) o')
    \<Longrightarrow> common_run out buffer maxlen fmt ws o'"
| directive: "mem (snd o') fmt = c_percent
    \<Longrightarrow> parse_flags (mem (snd o')) (fmt + 1) 0 = Some (fl1, p1)
    \<Longrightarrow> parse_width fl1 p1 ws (snd o') = Some (w, fl2, p2, ws2)
    \<Longrightarrow> parse_precision fl2 p2 ws2 (snd o') = Some (pr, fl3, p3, ws3)
    \<Longrightarrow> parse_length fl3 p3 (snd o') = (fl4, p4)
    \<Longrightarrow> common (mem (snd o') p4) fl4
    \<Longrightarrow> convert out buffer maxlen (mem (snd o') p4) fl4 w pr ws3 o' = Some (ws', o'')
    \<Longrightarrow> common_run out buffer maxlen (p4 + 1) ws' o''
    \<Longrightarrow> common_run out buffer maxlen fmt ws o'"

lemma full_convert_common:
  assumes "common c flags" "convert out buffer maxlen c flags width precision ws o' = Some (ws', o'')"
  shows "full_convert out buffer maxlen c flags width precision (map VA_word ws) o' = Some (map VA_word ws', o'')"
proof -
  obtain n where "ws' = drop n ws" using takes_front(3) [OF assms(2)] by blast
  then show ?thesis using assms by (auto simp: common_def full_convert_def va_rest_words)
qed

text \<open>
  The two configurations of the formatter agree: on a run that meets only what both have, the formatter
  with floating point and \<open>long long\<close> does exactly what the one of the programs does.
\<close>

theorem configurations_agree:
  assumes "common_run out buffer maxlen fmt ws o'"
  shows "full_format_loop out buffer maxlen fmt (map VA_word ws) o' = format_loop out buffer maxlen fmt ws o'"
  using assms
proof (induction rule: common_run.induct)
  case (stop o' fmt ws)
  then show ?case by (subst full_format_loop.simps, subst format_loop.simps) simp
next
  case (character o' fmt ws)
  then show ?case by (subst full_format_loop.simps, subst format_loop.simps) simp
next
  case (directive o' fmt fl1 p1 ws w fl2 p2 ws2 pr fl3 p3 ws3 fl4 p4 ws' o'')
  obtain n where n: "ws2 = drop n ws" using takes_front(1) [OF directive(3)] by blast
  obtain k where "ws3 = drop k ws2" using takes_front(2) [OF directive(4)] by blast
  with n have rest: "va_rest (map VA_word ws) ws3 = map VA_word ws3" by (intro va_rest_words) simp
  show ?case
    using directive(1-5,7,9) full_convert_common [OF directive(6,7)]
    by (subst full_format_loop.simps, subst format_loop.simps) (simp add: rest)
qed

theorem configurations_agree_witness:
  "full_format_loop out_char 4 0 100 [VA_word (- 42)] (0, with_format [c_percent, c_d])
    = Some (3, (with_format [c_percent, c_d])\<lparr>uart_out := [c_minus, 52, 50]\<rparr>)"
proof -
  let ?st = "with_format [c_percent, c_d]"
  let ?fin = "emits out_char 4 0 [c_minus, 52, 50] (0, ?st)"
  have m: "mem ?st 100 = c_percent" "mem ?st 101 = c_d" "mem ?st 102 = 0"
    by (simp_all add: with_format_def write_bytes_def)
  have e: "?fin = (3, ?st\<lparr>uart_out := [c_minus, 52, 50]\<rparr>)"
    unfolding emits_char by (simp add: with_format_def)
  have "int_text c_d 0 0 0 (- 42) = [c_minus, 52, 50]" "\<not> has (int_flags c_d 0) FLAGS_LONG_LONG" by code_simp+
  then have c: "convert out_char 4 0 c_d 0 0 0 [- 42] (0, ?st) = Some ([], ?fin)" "common c_d 0"
    using uart.convert_int_emits(2) [of c_d 0 4 0 0 0 "- 42" "[]" "(0, ?st)"]
    by (simp_all add: convert_def int_specifier_def common_def del: emits_simps)
  have s: "parse_flags (mem ?st) 101 0 = Some (0, 101)" "parse_width 0 101 [- 42] ?st = Some (0, 0, 101, [- 42])"
    "parse_precision 0 101 [- 42] ?st = Some (0, 0, 101, [- 42])" "parse_length 0 101 ?st = (0, 101)"
    using m by (simp_all add: parse_flags.simps flag_of_def parse_width_def parse_precision_def parse_length_def is_digit_def)
  have r: "common_run out_char 4 0 102 [] ?fin" unfolding e by (rule stop) (simp add: m)
  have n: "(100 :: u32) + 1 = 101" "(101 :: u32) + 1 = 102" by simp_all
  have "common_run out_char 4 0 100 [- 42] (0, ?st)"
    by (rule directive [where ?fl1.0 = 0 and ?p1.0 = 101 and w = 0 and ?fl2.0 = 0 and ?p2.0 = 101 and ?ws2.0 = "[- 42]"
        and pr = 0 and ?fl3.0 = 0 and ?p3.0 = 101 and ?ws3.0 = "[- 42]" and ?fl4.0 = 0 and ?p4.0 = 101
        and ws' = "[]" and o'' = "?fin"]) (simp_all only: snd_conv m n s c r)
  from configurations_agree [OF this]
  have "full_format_loop out_char 4 0 100 [VA_word (- 42)] (0, ?st) = format_loop out_char 4 0 100 [- 42] (0, ?st)" by simp
  also have "\<dots> = format_loop out_char 4 0 102 [] ?fin"
    using m s c by (subst format_loop.simps) (simp del: emits_simps)
  also have "\<dots> = Some ?fin" unfolding e using m(3) by (subst format_loop.simps) simp
  finally show ?thesis unfolding e .
qed

end
