(* ===== verification/FullRender.thy ===== *)
theory FullRender
  imports FullPrintf
begin

text \<open>
  The specification of the formatter with floating point and \<open>long long\<close>, \<open>full_render\<close>: a function from
  the format bytes and the arguments to the bytes printed, as \<open>render\<close> is for the configuration of the
  programs; and the proof that the code of \<open>FullPrintf\<close> implements it for every output function.
\<close>

section \<open>The text of a conversion\<close>

definition ll_text :: "u64 \<Rightarrow> bool \<Rightarrow> u64 \<Rightarrow> u32 \<Rightarrow> u32 \<Rightarrow> u32 \<Rightarrow> byte list" where
  "ll_text v negative base prec width flags =
     (let flags = (if v = 0 then flags AND NOT FLAGS_HASH else flags);
          digits = (if \<not> has flags FLAGS_PRECISION \<or> v \<noteq> 0 then ll_digits_loop v base flags [] else []);
          (buf, width) = ntoa_buf negative (ucast base) prec width flags digits
      in rev_text buf width flags)"

definition ll_int_text :: "byte \<Rightarrow> u32 \<Rightarrow> u32 \<Rightarrow> u32 \<Rightarrow> u64 \<Rightarrow> byte list" where
  "ll_int_text c flags width precision v =
     (let base = ucast (int_base c); flags = int_flags c flags
      in if c = c_i \<or> c = c_d then ll_text (ll_magnitude v) (sint v < 0) base precision width flags
         else ll_text v False base precision width flags)"

text \<open>\<open>%f\<close>: in exponential notation when the value is large.\<close>

definition fixed_text :: "dbl \<Rightarrow> u32 \<Rightarrow> u32 \<Rightarrow> u32 \<Rightarrow> byte list option" where
  "fixed_text d precision width flags =
     (if ftoa_large d \<and> ftoa_special d flags = None then etoa_text d precision width flags
      else ftoa_text d precision width flags)"

definition float_flags :: "byte \<Rightarrow> u32 \<Rightarrow> u32" where
  "float_flags c flags =
     (let flags = (if c = c_g \<or> c = c_G then flags OR FLAGS_ADAPT_EXP else flags)
      in if c = c_F \<or> c = c_E \<or> c = c_G then flags OR FLAGS_UPPERCASE else flags)"

section \<open>Arguments\<close>

datatype full_arg = Arg arg | Long_long u64 | Real_number dbl

fun va_of :: "full_arg \<Rightarrow> va_value" where
  "va_of (Arg a) = VA_word (arg_word a)"
| "va_of (Long_long v) = VA_long_long v"
| "va_of (Real_number d) = VA_double d"

text \<open>The words at the front of the arguments, and what is left when \<open>ws\<close> of them are left.\<close>

fun front_args :: "full_arg list \<Rightarrow> arg list" where
  "front_args (Arg a # args) = a # front_args args"
| "front_args args = []"

definition args_rest :: "full_arg list \<Rightarrow> arg list \<Rightarrow> full_arg list" where
  "args_rest args ws = drop (length (front_args args) - length ws) args"

lemma va_words_of: "va_words (map va_of args) = map arg_word (front_args args)"
  by (induction args rule: front_args.induct) simp_all

lemma va_rest_of: "va_rest (map va_of args) (map arg_word ws) = map va_of (args_rest args ws)"
  by (simp add: va_rest_def args_rest_def va_words_of drop_map)

lemma front_args_set: "a \<in> set (front_args args) \<Longrightarrow> Arg a \<in> set args"
  by (induction args rule: front_args.induct) auto

lemma args_rest_set: "set (args_rest args ws) \<subseteq> set args"
  by (simp add: args_rest_def set_drop_subset)

section \<open>The specification\<close>

definition full_conv_text :: "byte \<Rightarrow> u32 \<Rightarrow> u32 \<Rightarrow> u32 \<Rightarrow> full_arg list
    \<Rightarrow> (full_arg list \<times> byte list) option" where
  "full_conv_text c flags width precision args =
     (if int_specifier c \<and> has (int_flags c flags) FLAGS_LONG_LONG then
        (case args of Long_long v # args \<Rightarrow> Some (args, ll_int_text c flags width precision v) | _ \<Rightarrow> None)
      else if c = c_f \<or> c = c_F then
        (case args of Real_number d # args \<Rightarrow>
           map_option (Pair args) (fixed_text d precision width (float_flags c flags))
         | _ \<Rightarrow> None)
      else if c = c_e \<or> c = c_E \<or> c = c_g \<or> c = c_G then
        (case args of Real_number d # args \<Rightarrow>
           map_option (Pair args) (etoa_text d precision width (float_flags c flags))
         | _ \<Rightarrow> None)
      else do {
        (ws, t) \<leftarrow> conv_text c flags width precision (front_args args);
        Some (args_rest args ws, t)
      })"

definition full_directive :: "byte list \<Rightarrow> full_arg list
    \<Rightarrow> (byte list \<times> byte list \<times> full_arg list) option" where
  "full_directive cs args = do {
     (c, flags, width, precision, cs, ws) \<leftarrow> scan cs (front_args args);
     (args, t) \<leftarrow> full_conv_text c flags width precision (args_rest args ws);
     Some (t, cs, args)
   }"

lemma full_directive_length: "full_directive cs args = Some (t, cs', args') \<Longrightarrow> length cs' < length cs"
  by (auto simp: full_directive_def bind_eq_Some_conv dest: scan_length)

text \<open>
  \<open>None\<close> where C leaves the call undefined, and where a conversion of a \<open>double\<close> has no result
  (\<open>ftoa_undefined_iff\<close>).
\<close>

function full_render :: "byte list \<Rightarrow> full_arg list \<Rightarrow> byte list option" where
  "full_render [] args = Some []"
| "full_render (c # cs) args =
     (if c \<noteq> c_percent then map_option (Cons c) (full_render cs args)
      else case full_directive cs args of None \<Rightarrow> None
           | Some (t, cs', args') \<Rightarrow> map_option (append t) (full_render cs' args'))"
  by pat_completeness auto
termination
  by (relation "measure (\<lambda>(cs, args). length cs)") (auto dest: full_directive_length)

section \<open>The conversions\<close>

lemma ntoa_long_long_emits:
  "ntoa_long_long out buffer maxlen v negative base prec width flags o'
    = emits out buffer maxlen (ll_text v negative base prec width flags) o'"
proof -
  have len: "length (if P then ll_digits_loop v base fl [] else []) \<le> 32" for P fl
    using ll_digits_loop_length [of "[]" v base fl] by simp
  show ?thesis
    by (simp only: ntoa_long_long_def ll_text_def Let_def ntoa_format_emits [OF len])
      (simp only: split_def)
qed

lemma fixed_text_emits:
  assumes "fixed_text d precision width flags = Some t"
  shows "ftoa out buffer maxlen d precision width flags o' = Some (emits out buffer maxlen t o')"
proof (cases "ftoa_large d \<and> ftoa_special d flags = None")
  case True
  have "ftoa out buffer maxlen d precision width flags o' = etoa out buffer maxlen d precision width flags o'"
    using True unfolding ftoa_def etoa_def by (subst float_text.simps) simp
  with True assms show ?thesis by (simp add: fixed_text_def etoa_emits)
next
  case False
  with assms show ?thesis by (simp add: fixed_text_def ftoa_emits)
qed

lemma full_conv_args:
  assumes "full_conv_text c flags width precision args = Some (args', t)"
  shows "set args' \<subseteq> set args"
  using assms args_rest_set
  by (fastforce simp: full_conv_text_def bind_eq_Some_conv split: if_splits list.splits full_arg.splits)

definition full_arg_ok :: "(u32 \<Rightarrow> bool) \<Rightarrow> (u32 \<Rightarrow> byte) \<Rightarrow> full_arg \<Rightarrow> bool" where
  "full_arg_ok kept m a \<longleftrightarrow> (case a of Arg a \<Rightarrow> arg_ok kept m a | _ \<Rightarrow> True)"

lemma front_args_ok: "\<forall>a \<in> set args. full_arg_ok kept m a \<Longrightarrow> \<forall>a \<in> set (front_args args). arg_ok kept m a"
  by (force simp: full_arg_ok_def dest: front_args_set)

context sink
begin

lemma full_convert_emits:
  assumes "full_conv_text c flags width precision args = Some (args', t)"
    and "\<forall>a \<in> set args. full_arg_ok kept (mem (snd o')) a"
    and "precision \<noteq> 0 \<Longrightarrow> has flags FLAGS_PRECISION"
    and fit: "unat (fst o') + length t \<le> unat limit"
  shows "full_convert out buffer maxlen c flags width precision (map va_of args) o'
    = Some (map va_of args', emits out buffer maxlen t o')"
proof -
  consider "int_specifier c \<and> has (int_flags c flags) FLAGS_LONG_LONG"
    | "\<not> (int_specifier c \<and> has (int_flags c flags) FLAGS_LONG_LONG)" "c = c_f \<or> c = c_F"
    | "\<not> (int_specifier c \<and> has (int_flags c flags) FLAGS_LONG_LONG)" "\<not> (c = c_f \<or> c = c_F)"
      "c = c_e \<or> c = c_E \<or> c = c_g \<or> c = c_G"
    | "\<not> (int_specifier c \<and> has (int_flags c flags) FLAGS_LONG_LONG)" "\<not> (c = c_f \<or> c = c_F)"
      "\<not> (c = c_e \<or> c = c_E \<or> c = c_g \<or> c = c_G)" by blast
  then show ?thesis
  proof cases
    case 1
    with assms(1) obtain v where "args = Long_long v # args'" "t = ll_int_text c flags width precision v"
      by (auto simp: full_conv_text_def split: list.splits full_arg.splits)
    with 1 show ?thesis
      by (simp add: full_convert_def convert_ll_signed_def convert_ll_unsigned_def ll_int_text_def ntoa_long_long_emits)
  next
    case 2
    with assms(1) obtain d where a: "args = Real_number d # args'"
      and "fixed_text d precision width (float_flags c flags) = Some t"
      by (auto simp: full_conv_text_def split: list.splits full_arg.splits)
    from fixed_text_emits [OF this(2), of out buffer maxlen o']
    have "convert_fixed out buffer maxlen c flags width precision (map va_of args) o'
        = Some (map va_of args', emits out buffer maxlen t o')"
      using 2(2) by (auto simp: a convert_fixed_def float_flags_def)
    with 2 show ?thesis by (simp only: full_convert_def if_not_P if_P if_False)
  next
    case 3
    with assms(1) obtain d where a: "args = Real_number d # args'"
      and "etoa_text d precision width (float_flags c flags) = Some t"
      by (auto simp: full_conv_text_def split: list.splits full_arg.splits)
    from etoa_emits [OF this(2), of out buffer maxlen o']
    have "convert_exponential out buffer maxlen c flags width precision (map va_of args) o'
        = Some (map va_of args', emits out buffer maxlen t o')"
      using 3(2,3) by (auto simp: a convert_exponential_def float_flags_def)
    with 3 show ?thesis by (simp only: full_convert_def if_not_P if_P if_False)
  next
    case 4
    with assms(1) obtain ws where c: "conv_text c flags width precision (front_args args) = Some (ws, t)"
      "args' = args_rest args ws"
      by (auto simp: full_conv_text_def bind_eq_Some_conv)
    have "convert out buffer maxlen c flags width precision (map arg_word (front_args args)) o'
        = Some (map arg_word ws, emits out buffer maxlen t o')"
      using assms(3) by (intro convert_emits [OF c(1) front_args_ok [OF assms(2)] _ fit])
    with 4 show ?thesis
      by (simp only: full_convert_def if_not_P if_False va_words_of bind.simps prod.case va_rest_of c(2))
  qed
qed

lemma full_format_loop_render:
  assumes "full_render cs args = Some t" and "cstr (mem (snd o')) fmt cs" and "kept_str kept fmt cs"
    and "\<forall>a \<in> set args. full_arg_ok kept (mem (snd o')) a" and "unat (fst o') + length t \<le> unat limit"
  shows "full_format_loop out buffer maxlen fmt (map va_of args) o' = Some (emits out buffer maxlen t o')"
  using assms
proof (induction cs args arbitrary: fmt o' t rule: full_render.induct)
  case (1 args)
  then show ?case by (subst full_format_loop.simps) simp
next
  case (2 c cs args)
  have kept: "kept fmt" "kept_str kept (fmt + 1) cs" using kept_str_Cons [OF "2.prems"(3)] by simp_all
  have c: "mem (snd o') fmt = c" "c \<noteq> 0" "cstr (mem (snd o')) (fmt + 1) cs" using "2.prems"(2) by simp_all
  have again: "\<forall>a \<in> set as. full_arg_ok kept (mem (snd (emits out buffer maxlen t' o'))) a"
    if "set as \<subseteq> set args" "unat (fst o') + length t' \<le> unat limit" for as t'
    using that "2.prems"(4) by (fastforce simp: full_arg_ok_def arg_ok_def emits_cstr split: full_arg.splits arg.splits)
  show ?case
  proof (cases "c = c_percent")
    case False
    with "2.prems"(1) obtain t' where t: "full_render cs args = Some t'" "t = c # t'" by auto
    have fit: "unat (fst o') + length [c] \<le> unat limit" using "2.prems"(5) t(2) by simp
    have "full_format_loop out buffer maxlen (fmt + 1) (map va_of args) (emits out buffer maxlen [c] o')
        = Some (emits out buffer maxlen t' (emits out buffer maxlen [c] o'))"
      using kept(2) c(3) again [of args "[c]"] emits_unat [OF fit] fit "2.prems"(5) t(2)
      by (intro "2.IH"(1) False t) (simp_all add: emits_cstr del: emits_simps)
    with False t(2) c show ?thesis by (subst full_format_loop.simps) simp
  next
    case True
    with "2.prems"(1) obtain t1 cs' args' t2 where d: "full_directive cs args = Some (t1, cs', args')"
      and t: "full_render cs' args' = Some t2" "t = t1 @ t2" by (auto split: option.splits)
    from d obtain d fl w p ws where s: "scan cs (front_args args) = Some (d, fl, w, p, cs', ws)"
      and x: "full_conv_text d fl w p (args_rest args ws) = Some (args', t1)"
      by (auto simp: full_directive_def bind_eq_Some_conv)
    from scan_list [OF s c(3)] obtain fl1 p1 fl2 p2 ws2 fl3 p3 p4 where
      s': "parse_flags (mem (snd o')) (fmt + 1) 0 = Some (fl1, p1)"
        "parse_width fl1 p1 (map arg_word (front_args args)) (snd o') = Some (w, fl2, p2, map arg_word ws2)"
        "parse_precision fl2 p2 (map arg_word ws2) (snd o') = Some (p, fl3, p3, map arg_word ws)"
        "parse_length fl3 p3 (snd o') = (fl, p4)"
      and r: "rest_at (fmt + 1) cs p4 (d # cs')" and prec: "p \<noteq> 0 \<Longrightarrow> has fl FLAGS_PRECISION"
      and "set ws \<subseteq> set (front_args args)"
      by blast
    note c4 = rest_at_cstr [OF r c(3)]
    have k4: "kept_str kept (p4 + 1) cs'" using rest_at_kept [OF r kept(2)] kept_str_Cons by blast
    have sub: "set (args_rest args ws) \<subseteq> set args" "set args' \<subseteq> set args"
      using args_rest_set full_conv_args [OF x] by blast+
    have fit: "unat (fst o') + length t1 \<le> unat limit" using "2.prems"(5) t(2) by simp
    have conv: "full_convert out buffer maxlen d fl w p (map va_of (args_rest args ws)) o'
        = Some (map va_of args', emits out buffer maxlen t1 o')"
      using again [OF sub(1), of "[]"] prec fit by (intro full_convert_emits [OF x]) simp_all
    have "full_format_loop out buffer maxlen (p4 + 1) (map va_of args') (emits out buffer maxlen t1 o')
        = Some (emits out buffer maxlen t2 (emits out buffer maxlen t1 o'))"
      using k4 c4 again [OF sub(2) fit] True d t(1) emits_unat [OF fit] fit "2.prems"(5) t(2)
      by (intro "2.IH"(2) [OF _ d refl refl]) (simp_all add: emits_cstr)
    then show ?thesis
      using True t(2) c s' conv c4
      by (subst full_format_loop.simps) (simp add: va_words_of va_rest_of)
  qed
qed

end

section \<open>The formatter\<close>

text \<open>
  C7. The formatter with floating point and \<open>long long\<close> refines \<open>full_render\<close> for every output function: if
  the format string and the string arguments are not overwritten by the output, it terminates and
  hands exactly the rendered bytes to the output function, in order, with indices 0, 1, 2, ...
\<close>

theorem full_formatter_refines_render:
  assumes "\<And>c idx s x. kept x \<Longrightarrow> idx < of_nat (length t) \<Longrightarrow> mem (out c buffer idx maxlen s) x = mem s x"
    and "full_render cs args = Some t" and "length t < 2 ^ 32"
    and "cstr (mem st) fmt cs" and "kept_str kept fmt cs" and "\<forall>a \<in> set args. full_arg_ok kept (mem st) a"
  shows "full_format_loop out buffer maxlen fmt (map va_of args) (0, st)
    = Some (emits out buffer maxlen t (0, st))"
proof -
  have "sink out buffer maxlen kept (of_nat (length t))"
    by unfold_locales (rule assms(1))
  from sink.full_format_loop_render [OF this assms(2)] assms(3-6) show ?thesis
    by (simp add: unat_of_nat32)
qed

theorem full_formatter_refines_render_witness:
  "full_format_loop out_char 4 0 100 [VA_long_long (- 42)] (0, with_format [c_percent, c_l, c_l, c_d])
    = Some (3, (with_format [c_percent, c_l, c_l, c_d])\<lparr>uart_out := [c_minus, 52, 50]\<rparr>)"
proof -
  have r: "full_render [c_percent, c_l, c_l, c_d] [Long_long (- 42)] = Some [c_minus, 52, 50]" by code_simp
  have m: "cstr (mem (with_format [c_percent, c_l, c_l, c_d])) 100 [c_percent, c_l, c_l, c_d]"
    by (rule with_format_cstr) simp_all
  have k: "mem (out_char c 4 idx 0 s) x = mem s x" for c idx s x
    by (simp add: out_char_def put_char_def UART_write_def)
  have e: "emits out_char 4 0 [c_minus, 52, 50] (0, with_format [c_percent, c_l, c_l, c_d])
      = (3, (with_format [c_percent, c_l, c_l, c_d])\<lparr>uart_out := [c_minus, 52, 50]\<rparr>)"
    unfolding emits_char by (simp add: with_format_def)
  have "kept_str (\<lambda>_. True) 100 [c_percent, c_l, c_l, c_d]"
    "\<forall>a \<in> set [Long_long (- 42)]. full_arg_ok (\<lambda>_. True) (mem (with_format [c_percent, c_l, c_l, c_d])) a"
    by (simp_all add: kept_str_def full_arg_ok_def)
  from full_formatter_refines_render [where out = out_char and buffer = 4 and maxlen = 0, OF k r _ m this] show ?thesis unfolding e by simp
qed

text \<open>\<open>printf\<close> in this configuration sends the text to the UART.\<close>

lemma full_printf_text:
  assumes "full_render cs args = Some t" and "length t < 2 ^ 32 - 1" and "cstr (mem st) fmt cs"
    and "\<forall>a \<in> set args. full_arg_ok (\<lambda>_. True) (mem st) a" and "stack \<noteq> 0"
  shows "full_printf stack fmt (map va_of args) st
    = Some (of_nat (length t), st\<lparr>uart_out := uart_out st @ filter (\<lambda>c. c \<noteq> 0) t\<rparr>)"
proof -
  have "full_format_loop out_char stack (- 1) fmt (map va_of args) (0, st)
      = Some (emits out_char stack (- 1) t (0, st))"
    using assms(2-4)
    by (intro uart.full_format_loop_render [OF assms(1), where limit = "- 1"])
      (simp_all add: kept_str_def unsigned_minus_1_eq_mask mask_eq_exp_minus_1)
  then show ?thesis using assms(5) by (simp add: full_printf_def full_vsnprintf_core_def emits_char out_char_def)
qed

lemma full_render_text:
  "c_percent \<notin> set cs \<Longrightarrow> full_render (cs @ rest) args = map_option (append cs) (full_render rest args)"
  by (cases "full_render rest args"; induction cs) simp_all

end
