(* ===== verification/FloatTest.thy ===== *)
theory FloatTest
  imports FullRender Programs
begin

text \<open>
  The program \<open>float_test.c\<close>, which prints one number with \<open>%f\<close>, in the two configurations of the
  formatter: with floating point support, and as \<open>debug_config.h\<close> builds it.
\<close>

section \<open>The program\<close>

text \<open>
  With support the argument is a \<open>double\<close>; without it the two words \<open>lo\<close> and \<open>hi\<close> that carry it are never
  looked at.
\<close>

definition float_test_main :: "u32 \<Rightarrow> rodata \<Rightarrow> machine \<Rightarrow> (u32 \<times> machine) option" where
  "float_test_main stack rom st = do {
     (n, st) \<leftarrow> full_printf stack (rom num_format) [VA_double (d_lit 100.4)] st;
     Some (0, st)
   }"

definition float_test_built :: "u32 \<Rightarrow> rodata \<Rightarrow> u32 \<Rightarrow> u32 \<Rightarrow> machine \<Rightarrow> (u32 \<times> machine) option" where
  "float_test_built stack rom lo hi st = do {
     st \<leftarrow> say stack rom num_format [lo, hi] st;
     Some (0, st)
   }"

section \<open>Lemmas\<close>

text \<open>The \<open>double\<close> next to 100.4, and what the code makes of its fraction.\<close>

definition near_100_4 :: rat where "near_100_4 = 3532510957718733 / 35184372088832"

lemma near_100_4: "d_lit 100.4 = D_fin near_100_4" "rnd near_100_4 = near_100_4"
proof -
  have "ilog2 \<bar>100.4\<bar> = 6" by (rule ilog2_unique) (simp_all add: power_int_def)
  then have lp: "last_place 100.4 = - 46" by (simp add: last_place_def)
  have "half_even (100.4 / 2 powi (- 46)) = 7065021915437466"
    by (rule half_evenI) (simp add: power_int_def power_one_over)
  then have r: "rnd 100.4 = near_100_4"
    unfolding rnd_def lp by (simp add: near_100_4_def power_int_def power_one_over)
  then show "rnd near_100_4 = near_100_4" by (metis rnd_rnd)
  show "d_lit 100.4 = D_fin near_100_4" unfolding d_lit_def r [symmetric] by (rule D_round_small) simp
qed

lemma scaled_100_4: "scaled_fraction near_100_4 6 = 3435973836800049 / 8589934592" "\<lfloor>near_100_4\<rfloor> = 100"
proof -
  let ?q = "219902325555203125 / 549755813888 :: rat"
  show fl: "\<lfloor>near_100_4\<rfloor> = 100" by (simp add: near_100_4_def floor_eq_iff)
  have q: "(near_100_4 - of_int \<lfloor>near_100_4\<rfloor>) * 10 ^ 6 = ?q" unfolding fl by (simp add: near_100_4_def)
  have "ilog2 \<bar>?q\<bar> = 18" by (rule ilog2_unique) (simp_all add: power_int_def)
  then have lp: "last_place ?q = - 34" by (simp add: last_place_def)
  have "half_even (?q / 2 powi (- 34)) = 6871947673600098"
    by (rule half_evenI) (simp add: power_int_def power_one_over)
  then show "scaled_fraction near_100_4 6 = 3435973836800049 / 8589934592"
    unfolding scaled_fraction_def q rnd_def lp by (simp add: power_int_def power_one_over)
qed

lemma fixed_100_4: "fixed_text (D_fin near_100_4) 0 0 0 = Some (ascii ''100.400000'')"
proof -
  have no: "\<not> has 0 f" for f by (simp add: has_def)
  have p: "6 = effective_precision 0 0" by (simp add: effective_precision_def no DEFAULT_FLOAT_PRECISION_def)
  have abs: "\<bar>near_100_4\<bar> = near_100_4" "\<bar>near_100_4\<bar> < 2 ^ 31 - 1" "\<bar>near_100_4\<bar> < 2 ^ 1024"
    by (simp_all add: near_100_4_def)
  have "\<lfloor>3435973836800049 / 8589934592 :: rat\<rfloor> = 400000" by (simp add: floor_eq_iff)
  then have d: "decimal \<bar>near_100_4\<bar> 6 = (100, 400000)"
    unfolding abs(1) decimal_def Let_def scaled_100_4 by simp
  have c: "\<not> carries \<bar>near_100_4\<bar> 6" unfolding abs(1) carries_def scaled_100_4 by simp
  have six: "6 = Suc (Suc (Suc (Suc (Suc (Suc 0)))))" by simp
  have "last_digits 6 400000 = [0, 0, 0, 0, 0, 4]" unfolding six by simp
  moreover have "base_digits 10 100 = [1, 0, 0]" by (simp add: base_digits.simps)
  ultimately have t: "numeral_text 0 10 (nat 100) @ [c_dot] @ rev (digit_text (last_digits 6 (nat 400000))) = ascii ''100.400000''"
    by (simp add: numeral_text_def digit_char_def ascii_def)
  have "ftoa_number (D_fin near_100_4) 0 0 = Some (near_100_4 < 0, rev (ascii ''100.400000''))"
    using ftoa_number_decimal [OF near_100_4(2) abs(2) p _ _ c d] unfolding t by simp
  from ftoa_text_plain [OF _ ordinary(2) [OF abs(3) near_100_4(2)] not_large [OF abs(2)] this]
  moreover have "length (ascii ''100.400000'') < 32" "\<not> near_100_4 < 0" by (simp_all add: ascii_def near_100_4_def)
  ultimately have "ftoa_text (D_fin near_100_4) 0 0 0 = Some (ascii ''100.400000'')" by simp
  then show ?thesis by (simp only: fixed_text_def not_large [OF abs(2)] simp_thms if_False)
qed

lemma render_100_4:
  "full_render num_format [Real_number (D_fin near_100_4)] = Some (textln ''Number: {100.400000}'')"
proof -
  have d: "full_directive (c_f # cs) [Real_number (D_fin near_100_4)] = Some (ascii ''100.400000'', cs, [])" for cs
    by (simp add: full_directive_def scan_def flag_of_def r_width_def r_precision_def r_length_def starts_def is_digit_def
        args_rest_def full_conv_text_def int_specifier_def float_flags_def fixed_100_4)
  have n: "num_format = ascii ''Number: {'' @ c_percent # c_f # textln ''}'' @ []"
    "c_percent \<notin> set (ascii ''Number: {'')" "c_percent \<notin> set (textln ''}'')"
    by (simp_all add: num_format_def textln_def ascii_def)
  have "full_render num_format [Real_number (D_fin near_100_4)]
      = Some (ascii ''Number: {'' @ ascii ''100.400000'' @ textln ''}'')"
    unfolding n(1) full_render_text [OF n(2)] full_render.simps(2) d
    by (simp add: full_render_text [OF n(3)] del: append_Nil2)
  then show ?thesis by (simp add: textln_def ascii_def)
qed

section \<open>Properties\<close>

text \<open>
  C25. The program \<open>float_test\<close>: with floating point support it prints \<open>Number: {100.400000}\<close>; as it is
  built it prints \<open>Number: {f}\<close>, whatever number it is given.
\<close>

theorem float_test_transcripts:
  assumes "literals_at rom [num_format] st" "stack \<noteq> 0"
  shows "float_test_main stack rom st = Some (0, said (textln ''Number: {100.400000}'') st)
    \<and> float_test_built stack rom lo hi st = Some (0, said (textln ''Number: {f}'') st)"
proof
  let ?t = "textln ''Number: {100.400000}''"
  have "cstr (mem st) (rom num_format) num_format" using assms(1) by (simp add: literals_at_def literal_def)
  moreover have "length ?t < 2 ^ 32 - 1" "filter (\<lambda>c. c \<noteq> 0) ?t = ?t" by (simp_all add: textln_def ascii_def)
  ultimately show "float_test_main stack rom st = Some (0, said ?t st)"
    using full_printf_text [OF render_100_4 _ _ _ assms(2)]
    unfolding float_test_main_def near_100_4(1) by (simp add: full_arg_ok_def said_def)
  have "length (textln ''Number: {f}'') < 2 ^ 32 - 1" "0 \<notin> set (textln ''Number: {f}'')"
    by (simp_all add: textln_def ascii_def)
  then show "float_test_built stack rom lo hi st = Some (0, said (textln ''Number: {f}'') st)"
    using say_exact [OF assms(1) _ render_number, of "[Num lo, Num hi]" stack] assms(2)
    by (simp add: float_test_built_def arg_ok_def)
qed

theorem float_test_transcripts_witness:
  "\<exists>st. float_test_main 4 (place 1000 [num_format]) (boot (lay_out 1000 [num_format] (\<lambda>_. 0))) = Some (0, st)
    \<and> uart_out st = textln ''Number: {100.400000}''"
proof -
  have "unat (1000 :: u32) + image_size [num_format] < 2 ^ 31" "\<forall>s \<in> set [num_format]. 0 \<notin> set s"
    by (simp_all add: num_format_def textln_def ascii_def)
  then have "literals_at (place 1000 [num_format]) [num_format] (boot (lay_out 1000 [num_format] (\<lambda>_. 0)))"
    by (intro literals_lay_out) simp_all
  from float_test_transcripts [OF this, of 4] show ?thesis by simp
qed

end
