(* ===== verification/FloatPower.thy ===== *)
theory FloatPower
  imports FloatScale
begin

text \<open>
  How good the power of ten is that \<open>_etoa\<close> divides by, and how good its decimal exponent: the divisor is
  off by at most \<open>10 ^ -7\<close> of it, and what is left of a normal number is between 0.9 and 10.0001.
\<close>

section \<open>Rational and real numbers\<close>

lemma of_rat_powi: "(of_rat (a powi n) :: real) = of_rat a powi n"
  by (simp add: power_int_def of_rat_power of_rat_inverse)

lemma of_rat_exp_fraction: "(of_rat (exp_fraction z) :: real) = exp_fraction (of_rat z)"
  by (simp add: exp_fraction_def of_rat_add of_rat_diff of_rat_mult of_rat_divide of_rat_power)

lemma powi_exp: "(2 :: real) powi n = exp (of_int n * ln 2)" "(10 :: real) powi n = exp (of_int n * ln 10)"
  using exp_power_int [of "ln 2 :: real" n] exp_power_int [of "ln 10 :: real" n] by simp_all

section \<open>The power of ten\<close>

lemma exp_near_1: "\<bar>d\<bar> \<le> 1 \<Longrightarrow> \<bar>exp d - 1\<bar> \<le> \<bar>d\<bar> + (d :: real)\<^sup>2"
proof (cases "0 \<le> d")
  case True
  moreover assume "\<bar>d\<bar> \<le> 1"
  ultimately show ?thesis using exp_bound [of d] exp_ge_add_one_self [of d] by (simp add: abs_if)
next
  case False
  then have "\<bar>exp d - 1\<bar> = 1 - exp d" "\<bar>d\<bar> = - d" by simp_all
  then show ?thesis using exp_ge_add_one_self [of d] zero_le_power2 [of d] by linarith
qed

lemma power_of_ten:
  fixes z :: real
  assumes "\<bar>X\<bar> \<le> 308" "\<bar>Y\<bar> \<le> 1023" "\<bar>z\<bar> \<le> 21 / 20" "0 < exp_fraction z"
    and "\<bar>z - (of_int X * 2.302585092994046 - of_int Y * 0.6931471805599453)\<bar> \<le> 1 / 50000000000"
  shows "\<bar>2 powi Y * exp_fraction z - 10 powi X\<bar> \<le> 10 powi X * (71 / 10 ^ 9)"
proof -
  define x y where "x = real_of_int X" and "y = real_of_int Y"
  have xy: "\<bar>x\<bar> \<le> 308" "\<bar>y\<bar> \<le> 1023" using assms(1,2) unfolding x_def y_def by (simp_all add: abs_le_iff)
  define d where "d = y * ln 2 + ln (exp_fraction z) - x * ln 10"
  define a b c e where "a = ln (exp_fraction z) - z" and "b = z - (x * 2.302585092994046 - y * 0.6931471805599453)"
    and "c = y * (ln 2 - 0.6931471805599453)" and "e = x * (ln 10 - 2.302585092994046)"
  have "\<bar>a\<bar> \<le> 7 / 10 ^ 8" unfolding a_def by (rule exp_fraction_ln [OF assms(3)])
  moreover have "\<bar>b\<bar> \<le> 1 / 50000000000" unfolding b_def x_def y_def by (rule assms(5))
  moreover have "\<bar>c\<bar> \<le> 1023 * (1 / 10 ^ 15)" unfolding c_def abs_mult using xy ln2_bounds by (intro mult_mono) simp_all
  moreover have "\<bar>e\<bar> \<le> 308 * (1 / 10 ^ 15)" unfolding e_def abs_mult using xy ln10_bounds by (intro mult_mono) simp_all
  moreover have "d = a + b + c - e" by (simp add: d_def a_def b_def c_def e_def algebra_simps)
  then have "\<bar>d\<bar> \<le> \<bar>a\<bar> + \<bar>b\<bar> + \<bar>c\<bar> + \<bar>e\<bar>" by linarith
  ultimately have "\<bar>d\<bar> \<le> 7 / 10 ^ 8 + 1 / 50000000000 + 1023 * (1 / 10 ^ 15) + 308 * (1 / 10 ^ 15)" by linarith
  also have "\<dots> \<le> 704 / 10 ^ 10" by simp
  finally have d: "\<bar>d\<bar> \<le> 704 / 10 ^ 10" .
  have "d\<^sup>2 \<le> (704 / 10 ^ 10)\<^sup>2" using power_mono [OF d abs_ge_zero, of 2] by simp
  also have "\<dots> \<le> 1 / 10 ^ 10" by (simp add: power_divide)
  finally have e: "\<bar>exp d - 1\<bar> \<le> 71 / 10 ^ 9" using exp_near_1 [of d] d by simp
  have "2 powi Y * exp_fraction z = exp (y * ln 2 + ln (exp_fraction z))"
    using assms(4) by (simp add: powi_exp y_def exp_add)
  also have "y * ln 2 + ln (exp_fraction z) = x * ln 10 + d" by (simp add: d_def)
  also have "exp (x * ln 10 + d) = 10 powi X * exp d" by (simp add: powi_exp x_def exp_add)
  finally have "2 powi Y * exp_fraction z - 10 powi X = 10 powi X * (exp d - 1)" by (simp add: right_diff_distrib)
  then have "\<bar>2 powi Y * exp_fraction z - 10 powi X\<bar> = 10 powi X * \<bar>exp d - 1\<bar>" by (simp add: abs_mult)
  also have "\<dots> \<le> 10 powi X * (71 / 10 ^ 9)" using e by (intro mult_left_mono) simp_all
  finally show ?thesis .
qed

text \<open>The same for the numbers the code computes: \<open>F\<close> for \<open>r\<close> or for ten times \<open>t\<close>.\<close>

lemma computed_power:
  fixes z F :: rat
  assumes "\<bar>X\<bar> \<le> 308" "\<bar>Y\<bar> \<le> 1023" "- 21 / 20 \<le> z" "z \<le> 9 / 25" "1 / 5 \<le> exp_fraction z"
    and "\<bar>z - (of_int X * 2.302585092994046 - of_int Y * 0.6931471805599453)\<bar> \<le> 1 / 50000000000"
    and "\<bar>F - 2 powi Y * exp_fraction z\<bar> \<le> 2 powi Y / 800000000"
  shows "\<bar>F - 10 powi X\<bar> \<le> 10 powi X / 10 ^ 7"
proof -
  define P T :: real where "P = 2 powi Y * exp_fraction (of_rat z)" and "T = 10 powi X"
  have z: "\<bar>of_rat z\<bar> \<le> (21 / 20 :: real)"
  proof -
    have "\<bar>z\<bar> \<le> 21 / 20" using assms(3,4) by (simp add: abs_le_iff)
    then have "of_rat \<bar>z\<bar> \<le> (of_rat (21 / 20) :: real)" unfolding of_rat_less_eq .
    then show ?thesis by (simp only: abs_of_rat [symmetric] of_rat_divide of_rat_numeral_eq)
  qed
  have "of_rat (1 / 5) \<le> (of_rat (exp_fraction z) :: real)" using assms(5) unfolding of_rat_less_eq .
  then have e: "1 / 5 \<le> (exp_fraction (of_rat z) :: real)" by (simp add: of_rat_exp_fraction of_rat_divide)
  have c: "of_rat 2.302585092994046 = (2.302585092994046 :: real)" "of_rat 0.6931471805599453 = (0.6931471805599453 :: real)"
    "of_rat (1 / 50000000000) = (1 / 50000000000 :: real)"
    by (simp_all only: of_rat_divide of_rat_power of_rat_numeral_eq of_rat_1)
  have "of_rat \<bar>z - (of_int X * 2.302585092994046 - of_int Y * 0.6931471805599453)\<bar> \<le> (of_rat (1 / 50000000000) :: real)"
    using assms(6) unfolding of_rat_less_eq .
  then have "\<bar>of_rat z - (of_int X * 2.302585092994046 - of_int Y * 0.6931471805599453)\<bar> \<le> (1 / 50000000000 :: real)"
    by (simp only: abs_of_rat [symmetric] of_rat_diff of_rat_mult of_rat_of_int_eq c)
  note p = power_of_ten [OF assms(1,2) z _ this, folded P_def T_def]
  have T: "0 < T" by (simp add: T_def)
  have P: "\<bar>P - T\<bar> \<le> T * (71 / 10 ^ 9)" using p e by simp
  have "2 powi Y \<le> 5 * P" using e by (simp add: P_def)
  moreover have "P \<le> T * 2" using withinD(2) [OF P] T by simp
  ultimately have Y: "2 powi Y / 800000000 \<le> T * (10 / 800000000)" by simp
  have "of_rat \<bar>F - 2 powi Y * exp_fraction z\<bar> \<le> (of_rat (2 powi Y / 800000000) :: real)"
    using assms(7) unfolding of_rat_less_eq .
  then have "\<bar>of_rat F - P\<bar> \<le> 2 powi Y / 800000000"
    by (simp only: abs_of_rat [symmetric] of_rat_diff of_rat_mult of_rat_divide of_rat_powi of_rat_exp_fraction P_def of_rat_numeral_eq)
  moreover have "\<bar>of_rat F - T\<bar> \<le> \<bar>of_rat F - P\<bar> + \<bar>P - T\<bar>" by linarith
  ultimately have "\<bar>of_rat F - T\<bar> \<le> T * (10 / 800000000) + T * (71 / 10 ^ 9)" using P Y by linarith
  also have "\<dots> \<le> T / 10 ^ 7" using T by simp
  finally have "\<bar>of_rat F - T\<bar> \<le> T / 10 ^ 7" .
  then have "of_rat \<bar>F - 10 powi X\<bar> \<le> (of_rat (10 powi X / 10 ^ 7) :: real)"
    by (simp only: abs_of_rat [symmetric] of_rat_diff of_rat_divide of_rat_powi of_rat_power T_def of_rat_numeral_eq)
  then show ?thesis unfolding of_rat_less_eq .
qed

section \<open>The decimal exponent\<close>

text \<open>A normal number is its significand times a power of two.\<close>

lemma normal_form:
  assumes "rnd v = v" "2 powi (- 1022) \<le> v"
  shows "v = 2 powi (exponent_bits v - 1023) * significand v"
proof -
  have v: "0 < v" using assms(2) pow2_pos [of "- 1022"] by linarith
  define l where "l = ilog2 v"
  have l: "2 powi l \<le> v" "v < 2 powi (l + 1)" using ilog2_bounds [OF v] by (simp_all add: l_def)
  have "(2 :: rat) powi (- 1022) < 2 powi (l + 1)" using assms(2) l(2) by linarith
  then have l1: "- 1022 \<le> l" unfolding pow2_less_iff by simp
  have e: "exponent_bits v = l + 1023" using v l1 by (simp add: exponent_bits_def l_def)
  have lp: "last_place v = l - 52" using v l1 by (simp add: last_place_def l_def)
  define n where "n = half_even (v / 2 powi (l - 52))"
  have n: "v = of_int n * 2 powi (l - 52)" using assms(1) v by (simp add: rnd_def lp n_def)
  have p: "(2 :: rat) powi l = of_int (2 ^ 52) * 2 powi (l - 52)" "(2 :: rat) powi (l + 1) = of_int (2 ^ 53) * 2 powi (l - 52)"
    by (simp_all add: power_int_diff power_int_add)
  have "of_int (2 ^ 52) * 2 powi (l - 52) \<le> (of_int n * 2 powi (l - 52) :: rat)"
    "(of_int n * 2 powi (l - 52) :: rat) < of_int (2 ^ 53) * 2 powi (l - 52)"
    using l unfolding p n [symmetric] .
  then have "of_int (2 ^ 52) \<le> (of_int n :: rat)" "(of_int n :: rat) < of_int (2 ^ 53)"
    by (simp_all del: of_int_power)
  then have b: "2 ^ 52 \<le> n" "n < 2 ^ 53" unfolding of_int_le_iff of_int_less_iff .
  have "fraction_bits v = n mod 2 ^ 52"
  proof -
    have "max (l + 1023) 1 - 1075 = l - 52" using l1 by simp
    moreover have "v / 2 powi (l - 52) = of_int n" unfolding n by simp
    ultimately show ?thesis using v by (simp add: fraction_bits_def e)
  qed
  also have "n mod 2 ^ 52 = (n - 2 ^ 52) mod 2 ^ 52" by simp
  also have "\<dots> = n - 2 ^ 52" using b by (intro mod_pos_pos_trivial) simp_all
  finally have f: "significand v = of_int n / 2 ^ 52" by (simp add: significand_def field_simps)
  have "(2 :: rat) powi (l - 52) = 2 powi l / 2 ^ 52" by (simp add: power_int_diff)
  then show ?thesis unfolding e f by (subst n) simp
qed

lemma of_rat_log_estimate: "(of_rat (log_estimate e m) :: real) = log_estimate (of_rat e) (of_rat m)"
  by (simp only: log_estimate_def of_rat_add of_rat_diff of_rat_mult of_rat_divide of_rat_power of_rat_numeral_eq)

text \<open>The estimate rounded towards zero, against the logarithm of the value.\<close>

lemma estimate_range_ln:
  assumes "\<bar>E\<bar> \<le> 1023" "1 \<le> m" "m < 2" "\<bar>y - log_estimate (of_int E) m\<bar> \<le> 1 / 1000000" "v = 2 powi E * m"
  shows "y \<le> of_int k \<Longrightarrow> of_rat v \<le> 10 powi k * (1 + 1 / 10 ^ 5 :: real)"
    and "of_int k \<le> y \<Longrightarrow> 10 powi k * (92 / 100 :: real) \<le> of_rat v"
proof -
  define Y :: real where "Y = of_rat y"
  have m: "1 \<le> (of_rat m :: real)" "of_rat m < (2 :: real)" using assms(2,3) of_rat_less [of m 2] by simp_all
  have E: "\<bar>real_of_int E\<bar> \<le> 1023" using assms(1) by (simp add: abs_le_iff)
  define L where "L = real_of_int E * ln 2 + ln (of_rat m)"
  have v: "of_rat v = exp L"
    using m by (simp add: assms(5) of_rat_mult of_rat_powi powi_exp L_def exp_add)
  have "of_rat \<bar>y - log_estimate (of_int E) m\<bar> \<le> (of_rat (1 / 1000000) :: real)"
    using assms(4) unfolding of_rat_less_eq .
  then have Y: "\<bar>Y - log_estimate (of_int E) (of_rat m)\<bar> \<le> 1 / 1000000"
    by (simp only: abs_of_rat [symmetric] of_rat_diff of_rat_log_estimate of_rat_of_int_eq of_rat_divide of_rat_numeral_eq
        of_rat_1 Y_def)
  have l10: "2 \<le> ln (10 :: real)" "ln (10 :: real) \<le> 231 / 100" using ln_intervals by simp_all
  note est = log_estimate_bounds [OF E m]
  have up: "L \<le> (Y + 11 / 10 ^ 7) * ln 10"
  proof -
    have "log_estimate (of_int E) (of_rat m) + 1 / 10 ^ 8 \<le> Y + 11 / 10 ^ 7" using withinD(1) [OF Y] by simp
    then have "(log_estimate (of_int E) (of_rat m) + 1 / 10 ^ 8) * ln 10 \<le> (Y + 11 / 10 ^ 7) * ln 10"
      using l10 by (intro mult_right_mono) simp_all
    with est(1) show ?thesis unfolding L_def by (rule order_trans)
  qed
  have lo: "(Y - 3134 / 100000) * ln 10 \<le> L"
  proof -
    have "Y - 3134 / 100000 \<le> log_estimate (of_int E) (of_rat m) - 3133 / 100000" using withinD(2) [OF Y] by simp
    then have "(Y - 3134 / 100000) * ln 10 \<le> (log_estimate (of_int E) (of_rat m) - 3133 / 100000) * ln 10"
      using l10 by (intro mult_right_mono) simp_all
    then show ?thesis unfolding L_def by (rule order_trans [OF _ est(2)])
  qed
  show "of_rat v \<le> 10 powi k * (1 + 1 / 10 ^ 5 :: real)" if "y \<le> of_int k"
  proof -
    have "of_rat y \<le> (of_rat (of_int k) :: real)" using that unfolding of_rat_less_eq .
    then have "(Y + 11 / 10 ^ 7) * ln 10 \<le> (of_int k + 11 / 10 ^ 7) * ln 10"
      using l10 by (intro mult_right_mono) (simp_all add: Y_def)
    with up have "L \<le> (of_int k + 11 / 10 ^ 7) * ln 10" by (rule order_trans)
    then have "exp L \<le> exp (of_int k * ln 10 + 11 / 10 ^ 7 * ln 10)" by (simp add: distrib_right)
    also have "\<dots> = 10 powi k * exp (11 / 10 ^ 7 * ln 10)" by (simp add: exp_add powi_exp)
    also have "exp (11 / 10 ^ 7 * ln 10) \<le> exp (3 / 10 ^ 6 :: real)" using l10 by simp
    also have "exp (3 / 10 ^ 6 :: real) \<le> 1 + 3 / 10 ^ 6 + (3 / 10 ^ 6)\<^sup>2" by (rule exp_bound) simp_all
    also have "\<dots> \<le> 1 + 1 / 10 ^ 5" by (simp add: power_divide)
    finally show ?thesis unfolding v by simp
  qed
  show "10 powi k * (92 / 100 :: real) \<le> of_rat v" if "of_int k \<le> y"
  proof -
    have "(of_rat (of_int k) :: real) \<le> of_rat y" using that unfolding of_rat_less_eq .
    then have "(of_int k - 3134 / 100000) * ln 10 \<le> (Y - 3134 / 100000) * ln 10"
      using l10 by (intro mult_right_mono) (simp_all add: Y_def)
    from this lo have "(of_int k - 3134 / 100000) * ln 10 \<le> L" by (rule order_trans)
    then have "of_int k * ln 10 - 3134 / 100000 * ln 10 \<le> L" by (simp only: left_diff_distrib)
    then have "exp (of_int k * ln 10 + - (3134 / 100000 * ln 10)) \<le> exp L" by simp
    moreover have "exp (of_int k * ln 10 + - (3134 / 100000 * ln 10)) = (10 powi k * exp (- (3134 / 100000 * ln 10)) :: real)"
      by (simp only: exp_add powi_exp)
    moreover have "92 / 100 \<le> 1 + - (3134 / 100000 * ln (10 :: real))" using l10 by simp
    then have "92 / 100 \<le> exp (- (3134 / 100000 * ln (10 :: real)))"
      using exp_ge_add_one_self [of "- (3134 / 100000 * ln (10 :: real))"] by linarith
    then have "10 powi k * (92 / 100 :: real) \<le> 10 powi k * exp (- (3134 / 100000 * ln 10))"
      by (intro mult_left_mono) simp_all
    ultimately show ?thesis unfolding v by linarith
  qed
qed

lemma estimate_range_rat:
  fixes m y v :: rat
  assumes "\<bar>E\<bar> \<le> 1023" "1 \<le> m" "m < 2" "\<bar>y - log_estimate (of_int E) m\<bar> \<le> 1 / 1000000" "v = 2 powi E * m"
  shows "y \<le> of_int k \<Longrightarrow> v \<le> 10 powi k * (1 + 1 / 10 ^ 5)"
    and "of_int k \<le> y \<Longrightarrow> 10 powi k * (92 / 100) \<le> v"
proof -
  have c: "of_rat (10 powi k * (1 + 1 / 10 ^ 5)) = (10 powi k * (1 + 1 / 10 ^ 5) :: real)"
    "of_rat (10 powi k * (92 / 100)) = (10 powi k * (92 / 100) :: real)"
    by (simp_all only: of_rat_mult of_rat_add of_rat_divide of_rat_power of_rat_powi of_rat_numeral_eq of_rat_1)
  show "v \<le> 10 powi k * (1 + 1 / 10 ^ 5)" if "y \<le> of_int k"
    using estimate_range_ln(1) [OF assms that] unfolding c(1) [symmetric] of_rat_less_eq .
  show "10 powi k * (92 / 100) \<le> v" if "of_int k \<le> y"
    using estimate_range_ln(2) [OF assms that] unfolding c(2) [symmetric] of_rat_less_eq .
qed

text \<open>The scale of a normal number.\<close>

lemma etoa_scale_accurate:
  assumes "rnd v = v" "2 powi (- 1022) \<le> v" "v < 2 ^ 1024"
  obtains X F where "etoa_scale (D_fin v) = Some (X, D_fin F)" "0 < F" "\<bar>X\<bar> \<le> 308"
    "\<bar>F - 10 powi X\<bar> \<le> 10 powi X / 10 ^ 7" "10 powi X * (92 / 100) \<le> v" "v \<le> 10 powi X * (10 + 1 / 10 ^ 4)"
proof -
  have v: "0 \<le> v" using assms(2) pow2_pos [of "- 1022"] by linarith
  define E m where "E = exponent_bits v - 1023" and "m = significand v"
  have nf: "v = 2 powi E * m" unfolding E_def m_def by (rule normal_form [OF assms(1,2)])
  have E: "\<bar>E\<bar> \<le> 1023" using exponent_bits_bounds [OF v assms(3)] by (auto simp: E_def abs_le_iff)
  have m: "1 \<le> m" "m < 2" using significand by (simp_all add: m_def)
  obtain X y Y z r t where X: "X = trunc y" "\<bar>y - log_estimate (of_int E) m\<bar> \<le> 1 / 1000000" "- 307 \<le> X" "X \<le> 308"
    and z: "\<bar>z - (of_int X * 2.302585092994046 - of_int Y * 0.6931471805599453)\<bar> \<le> 1 / 50000000000"
      "- 21 / 20 \<le> z" "z \<le> 9 / 25" "1 / 5 \<le> exp_fraction z" "\<bar>Y\<bar> \<le> 1023"
    and r: "2 powi (Y - 2) \<le> r" "\<bar>r - 2 powi Y * exp_fraction z\<bar> \<le> 2 powi Y / 800000000"
    and t: "2 powi (Y - 6) \<le> t" "\<bar>10 * t - 2 powi Y * exp_fraction z\<bar> \<le> 2 powi Y / 800000000"
    and scale: "etoa_scale (D_fin v) = Some (if v < r then (X - 1, D_fin t) else (X, D_fin r))"
    by (rule etoa_scale_core [OF v assms(3)]) (rule that, simp_all only: E_def m_def)
  have Xb: "\<bar>X\<bar> \<le> 308" using X(3,4) by simp
  note power = computed_power [OF Xb z(5,2,3,4,1)]
  have tenth: "10 powi (X - 1) = 10 powi X / (10 :: rat)" by (simp add: power_int_diff)
  have r': "\<bar>r - 10 powi X\<bar> \<le> 10 powi X / 10 ^ 7" by (rule power [OF r(2)])
  have t': "\<bar>t - 10 powi (X - 1)\<bar> \<le> 10 powi (X - 1) / 10 ^ 7"
    unfolding tenth using withinD [OF power [OF t(2)]] by (intro within) simp_all
  note range = estimate_range_rat [OF E m X(2) nf]
  have T: "(0 :: rat) < 10 powi X" by simp
  have pos: "0 < r" "0 < t" using r(1) t(1) pow2_pos [of "Y - 2"] pow2_pos [of "Y - 6"] by linarith+
  show ?thesis
  proof (cases "v < r")
    case True
    have up: "v \<le> 10 powi X * (1 + 1 / 10 ^ 7)" using True withinD(2) [OF r'] by (simp add: distrib_left)
    have lo: "10 powi (X - 1) * (92 / 100) \<le> v"
      using trunc_bounds [of y] by (intro range(2)) (simp add: X(1))
    have "10 powi X * (1 + 1 / 10 ^ 7) \<le> (10 powi X * (1 + 1 / 10 ^ 5) :: rat)" by (rule mult_left_mono) simp_all
    also have "\<dots> = 10 powi (X - 1) * (10 + 1 / 10 ^ 4)" by (simp add: tenth distrib_left)
    finally have "v \<le> 10 powi (X - 1) * (10 + 1 / 10 ^ 4)" using up by (rule order_trans [rotated])
    moreover have "etoa_scale (D_fin v) = Some (X - 1, D_fin t)" using True scale by simp
    moreover have "\<bar>X - 1\<bar> \<le> 308" using X(3,4) by simp
    ultimately show ?thesis using lo t' pos(2) by (intro that)
  next
    case False
    have lo: "10 powi X * (1 - 1 / 10 ^ 7) \<le> v" using False withinD(1) [OF r'] by (simp add: right_diff_distrib)
    have "10 powi X * (92 / 100) \<le> (10 powi X * (1 - 1 / 10 ^ 7) :: rat)" by (rule mult_left_mono) simp_all
    from this lo have "10 powi X * (92 / 100) \<le> v" by (rule order_trans)
    moreover
    have "v \<le> 10 powi (X + 1) * (1 + 1 / 10 ^ 5)"
      using trunc_bounds [of y] by (intro range(1)) (simp add: X(1))
    then have "v \<le> 10 powi X * (10 + 1 / 10 ^ 4)" by (simp add: power_int_add distrib_left)
    moreover have "etoa_scale (D_fin v) = Some (X, D_fin r)" using False scale by simp
    ultimately show ?thesis using r' pos(1) Xb by (intro that)
  qed
qed

end
