(* ===== verification/FloatExponent.thy ===== *)
theory FloatExponent
  imports FloatPower FloatProps
begin

text \<open>
  What \<open>%e\<close> prints: a mantissa in the notation of \<open>%f\<close> and the exponent of a power of ten, whose product is
  the value up to a relative error of \<open>1.1 * 10 ^ -7\<close>; and the values whose mantissa comes out below one.
\<close>

section \<open>The text of the exponent\<close>

definition exponent_digits :: "int \<Rightarrow> byte list" where
  "exponent_digits X = [101, if X < 0 then c_minus else c_plus]
     @ (if \<bar>X\<bar> < 10 then [c_0] else []) @ numeral_text 0 10 (nat \<bar>X\<bar>)"

lemma short_numerals:
  "n < 10 \<Longrightarrow> length (base_digits 10 n) = 1"
  "10 \<le> n \<Longrightarrow> n < 100 \<Longrightarrow> length (base_digits 10 n) = 2"
  "100 \<le> n \<Longrightarrow> n < 1000 \<Longrightarrow> length (base_digits 10 n) = 3"
proof -
  show one: "length (base_digits 10 n) = 1" if "n < 10" for n using that by (subst base_digits.simps) simp
  have step: "length (base_digits 10 n) = Suc (length (base_digits 10 (n div 10)))" if "10 \<le> n" for n
    using that by (subst base_digits.simps) simp
  show two: "length (base_digits 10 n) = 2" if "10 \<le> n" "n < 100" for n
    using step [OF that(1)] one [of "n div 10"] that by (simp add: less_mult_imp_div_less)
  show "length (base_digits 10 n) = 3" if "100 \<le> n" "n < 1000" for n
    using step [of n] two [of "n div 10"] that by simp
qed

lemma exponent_number:
  assumes "n < 1000"
  shows "ntoa_text (of_nat n) negative 10 0 (if n < 100 then 3 else 4) (FLAGS_ZEROPAD OR FLAGS_PLUS)
    = (if negative then c_minus else c_plus) # (if n < 10 then [c_0] else []) @ numeral_text 0 10 n"
proof -
  let ?F = "FLAGS_ZEROPAD OR FLAGS_PLUS"
  have F: "\<not> has ?F FLAGS_LEFT" "has ?F FLAGS_ZEROPAD" "has ?F FLAGS_PLUS" "\<not> has ?F FLAGS_HASH"
    "has ?F (FLAGS_PLUS OR FLAGS_SPACE)" "\<not> has ?F FLAGS_PRECISION" "?F AND NOT FLAGS_HASH = ?F"
    by (simp_all add: has_def flag_bits)
  have u: "unat (of_nat n :: u32) = n" using assms by (intro unat_of_nat32) simp
  have d: "digits_loop (of_nat n) 10 ?F [] = rev (numeral_text ?F 10 n)"
    using digits_loop_digits [of 10 "of_nat n" ?F] by (simp add: numeral_text_def u)
  have n: "numeral_text ?F 10 n = numeral_text 0 10 n" by (metis digit_text_numeral)
  have len: "length (numeral_text 0 10 n) = (if n < 10 then 1 else if n < 100 then 2 else 3)"
    using short_numerals [of n] assms by (simp add: numeral_text_def)
  have "ntoa_text (of_nat n) negative 10 0 w ?F
      = (case ntoa_buf negative 10 0 w ?F (rev (numeral_text 0 10 n)) of (buf, w) \<Rightarrow> rev_text buf w ?F)" for w
    unfolding ntoa_text_def Let_def F(7) if_cancel by (simp only: F simp_thms if_True d n)
  then show ?thesis
    by (simp add: ntoa_buf_def ntoa_zeros_def ntoa_hash_def ntoa_sign_def rev_text_def Let_def F zero_fill_eq
        NTOA_BUFFER_SIZE_def len)
qed

lemma exponent_text_digits:
  assumes "\<bar>X\<bar> < 1000" "\<not> has flags FLAGS_LEFT" "\<not> has flags FLAGS_UPPERCASE"
  shows "exponent_text width flags (if X < 100 \<and> X > - 100 then 4 else 5) X t = t @ exponent_digits X"
proof -
  define n where "n = nat \<bar>X\<bar>"
  have n: "n < 1000" "X < 100 \<and> X > - 100 \<longleftrightarrow> n < 100" "\<bar>X\<bar> < 10 \<longleftrightarrow> n < 10"
    using assms(1) by (auto simp: n_def)
  have v: "(word_of_int (if X < 0 then - X else X) :: u32) = of_nat n" by (simp add: n_def)
  have w: "(if n < 100 then 4 else 5 :: u32) - 1 = (if n < 100 then 3 else 4)" "(if n < 100 then 4 else 5 :: u32) \<noteq> 0"
    by simp_all
  show ?thesis
    unfolding exponent_text_def exponent_digits_def n(2,3) v n_def [symmetric] w exponent_number [OF n(1)]
    using assms(2,3) w(2) by (simp add: Let_def)
qed

section \<open>The mantissa\<close>

text \<open>The quotient of the value by the computed power of ten, rounded.\<close>

lemma quotient_accurate:
  fixes v F T :: rat
  assumes "0 < v" "0 < T" "\<bar>F - T\<bar> \<le> T / 10 ^ 7" "T * (92 / 100) \<le> v" "v \<le> T * (10 + 1 / 10 ^ 4)"
  shows "\<bar>rnd (v / F) * T - v\<bar> \<le> v * (11 / 10 ^ 8)" "91 / 100 \<le> rnd (v / F)" "rnd (v / F) \<le> 10 + 1 / 10 ^ 3"
proof -
  define q where "q = v / T"
  have q: "92 / 100 \<le> q" "q \<le> 10 + 1 / 10 ^ 4" using assms(2,4,5) by (simp_all add: q_def field_simps)
  have v: "v = q * T" using assms(2) by (simp add: q_def)
  define f where "f = F / T"
  have f: "1 - 1 / 10 ^ 7 \<le> f" "f \<le> 1 + 1 / 10 ^ 7"
    using withinD [OF assms(3)] assms(2) by (simp_all add: f_def field_simps)
  have vF: "v / F = q / f" using assms(2) by (simp add: q_def f_def)
  have inv: "\<bar>q / f - q\<bar> \<le> q * (101 / 10 ^ 9)"
  proof -
    have f0: "0 < f" using f(1) by simp
    have e: "q / f - q = q * ((1 - f) / f)" using f0 by (simp add: field_simps)
    have "\<bar>f - 1\<bar> \<le> 1 / 10 ^ 7" using f by (intro within) simp_all
    then have "\<bar>(1 - f) / f\<bar> \<le> (1 / 10 ^ 7) / (1 - 1 / 10 ^ 7)"
      unfolding abs_divide abs_minus_commute [of 1] using f f0 by (intro frac_le) simp_all
    also have "\<dots> \<le> 101 / 10 ^ 9" by simp
    finally have "\<bar>q\<bar> * \<bar>(1 - f) / f\<bar> \<le> q * (101 / 10 ^ 9)" using q(1) by (intro mult_mono) simp_all
    then show ?thesis unfolding e abs_mult .
  qed
  have b: "0 \<le> q / f" "q / f \<le> q * 2" using withinD(2) [OF inv] q(1) f by simp_all
  have "\<bar>rnd (q / f) - q / f\<bar> \<le> \<bar>q / f\<bar> * 2 powi (- 53) + 2 powi (- 1075)" by (rule rnd_relative)
  also have "(2 :: rat) powi (- 1075) \<le> 2 powi (- 53)" unfolding pow2_le_iff by simp
  also have "\<bar>q / f\<bar> * 2 powi (- 53) + 2 powi (- 53) \<le> q * 2 * 2 powi (- 53) + 2 powi (- 53)"
    using b by (intro add_right_mono mult_right_mono) (simp_all del: abs_divide)
  also have "\<dots> \<le> q * (1 / 10 ^ 9)" using q(1) by (simp add: power_int_def power_one_over)
  finally have "\<bar>rnd (q / f) - q\<bar> \<le> q * (1 / 10 ^ 9) + q * (101 / 10 ^ 9)" using inv by linarith
  also have "\<dots> \<le> q * (11 / 10 ^ 8)" using q(1) by simp
  finally have r: "\<bar>rnd (v / F) - q\<bar> \<le> q * (11 / 10 ^ 8)" unfolding vF .
  have "rnd (v / F) * T - v = (rnd (v / F) - q) * T" by (simp add: v algebra_simps)
  then have "\<bar>rnd (v / F) * T - v\<bar> = \<bar>rnd (v / F) - q\<bar> * T" using assms(2) by (simp add: abs_mult)
  also have "\<dots> \<le> q * (11 / 10 ^ 8) * T" using r assms(2) by (intro mult_right_mono) simp_all
  finally show "\<bar>rnd (v / F) * T - v\<bar> \<le> v * (11 / 10 ^ 8)" by (simp add: v)
  show "91 / 100 \<le> rnd (v / F)" "rnd (v / F) \<le> 10 + 1 / 10 ^ 3" using withinD [OF r] q by simp_all
qed

text \<open>What \<open>_etoa\<close> hands to \<open>_ftoa\<close>, for a normal number and without \<open>%g\<close>.\<close>

definition mantissa :: "rat \<Rightarrow> int \<Rightarrow> rat \<Rightarrow> rat" where
  "mantissa v X F = (let w = (if X = 0 then \<bar>v\<bar> else rnd (\<bar>v\<bar> / F)) in if v < 0 then - w else w)"

lemma mantissa_accurate:
  assumes "rnd v = v" "v \<noteq> 0" "\<bar>F - 10 powi X\<bar> \<le> 10 powi X / 10 ^ 7"
    and "10 powi X * (92 / 100) \<le> \<bar>v\<bar>" "\<bar>v\<bar> \<le> 10 powi X * (10 + 1 / 10 ^ 4)"
  shows "rnd (mantissa v X F) = mantissa v X F" "\<bar>mantissa v X F * 10 powi X - v\<bar> \<le> \<bar>v\<bar> * (11 / 10 ^ 8)"
    "91 / 100 \<le> \<bar>mantissa v X F\<bar>" "\<bar>mantissa v X F\<bar> \<le> 10 + 1 / 10 ^ 3" "is_double (mantissa v X F)"
proof -
  have v: "0 < \<bar>v\<bar>" "rnd \<bar>v\<bar> = \<bar>v\<bar>" using assms(1,2) by (simp_all add: abs_if)
  have T: "0 < (10 powi X :: rat)" by simp
  define w where "w = (if X = 0 then \<bar>v\<bar> else rnd (\<bar>v\<bar> / F))"
  have "rnd w = w \<and> \<bar>w * 10 powi X - \<bar>v\<bar>\<bar> \<le> \<bar>v\<bar> * (11 / 10 ^ 8) \<and> 91 / 100 \<le> w \<and> w \<le> 10 + 1 / 10 ^ 3"
  proof (cases "X = 0")
    case True
    with assms(4,5) have "92 / 100 \<le> \<bar>v\<bar>" "\<bar>v\<bar> \<le> 10 + 1 / 10 ^ 4" by simp_all
    then show ?thesis using True v by (simp add: w_def)
  next
    case False
    then show ?thesis using quotient_accurate [OF v(1) T assms(3-5)] by (simp add: w_def)
  qed
  then have w: "rnd w = w" "\<bar>w * 10 powi X - \<bar>v\<bar>\<bar> \<le> \<bar>v\<bar> * (11 / 10 ^ 8)" "91 / 100 \<le> w" "w \<le> 10 + 1 / 10 ^ 3"
    by blast+
  have m: "mantissa v X F = (if v < 0 then - w else w)" by (simp add: mantissa_def w_def Let_def)
  show r: "rnd (mantissa v X F) = mantissa v X F" using w(1) by (simp add: m)
  have "\<bar>mantissa v X F * 10 powi X - v\<bar> = \<bar>w * 10 powi X - \<bar>v\<bar>\<bar>" by (simp add: m abs_if)
  with w(2) show "\<bar>mantissa v X F * 10 powi X - v\<bar> \<le> \<bar>v\<bar> * (11 / 10 ^ 8)" by simp
  have a: "\<bar>mantissa v X F\<bar> = w" using w(3) by (simp add: m)
  show "91 / 100 \<le> \<bar>mantissa v X F\<bar>" "\<bar>mantissa v X F\<bar> \<le> 10 + 1 / 10 ^ 3" unfolding a by (rule w)+
  then show "is_double (mantissa v X F)" using r by (simp add: is_double_def le_less_trans)
qed

lemma mantissa_sign: "0 < F \<Longrightarrow> if v < 0 then mantissa v X F \<le> 0 else 0 \<le> mantissa v X F"
  using rnd_nonneg [of "\<bar>v\<bar> / F"] by (simp add: mantissa_def Let_def)

lemma etoa_prepare_mantissa:
  assumes "rnd v = v" "v \<noteq> 0" "\<bar>F - 10 powi X\<bar> \<le> 10 powi X / 10 ^ 7"
    and "10 powi X * (92 / 100) \<le> \<bar>v\<bar>" "\<bar>v\<bar> \<le> 10 powi X * (10 + 1 / 10 ^ 4)"
    and "etoa_scale (D_fin \<bar>v\<bar>) = Some (X, D_fin F)" "0 < F" "\<not> has flags FLAGS_ADAPT_EXP"
  shows "etoa_prepare (D_fin v) prec 0 flags
      = Some (D_fin (mantissa v X F), if has flags FLAGS_PRECISION then prec else DEFAULT_FLOAT_PRECISION, 0, flags,
          if X < 100 \<and> X > - 100 then 4 else 5, X)"
proof -
  have v: "0 < \<bar>v\<bar>" using assms(2) by simp
  have T: "0 < (10 powi X :: rat)" by simp
  have pos: "(if d_less (D_fin v) (D_fin 0) then d_minus (D_fin v) else D_fin v) = D_fin \<bar>v\<bar>" by (simp add: abs_if)
  have "rnd (\<bar>v\<bar> / F) \<le> 11" "0 \<le> rnd (\<bar>v\<bar> / F)" using quotient_accurate(2,3) [OF v T assms(3-5)] by simp_all
  then have "d_div (D_fin \<bar>v\<bar>) (D_fin F) = D_fin (rnd (\<bar>v\<bar> / F))" using assms(7) by (simp add: D_round_def Let_def)
  then have q: "(if X \<noteq> 0 then d_div (D_fin \<bar>v\<bar>) (D_fin F) else D_fin \<bar>v\<bar>)
      = D_fin (if X = 0 then \<bar>v\<bar> else rnd (\<bar>v\<bar> / F))" by simp
  have s: "(if d_less (D_fin v) (D_fin 0) then d_minus (D_fin (if X = 0 then \<bar>v\<bar> else rnd (\<bar>v\<bar> / F)))
      else D_fin (if X = 0 then \<bar>v\<bar> else rnd (\<bar>v\<bar> / F))) = D_fin (mantissa v X F)"
    by (simp add: mantissa_def Let_def)
  have adapt: "etoa_adapt a p flags mw X = Some (p, flags, mw, X)" for a p mw
    using assms(8) by (simp add: etoa_adapt_def)
  have "etoa_fwidth 0 mw flags = 0" for mw by (simp add: etoa_fwidth_def)
  then show ?thesis
    unfolding etoa_prepare_def Let_def pos assms(6) bind.simps prod.case adapt q s by simp
qed

text \<open>The text of \<open>_etoa\<close>, when its mantissa has one.\<close>

lemma ftoa_text_default:
  "\<not> has flags FLAGS_PRECISION \<Longrightarrow> ftoa_text val prec width flags = ftoa_text val prec' width flags"
proof -
  assume "\<not> has flags FLAGS_PRECISION"
  then have "ftoa_buf val prec width flags = ftoa_buf val prec' width flags" by (simp add: ftoa_buf_def ftoa_number_def)
  then show ?thesis by (simp only: ftoa_text_def)
qed

lemma etoa_text_mantissa:
  assumes "etoa_prepare (D_fin v) prec 0 flags
      = Some (D_fin u, if has flags FLAGS_PRECISION then prec else DEFAULT_FLOAT_PRECISION, 0, flags,
          if X < 100 \<and> X > - 100 then 4 else 5, X)"
    and "ftoa_text (D_fin u) prec 0 flags = Some t" "flags = 0 \<or> flags = FLAGS_PRECISION" "is_double v" "\<bar>X\<bar> \<le> 308"
  shows "etoa out buffer maxlen (D_fin v) prec 0 flags o' = Some (emits out buffer maxlen (t @ exponent_digits X) o')"
proof (rule etoa_emits)
  have f: "flags AND NOT FLAGS_ADAPT_EXP = flags" "\<not> has flags FLAGS_LEFT" "\<not> has flags FLAGS_UPPERCASE"
    using assms(3) by (auto simp: has_def flag_bits FLAGS_ADAPT_EXP_def)
  have t: "ftoa_text (D_fin u) (if has flags FLAGS_PRECISION then prec else DEFAULT_FLOAT_PRECISION) 0 flags = Some t"
    using assms(2) ftoa_text_default [of flags "D_fin u" prec 0 DEFAULT_FLOAT_PRECISION] by simp
  have "\<not> etoa_special (D_fin v)" using ordinary(1) assms(4) by (simp add: is_double_def)
  then show "etoa_text (D_fin v) prec 0 flags = Some (t @ exponent_digits X)"
    unfolding etoa_text_def assms(1) using t exponent_text_digits [OF _ f(2,3), of X 0 t] assms(5) by (simp add: f(1))
qed

section \<open>Properties\<close>

text \<open>What is printed, against the value: the errors of the mantissa and of its last decimal add up.\<close>

lemma printed_error:
  fixes u v N e c :: rat
  assumes "\<bar>N - \<bar>u\<bar> * 10 ^ p\<bar> \<le> e" "\<bar>u * 10 powi X - v\<bar> \<le> c"
  shows "\<bar>N * 10 powi (X - int p) - \<bar>v\<bar>\<bar> \<le> c + e * 10 powi (X - int p)"
proof -
  let ?E = "10 powi (X - int p) :: rat"
  have E: "10 ^ p * ?E = 10 powi X" by (simp add: power_int_diff)
  have "\<bar>N * ?E - \<bar>u\<bar> * 10 powi X\<bar> = \<bar>N - \<bar>u\<bar> * 10 ^ p\<bar> * ?E"
    by (simp add: E [symmetric] abs_mult flip: left_diff_distrib mult.assoc)
  also have "\<dots> \<le> e * ?E" using assms(1) by (intro mult_right_mono) simp_all
  finally have "\<bar>N * ?E - \<bar>u\<bar> * 10 powi X\<bar> \<le> e * ?E" .
  moreover have "\<bar>\<bar>u\<bar> * 10 powi X - \<bar>v\<bar>\<bar> \<le> \<bar>u * 10 powi X - v\<bar>"
    using abs_triangle_ineq3 [of "u * 10 powi X" v] by (simp add: abs_mult)
  ultimately show ?thesis using assms(2) by linarith
qed

text \<open>
  C6. What \<open>%e\<close> prints for a normal number, with up to nine decimals. \<open>_etoa\<close> splits the value into a
  mantissa between 0.91 and 10.001 and a power of ten whose product is the value up to a relative error of
  \<open>1.1 * 10 ^ -7\<close>. It prints the sign, the whole part, exactly as many decimals as asked for, the letter \<open>e\<close> and the
  exponent with its sign and at least two digits, and the number printed is the value up to this relative
  error plus half a unit of the last decimal printed and \<open>2 ^ -22\<close> of it; unless the mantissa is one of
  those that carry (\<open>ftoa_carry_garbles\<close>, as for \<open>%.1e\<close> of 1.95): then it is the one among zeros, before the exponent.
\<close>

theorem etoa_accurate:
  assumes "is_double v" "2 powi (- 1022) \<le> \<bar>v\<bar>" "flags = 0 \<or> flags = FLAGS_PRECISION"
    and "p = effective_precision prec flags" "p \<le> 9"
  shows "\<exists>u X t. etoa out buffer maxlen (D_fin v) prec 0 flags o'
      = Some (emits out buffer maxlen (t @ exponent_digits X) o')
    \<and> is_double u \<and> \<bar>u * 10 powi X - v\<bar> \<le> \<bar>v\<bar> * (11 / 10 ^ 8) \<and> 91 / 100 \<le> \<bar>u\<bar> \<and> \<bar>u\<bar> \<le> 10 + 1 / 10 ^ 3
    \<and> (if carries \<bar>u\<bar> p then t = replicate (31 - p) c_0 @ [49] @ replicate p c_0
       else \<exists>w ds. t = (if v < 0 then [c_minus] else []) @ numeral_text 0 10 w @ (if p = 0 then [] else c_dot # ds)
         \<and> length ds = p \<and> (\<forall>d \<in> set ds. is_digit d)
         \<and> \<bar>of_nat (w * 10 ^ p + num_value 10 ds) * 10 powi (X - int p) - \<bar>v\<bar>\<bar>
             \<le> \<bar>v\<bar> * (11 / 10 ^ 8) + (1 / 2 + 1 / 2 ^ 22) * 10 powi (X - int p))"
proof -
  have v: "rnd v = v" "rnd \<bar>v\<bar> = \<bar>v\<bar>" "\<bar>v\<bar> < 2 ^ 1024" using assms(1) by (simp_all add: is_double_def abs_if)
  have v0: "v \<noteq> 0" using assms(2) pow2_pos [of "- 1022"] by auto
  have a: "\<not> has flags FLAGS_ADAPT_EXP" using assms(3) by (auto simp: has_def flag_bits FLAGS_ADAPT_EXP_def)
  obtain X F where X: "etoa_scale (D_fin \<bar>v\<bar>) = Some (X, D_fin F)" "0 < F" "\<bar>X\<bar> \<le> 308"
    and F: "\<bar>F - 10 powi X\<bar> \<le> 10 powi X / 10 ^ 7" "10 powi X * (92 / 100) \<le> \<bar>v\<bar>" "\<bar>v\<bar> \<le> 10 powi X * (10 + 1 / 10 ^ 4)"
    by (rule etoa_scale_accurate [OF v(2) assms(2) v(3)])
  define u where "u = mantissa v X F"
  note u = mantissa_accurate [OF v(1) v0 F, folded u_def]
  have small: "\<bar>u\<bar> < 2 ^ 31 - 1" using u(4) by simp
  have sign: "u < 0 \<longleftrightarrow> v < 0" using u(3) mantissa_sign [OF X(2), of v X] by (auto simp: u_def split: if_splits)
  have e: "etoa out buffer maxlen (D_fin v) prec 0 flags o' = Some (emits out buffer maxlen (t @ exponent_digits X) o')"
    if "ftoa_text (D_fin u) prec 0 flags = Some t" for t
    by (rule etoa_text_mantissa [OF etoa_prepare_mantissa [OF v(1) v0 F X(1,2) a, folded u_def] that assms(3,1) X(3)])
  show ?thesis
  proof (cases "carries \<bar>u\<bar> p")
    case True
    note t = e [OF ftoa_text_carry [OF u(5) small assms(4,5) True]]
    show ?thesis by (intro exI conjI) (rule t, rule u(5), rule u(2), rule u(3), rule u(4), simp add: True)
  next
    case False
    from ftoa_text_rounded [OF u(5) small assms(3-5) False] obtain w ds where
      t: "ftoa_text (D_fin u) prec 0 flags
        = Some ((if v < 0 then [c_minus] else []) @ numeral_text 0 10 w @ (if p = 0 then [] else c_dot # ds))"
      and d: "length ds = p" "\<forall>d \<in> set ds. is_digit d"
      and r: "\<bar>of_nat (w * 10 ^ p + num_value 10 ds) - \<bar>u\<bar> * 10 ^ p\<bar> \<le> 1 / 2 + 1 / 2 ^ 22"
      unfolding sign by blast
    have "\<exists>w ds. t = (if v < 0 then [c_minus] else []) @ numeral_text 0 10 w @ (if p = 0 then [] else c_dot # ds)
         \<and> length ds = p \<and> (\<forall>d \<in> set ds. is_digit d)
         \<and> \<bar>of_nat (w * 10 ^ p + num_value 10 ds) * 10 powi (X - int p) - \<bar>v\<bar>\<bar>
             \<le> \<bar>v\<bar> * (11 / 10 ^ 8) + (1 / 2 + 1 / 2 ^ 22) * 10 powi (X - int p)"
      if "t = (if v < 0 then [c_minus] else []) @ numeral_text 0 10 w @ (if p = 0 then [] else c_dot # ds)" for t
      using that d printed_error [OF r u(2)] by blast
    note printed = this [OF HOL.refl]
    show ?thesis
      by (intro exI conjI) (rule e [OF t], rule u(5), rule u(2), rule u(3), rule u(4), simp only: False if_False printed)
  qed
qed

theorem etoa_accurate_witness:
  "\<exists>u X t. etoa out_null 0 0 (D_fin 1) 0 0 0 (0, boot (\<lambda>_. 0)) = Some (emits out_null 0 0 (t @ exponent_digits X) (0, boot (\<lambda>_. 0)))
    \<and> \<bar>u * 10 powi X - 1\<bar> \<le> (11 / 10 ^ 8 :: rat)"
proof -
  have "is_double 1" using rnd_of_int [of 1] by (simp add: is_double_def)
  moreover have "(2 :: rat) powi (- 1022) \<le> 2 powi 0" unfolding pow2_le_iff by simp
  moreover have "6 = effective_precision 0 0" by (simp add: effective_precision_def has_def DEFAULT_FLOAT_PRECISION_def)
  ultimately show ?thesis using etoa_accurate [of 1 0 6 0 out_null 0 0 "(0, boot (\<lambda>_. 0))"] by fastforce
qed

text \<open>
  The values from \<open>2 ^ -10\<close> to 0.00099: the estimate of the logarithm is above -3, although the logarithm
  is below, and the truncation makes -2 of it, which a single correction does not bring down to -4.
\<close>

lemma small_value_scale:
  assumes "rnd v = v" "1 / 1024 \<le> v" "v \<le> 99 / 100000"
  obtains F where "etoa_scale (D_fin v) = Some (- 3, D_fin F)" "0 < F" "\<bar>F - 10 powi (- 3)\<bar> \<le> 10 powi (- 3) / 10 ^ 7"
proof -
  have v: "0 \<le> v" "v < 2 ^ 1024" using assms by simp_all
  have "ilog2 \<bar>v\<bar> = - 10" using assms by (intro ilog2_unique) (simp_all add: power_int_def power_one_over)
  then have e: "exponent_bits v - 1023 = - 10" using assms(2) by (simp add: exponent_bits_def)
  have "(2 :: rat) powi (- 1022) \<le> 2 powi (- 10)" unfolding pow2_le_iff by simp
  also have "2 powi (- 10) \<le> v" using assms(2) by (simp add: power_int_def power_one_over)
  finally have "2 powi (- 1022) \<le> v" .
  from normal_form [OF assms(1) this] have m: "significand v = v * 1024" unfolding e by (simp add: power_int_def power_one_over)
  obtain X y Y z r t where X: "X = trunc y" "\<bar>y - log_estimate (of_int (- 10)) (v * 1024)\<bar> \<le> 1 / 1000000"
    and z: "\<bar>z - (of_int X * 2.302585092994046 - of_int Y * 0.6931471805599453)\<bar> \<le> 1 / 50000000000"
      "- 21 / 20 \<le> z" "z \<le> 9 / 25" "1 / 5 \<le> exp_fraction z" "\<bar>Y\<bar> \<le> 1023"
    and r: "\<bar>r - 2 powi Y * exp_fraction z\<bar> \<le> 2 powi Y / 800000000"
    and t: "2 powi (Y - 6) \<le> t" "\<bar>10 * t - 2 powi Y * exp_fraction z\<bar> \<le> 2 powi Y / 800000000"
    and scale: "etoa_scale (D_fin v) = Some (if v < r then (X - 1, D_fin t) else (X, D_fin r))"
    by (rule etoa_scale_core [OF v]) (rule that, simp_all only: e m)
  have "- 3 < y" "y < - 2" using estimate_range [OF _ _ X(2)] assms(2,3) by simp_all
  then have X2: "X = - 2" unfolding X(1) trunc_def by (simp add: ceiling_eq_iff)
  note power = computed_power [OF _ z(5,2,3,4,1)]
  have "\<bar>r - 10 powi X\<bar> \<le> 10 powi X / 10 ^ 7" by (rule power [OF _ r]) (simp add: X2)
  from withinD(1) [OF this] have "v < r" using assms(3) by (simp add: X2 power_int_def power_one_over)
  moreover have "\<bar>10 * t - 10 powi X\<bar> \<le> 10 powi X / 10 ^ 7" by (rule power [OF _ t(2)]) (simp add: X2)
  from withinD [OF this] have "\<bar>t - 10 powi (- 3)\<bar> \<le> 10 powi (- 3) / 10 ^ 7"
    by (intro within) (simp_all add: X2 power_int_def power_one_over)
  moreover have "0 < t" using t(1) pow2_pos [of "Y - 6"] by linarith
  ultimately show ?thesis using that scale by (simp add: X2)
qed

text \<open>
  C27. The mantissa of \<open>%e\<close> is not always normalised: every number from \<open>2 ^ -10\<close> to 0.00099 is printed as
  \<open>0.\<close> followed by six decimals and \<open>e-03\<close>, with one significant digit less than the precision asks for.
\<close>

theorem etoa_unnormalised:
  assumes "is_double v" "1 / 1024 \<le> v" "v \<le> 99 / 100000"
  shows "\<exists>ds. etoa out buffer maxlen (D_fin v) 0 0 0 o'
      = Some (emits out buffer maxlen ([c_0, c_dot] @ ds @ map of_char ''e-03'') o')
    \<and> length ds = 6 \<and> \<bar>of_nat (num_value 10 ds) - v * 10 ^ 9\<bar> \<le> 1"
proof -
  have v: "rnd v = v" "v \<noteq> 0" "\<bar>v\<bar> = v" using assms by (auto simp: is_double_def)
  obtain F where X: "etoa_scale (D_fin \<bar>v\<bar>) = Some (- 3, D_fin F)" "0 < F"
    and F: "\<bar>F - 10 powi (- 3)\<bar> \<le> 10 powi (- 3) / 10 ^ 7"
    unfolding v(3) by (rule small_value_scale [OF v(1) assms(2,3)])
  have b: "10 powi (- 3) * (92 / 100) \<le> \<bar>v\<bar>" "\<bar>v\<bar> \<le> 10 powi (- 3) * (10 + 1 / 10 ^ 4)"
    using assms(2,3) by (simp_all add: v(3) power_int_def power_one_over)
  define u where "u = mantissa v (- 3) F"
  note u = mantissa_accurate [OF v(1,2) F b, folded u_def]
  have u0: "0 < u"
    using assms(2) u(3) rnd_nonneg [of "v / F"] X(2) by (auto simp: u_def mantissa_def Let_def abs_if)
  have near: "\<bar>u - v * 1000\<bar> \<le> v * 1000 * (11 / 10 ^ 8)"
  proof -
    have "u - v * 1000 = (u * 10 powi (- 3) - v) * 1000" by (simp add: power_int_def power_one_over)
    then have "\<bar>u - v * 1000\<bar> = \<bar>u * 10 powi (- 3) - v\<bar> * 1000" by (simp only: abs_mult abs_numeral)
    then show ?thesis using u(2) by (simp add: v(3))
  qed
  have small: "\<bar>u\<bar> < 2 ^ 31 - 1" "u < 999 / 1000" using u(4) withinD(2) [OF near] assms(3) by simp_all
  have no: "\<not> has 0 f" for f by (simp add: has_def)
  have p: "6 = effective_precision 0 0" by (simp add: effective_precision_def no DEFAULT_FLOAT_PRECISION_def)
  have c: "\<not> carries \<bar>u\<bar> 6"
  proof -
    have "\<lfloor>u\<rfloor> = 0" using u0 small(2) by (simp add: floor_eq_iff)
    then have "scaled_fraction u 6 = rnd (u * 10 ^ 6)" by (simp add: scaled_fraction_def)
    also have "\<dots> \<le> rnd (of_int 999000)" using small(2) by (intro rnd_mono) simp
    also have "\<dots> = 999000" using rnd_of_int [of 999000] by simp
    finally show ?thesis using u0 by (simp add: carries_def)
  qed
  obtain w ds where t: "ftoa_text (D_fin u) 0 0 0 = Some ((if u < 0 then [c_minus] else []) @ numeral_text 0 10 w @ c_dot # ds)"
    and ds: "length ds = 6" "\<forall>d \<in> set ds. is_digit d" "\<bar>of_nat (w * 10 ^ 6 + num_value 10 ds) - \<bar>u\<bar> * 10 ^ 6\<bar> \<le> 1 / 2 + 1 / 2 ^ 22"
    using ftoa_text_decimal [OF u(5) small(1) _ p _ _ c] by auto
  have "of_nat (w * 10 ^ 6 + num_value 10 ds) < (of_nat (10 ^ 6) :: rat)"
    using withinD(2) [OF ds(3)] small(2) u0 by simp
  then have w: "w = 0" unfolding of_nat_less_iff by simp
  have ft: "ftoa_text (D_fin u) 0 0 0 = Some ([c_0, c_dot] @ ds)"
    using t u0 by (simp add: w numeral_text_def base_digits.simps digit_char_def)
  have e: "exponent_digits (- 3) = map of_char ''e-03''" by (simp add: exponent_digits_def numeral_text_def base_digits.simps digit_char_def)
  have "\<not> has 0 FLAGS_ADAPT_EXP" by (rule no)
  from etoa_text_mantissa [OF etoa_prepare_mantissa [OF v(1,2) F b X this, folded u_def] ft _ assms(1)]
  have "etoa out buffer maxlen (D_fin v) 0 0 0 o' = Some (emits out buffer maxlen ([c_0, c_dot] @ ds @ map of_char ''e-03'') o')"
    by (simp add: e)
  moreover have "\<bar>of_nat (num_value 10 ds) - v * 10 ^ 9\<bar> \<le> 1"
    using withinD [OF ds(3)] withinD [OF near] assms(3) u0 by (intro within) (simp_all add: w)
  ultimately show ?thesis using ds(1) by blast
qed

theorem etoa_unnormalised_witness:
  "\<exists>ds. etoa out_null 0 0 (D_fin (1 / 1024)) 0 0 0 (0, boot (\<lambda>_. 0))
      = Some (emits out_null 0 0 ([c_0, c_dot] @ ds @ map of_char ''e-03'') (0, boot (\<lambda>_. 0)))
    \<and> length ds = 6 \<and> \<bar>of_nat (num_value 10 ds) - 976562.5\<bar> \<le> (1 :: rat)"
proof -
  have "is_double (1 / 1024)"
    using rnd_representable [of 1 "- 10"] by (simp add: is_double_def power_int_def power_one_over)
  then show ?thesis using etoa_unnormalised [of "1 / 1024" out_null 0 0 "(0, boot (\<lambda>_. 0))"] by simp
qed

end
