(* ===== verification/Spec2Isabelle.thy ===== *)
theory Spec2Isabelle
  imports Fib Mtest Programs OpTests AsmPrograms Board FrontEnd FloatTest FloatExponent
begin

text \<open>
  The rv32-emulator repository, verified: the C runtime of \<open>src/c_test\<close>, that is the freestanding
  library the guest programs link against and those programs themselves, and the devices and the
  interrupt check of the emulator in \<open>src/src\<close> (Rust). There is no kernel and no libc below the C code;
  input and output are the UART at \<open>0x10000000\<close>, which is one of the devices.

  The parts and their theories.

  \<^item> \<open>Prelude\<close>: word lemmas, counting loops (\<open>for_up\<close>, \<open>for_down\<close>: a C \<open>for\<close> over \<open>size_t\<close> with
    its invariant rule) and address ranges (\<open>span\<close>, \<open>apart\<close>) modulo \<open>2^32\<close>.
  \<^item> \<open>Machine\<close>: the state all programs share. \<open>machine\<close> holds the byte memory, the static variables
    of \<open>mem.c\<close> (\<open>heap_end\<close>, \<open>mem_head\<close>) and \<open>standard.c\<close> (\<open>output\<close> of \<open>str2int\<close>) and the UART as the
    bytes printed so far and the bytes still to come. \<open>load32\<close> and \<open>store32\<close> are little endian;
    \<open>cstr m p s\<close> says that the C string \<open>s\<close> stands at \<open>p\<close>.
  \<^item> \<open>MemOps\<close> (\<open>mem.c\<close>, \<open>memset\<close> to \<open>memcmp\<close>) and \<open>CString\<close> (\<open>string.c\<close>, \<open>strlen\<close> to \<open>strstr\<close>).
  \<^item> \<open>AllocIface\<close>: the interface of a heap to its clients, the locales \<open>allocator\<close> and
    \<open>arena_allocator\<close>, and what follows from its laws alone.
  \<^item> \<open>Alloc\<close> (\<open>mem.c\<close>, \<open>sbrk\<close>, \<open>malloc\<close>, \<open>free\<close>, \<open>realloc\<close>, \<open>calloc\<close>, \<open>debug_heap\<close>): the code over
    the byte layout of \<open>mem_block\<close>; \<open>heap_inv\<close> is the invariant, \<open>session\<close> the sequences of requests
    a program makes, and \<open>heap\<close> the interpretation of the interface on this code.
  \<^item> \<open>StringObj\<close> (\<open>string.c\<close>, \<open>string_new\<close> to \<open>free_str\<close>): the growable strings; \<open>string_at\<close> maps a
    string object to the byte list it represents.
  \<^item> \<open>Printf\<close> (\<open>printf.c\<close>): the output functions, number formatting, \<open>_vsnprintf\<close> and its entry
    points. \<open>FormatSpec\<close>: the specification \<open>render\<close>, a function from the format bytes and the
    arguments to the bytes printed. \<open>Sinks\<close>: the interface \<open>sink\<close> of an output function, the proof
    that the formatter implements \<open>render\<close>, and the interpretations for \<open>_out_null\<close>, \<open>_out_char\<close> and
    \<open>_out_buffer\<close>. \<open>NumberText\<close>: what the digits mean. \<open>PrintfSpec\<close>: the properties.
  \<^item> \<open>Double\<close>: binary64 as the rationals it represents: \<open>rnd\<close> rounds to the nearest one, ties to even,
    \<open>dbl\<close> adds the infinities and NaN, and \<open>d_to_bits\<close> and \<open>d_of_bits\<close> are its encoding.
    \<open>FloatText\<close> (\<open>printf.c\<close>): \<open>_ntoa_long_long\<close>, \<open>_ftoa\<close> and \<open>_etoa\<close> over it, which the configuration of the
    programs leaves out. \<open>FloatSpec\<close>: the text of a conversion, its digits and the error of its rounding.
    \<open>ExpBound\<close>: the logarithms and the continued fraction \<open>_etoa\<close> approximates, over the reals. \<open>FloatScale\<close> and
    \<open>FloatPower\<close>: the error analysis of its decimal exponent and power of ten. \<open>FloatProps\<close> and
    \<open>FloatExponent\<close>: the properties of the conversions.
    \<open>FullPrintf\<close>: the formatter in the configuration with these conversions, and its agreement with
    the one of \<open>Printf\<close>; \<open>FullRender\<close>: its specification \<open>full_render\<close> and the refinement.
    \<open>FloatTest\<close> (\<open>float_test.c\<close>): the program that prints a \<open>double\<close>.
  \<^item> \<open>Standard\<close> (\<open>standard.c\<close>, \<open>signal.c\<close>): \<open>str2int\<close>, \<open>get_string\<close> and the library stubs.
  \<^item> \<open>Console\<close>: programs that print: string literals in a read-only area (\<open>literals_at\<close>), \<open>say\<close> for a
    call of \<open>printf\<close> with a literal and \<open>said\<close> for a machine that has printed a text.
  \<^item> \<open>Fib\<close> (\<open>fib.c\<close>), \<open>Mtest\<close> (\<open>mtest.c\<close>) and \<open>Programs\<close> (\<open>vaddr.c\<close>, \<open>echo_out.c\<close>, \<open>global.c\<close>, \<open>hello.c\<close>,
    \<open>test.c\<close>): the programs with their whole \<open>main\<close> and what it prints.
  \<^item> \<open>OpTests\<close> (\<open>op_tests.c\<close>): the macros and functions of the operator and register tests, with
    \<open>assert_eq\<close>, which the repository does not define, as a parameter. \<open>AsmPrograms\<close> (\<open>csrs.S\<close>, \<open>jmp_test.S\<close>,
    \<open>print_out.S\<close>, \<open>spin.S\<close>): the assembly programs as lists of lines, and the instructions they use.
  \<^item> \<open>Device\<close>: what the Rust devices share. A result is an option of a sum: \<open>None\<close> is a panic, \<open>Inl\<close> an
    exception, \<open>Inr\<close> a value; \<open>u_add\<close>, \<open>u_mul\<close>, \<open>u_shl\<close> and \<open>u_shr\<close> panic on overflow when the build
    checks it and wrap otherwise. \<open>csr_file\<close> is the parameter for the CSRs of the CPU.
  \<^item> \<open>Clint\<close> (\<open>clint.rs\<close>), \<open>Plic\<close> (\<open>plic.rs\<close>), \<open>Virtio\<close> (\<open>viritio.rs\<close>): the register files, with
    \<open>clint_decode\<close>, \<open>plic_decode\<close> and \<open>reg_at\<close> for the address maps, the claim protocol of the PLIC
    (\<open>claim_cell\<close> is its specification, panics included) and the disk access (\<open>disk_effect\<close> is its
    specification).
  \<^item> \<open>UartDevice\<close> (\<open>uart.rs\<close>): the CPU thread as functions, the reader thread as the step relation
    \<open>reader_step\<close>; \<open>provides\<close> relates the device to the byte streams of \<open>Machine\<close>.
  \<^item> \<open>Board\<close> (\<open>main.rs\<close>): the devices together, \<open>check_ints\<close> and the loop around the CPU; \<open>asked\<close>
    is what the devices ask for at a check, \<open>None\<close> when a notified disk request fails.
  \<^item> \<open>FrontEnd\<close> (\<open>main.rs\<close>, \<open>cmd.rs\<close>): \<open>init_cpu\<close>, step mode with its commands and \<open>main\<close>, as the step relation
    \<open>emulator_step\<close> between the main thread (\<open>main_step\<close>, whose control is \<open>main_pc\<close>) and the reader thread of
    the UART, which share the standard input.

  How they interact: \<open>string.c\<close> takes its blocks from \<open>mem.c\<close>, \<open>get_string\<close> builds a string from
  the UART with \<open>string.c\<close>, \<open>str2int\<close> reports errors through \<open>printf\<close>, and \<open>get_input\<close> of \<open>fib.c\<close>
  uses all of them. The UART of \<open>Machine\<close>, on which all programs print and read, is provided by
  \<open>UartDevice\<close>: a simulation between the device with its reader thread and the two byte streams. The
  check for interrupts polls the devices, raises their interrupts at the PLIC and in \<open>MIP\<close> and hands
  one interrupt to the CPU. The front end runs steps and checks in turn while the reader thread of the
  UART runs beside it. The proofs follow the same lines: \<open>StringObj\<close> and \<open>Standard\<close> use the heap only
  through the facts of the interpretation \<open>heap\<close>, and everything printed goes through the
  refinement of \<open>Sinks\<close>.

  Conventions. All integers are words of the width the code gives them on RV32 (\<open>int\<close>, \<open>long\<close>,
  \<open>size_t\<close> and pointers 32 bits, \<open>char\<close> 8 bits and unsigned), and arithmetic wraps; signed
  overflow, which C leaves undefined, is taken to wrap as the compiled code does. A loop that may
  not end is a \<open>partial_function\<close>, and \<open>None\<close> is not returning; \<open>None\<close> also stands for what C leaves
  undefined (a missing argument of \<open>printf\<close>, reading through NULL in \<open>get_input\<close>). Every theorem
  that speaks of a result states that there is one, so that termination is part of it. No fuel is
  used; \<open>asm_run\<close> of \<open>AsmPrograms\<close> takes the number of lines to execute, which its theorems give exactly. Addresses the compiler or the linker chooses (string literals, local objects whose
  address is passed on) are arguments of the definitions. The configuration is that of the
  Makefile: \<open>debug_config.h\<close> switches the floating point and \<open>long long\<close> conversions off, and
  \<open>debug(...)\<close> expands to nothing; only \<open>FullPrintf\<close> and the program of \<open>FloatTest\<close> are about the
  configuration with these conversions.

  Floating point: every operation on \<open>double\<close> is rounded on its own to binary64, to nearest and ties to
  even, as a software implementation or a machine with 64-bit registers does it. The sign of zero is
  not kept: no comparison of the code sees it, and no zero is divided by. Converting a \<open>double\<close> to an
  integer type that does not hold it is undefined, so the result is \<open>None\<close>. Options of the compiler
  that relax this (\<open>-ffast-math\<close>) are not modelled.

  Bounds: the heap is the 4 MiB from \<open>0x80000000\<close> on (\<open>HEAP_SIZE\<close>); \<open>heap_room L n\<close> says that a
  request of \<open>n\<close> bytes still fits behind the blocks \<open>L\<close>. The text of one formatter call is assumed
  shorter than \<open>2^32 - 1\<close> bytes, the range of its index.

  What the lemmas show, in short: the memory and string functions do what their C namesakes do,
  with the deviations stated (\<open>strstr\<close>, \<open>strchr\<close>); the heap never hands out overlapping blocks,
  although \<open>free\<close> never frees and \<open>realloc\<close> misreads sizes; strings are byte lists under append,
  copy and growth; the formatter is its specification for every output function, stays inside its
  buffers, and its numbers can be read back by \<open>str2int\<close>; a line typed is the line returned. \<open>%f\<close> is
  accurate to half a unit of the last decimal but for one case of its rounding, which is stated; \<open>%e\<close>
  is accurate to seven digits and half a unit of the last decimal printed, with the same exception and a
  mantissa that is not always normalised; the recursion between
  \<open>_ftoa\<close> and \<open>_etoa\<close> ends, and where \<open>_ftoa\<close> is undefined is stated exactly.

  The devices: their arrays keep the lengths of their types and their registers are memories, with the
  exceptions stated; the exact accesses by which a guest can make the emulator panic; the UART loses
  and reorders no byte in any interleaving, and a byte typed inevitably arrives; a disk request moves
  the bytes of the sector and nothing else; the outcome of the interrupt check is stated for every state of the devices, and the interrupt taken is
  the first of the priority order. From \<open>main\<close> on, in every interleaving of the two threads, the emulator
  without step mode panics exactly where the CPU's step does (its accesses to the devices included) or
  where the check meets a disk request that fails; in step mode the lines that panic are characterised.

  What does not hold as one would expect is stated by the theorems and lemmas next to it: time never
  advances (\<open>increment\<close> is not called), the UART's interrupt is never withdrawn, the pending bits of the
  PLIC are in the wrong words, \<open>DRIVER_OK\<close> is not recognised, step mode shares its input with the
  guest, takes no interrupts and panics on an address written with \<open>0x\<close>, \<open>op_tests\<close> cannot pass, \<open>spin\<close> does
  not spin.

  Assumptions on the image: in the theorems about the two programs that allocate (\<open>fib_main_transcript\<close>
  and \<open>mtest_main_transcript\<close>) string literals lie outside the heap, and the heap of \<open>mtest\<close> is zero at the start. The
  Makefile links no such program: \<open>string.o\<close>, \<open>standard.o\<close> and \<open>mem.o\<close> are commented out in the rule that links.
  It would place the text at \<open>0x80000000\<close>, where the heap starts too, so a link of them needs another address.

  Not modelled: the CPU, which is an external crate and a parameter where the devices and the front end
  need it, failing reads of the standard input, DMA that reaches the block device itself, and the
  libraries around the front end: the parsing of the command line, logging and the generation of
  completions, which are external crates.
\<close>

end
